(* ===== verification/RTEMS_Prelude.thy ===== *)
theory RTEMS_Prelude
  imports Main "HOL-Library.Word" "HOL-Library.Signed_Division"
begin

text \<open>
  Shared vocabulary of the development: names for the C integer types at the widths the
  sources use on a 64-bit target, the named collections of simplification rules the
  component theories extend, and generic facts on words, lists and maps.
\<close>

unbundle bit_operations_syntax

type_synonym uint8 = "8 word"
type_synonym uint16 = "16 word"
type_synonym uint32 = "32 word"
type_synonym uint64 = "64 word"
type_synonym uintptr = "64 word"

named_theorems c_arith \<open>reading C unsigned arithmetic back into nat and int\<close>

section \<open>Words\<close>

lemma unat_lt2p: "unat (w :: 'a::len word) < 2 ^ LENGTH('a)"
  by (rule unsigned_less)

lemma unat_plus_no_wrap [c_arith]:
  "unat (a :: 'a::len word) + unat b < 2 ^ LENGTH('a) \<Longrightarrow> unat (a + b) = unat a + unat b"
  by (simp add: unat_word_ariths)

lemma unat_mult_no_wrap [c_arith]:
  "unat (a :: 'a::len word) * unat b < 2 ^ LENGTH('a) \<Longrightarrow> unat (a * b) = unat a * unat b"
  by (simp add: unat_word_ariths)

lemma unat_minus_no_wrap [c_arith]:
  "(b :: 'a::len word) \<le> a \<Longrightarrow> unat (a - b) = unat a - unat b"
  by (simp add: unat_sub)

lemma unat_word_of_int_nonneg [c_arith]:
  "0 \<le> i \<Longrightarrow> i < 2 ^ LENGTH('a) \<Longrightarrow> unat (word_of_int i :: 'a::len word) = nat i"
  by (simp add: unsigned_of_int take_bit_int_eq_self)

lemma unat_of_nat_small [c_arith]:
  "n < 2 ^ LENGTH('a) \<Longrightarrow> unat (of_nat n :: 'a::len word) = n"
  by (simp add: unsigned_of_nat take_bit_nat_eq_self)

lemma of_nat_div_word:
  assumes "a < 2 ^ LENGTH('a)" and "b < 2 ^ LENGTH('a)"
  shows "(of_nat a :: 'a::len word) div of_nat b = of_nat (a div b)"
  using assms
  by (intro word_unat_eq_iff [THEN iffD2])
     (simp add: unat_div_distrib unat_of_nat_small le_less_trans [OF div_le_dividend])

lemma of_nat_mod_word:
  assumes "a < 2 ^ LENGTH('a)" and "b < 2 ^ LENGTH('a)"
  shows "(of_nat a :: 'a::len word) mod of_nat b = of_nat (a mod b)"
  using assms
  by (intro word_unat_eq_iff [THEN iffD2])
     (simp add: unat_mod_distrib unat_of_nat_small le_less_trans [OF mod_less_eq_dividend])

lemma and_mask_mod: "(w :: 'a::len word) AND mask n = w mod 2 ^ n"
  by (simp add: take_bit_eq_mod flip: take_bit_eq_mask)

lemma unat_ucast_up [c_arith]:
  "LENGTH('a) \<le> LENGTH('b) \<Longrightarrow> unat (ucast (w :: 'a::len word) :: 'b::len word) = unat w"
  using less_le_trans [OF unat_lt2p [of w], of "2 ^ LENGTH('b)"]
  by (simp add: unsigned_ucast_eq take_bit_nat_eq_self)

lemma of_nat_unat_id: "of_nat (unat (w :: 'a::len word)) = w"
  by simp

end
