(* ===== verification/Timespec.thy ===== *)
theory Timespec
  imports RTEMS_Prelude
begin

text \<open>
  The Timespec Helpers of the SuperCore (\<^verbatim>\<open>cpukit/score/src/timespec*.c\<close>). A
  \<^verbatim>\<open>struct timespec\<close> holds a signed 64-bit number of seconds and of nanoseconds; it is
  a record of two integers here, since signed overflow is undefined in C and the lemmas
  stay in range. The unsigned 32-bit and 64-bit intermediate values keep their width and
  wrap around.
\<close>

section \<open>Definitions\<close>

definition TOD_NANOSECONDS_PER_SECOND :: int where
  "TOD_NANOSECONDS_PER_SECOND = 1000000000"

definition TOD_MICROSECONDS_PER_SECOND :: uint32 where
  "TOD_MICROSECONDS_PER_SECOND = 1000000"

record timespec =
  tv_sec :: int
  tv_nsec :: int



definition Timespec_Set :: "timespec \<Rightarrow> int \<Rightarrow> int \<Rightarrow> timespec" where
  "Timespec_Set time seconds nanoseconds = time\<lparr>tv_sec := seconds, tv_nsec := nanoseconds\<rparr>"

definition Timespec_Set_to_zero :: "timespec \<Rightarrow> timespec" where
  "Timespec_Set_to_zero time = time\<lparr>tv_sec := 0, tv_nsec := 0\<rparr>"

text \<open>A null pointer is \<open>None\<close>.\<close>

definition Timespec_Is_valid :: "timespec option \<Rightarrow> bool" where
  "Timespec_Is_valid tp = (case tp of None \<Rightarrow> False | Some time \<Rightarrow>
     if tv_sec time < 0 then False
     else if tv_nsec time < 0 then False
     else if tv_nsec time \<ge> TOD_NANOSECONDS_PER_SECOND then False
     else True)"

definition Timespec_Less_than :: "timespec \<Rightarrow> timespec \<Rightarrow> bool" where
  "Timespec_Less_than lhs rhs =
     (if tv_sec lhs < tv_sec rhs then True
      else if tv_sec lhs > tv_sec rhs then False
      else if tv_nsec lhs < tv_nsec rhs then True
      else False)"

definition Timespec_Equal_to :: "timespec \<Rightarrow> timespec \<Rightarrow> bool" where
  "Timespec_Equal_to lhs rhs \<longleftrightarrow> tv_sec lhs = tv_sec rhs \<and> tv_nsec lhs = tv_nsec rhs"

text \<open>The normalising loop of \<^verbatim>\<open>_Timespec_Add_to\<close>, on the time and the returned count.\<close>

function Timespec_Add_to_loop :: "timespec \<Rightarrow> uint32 \<Rightarrow> timespec \<times> uint32" where
  "Timespec_Add_to_loop time seconds =
     (if tv_nsec time \<ge> TOD_NANOSECONDS_PER_SECOND
      then Timespec_Add_to_loop
             (time\<lparr>tv_nsec := tv_nsec time - TOD_NANOSECONDS_PER_SECOND,
                   tv_sec := tv_sec time + 1\<rparr>) (seconds + 1)
      else (time, seconds))"
  by pat_completeness auto
termination
  by (relation "measure (\<lambda>(time, seconds). nat (tv_nsec time))")
     (auto simp: TOD_NANOSECONDS_PER_SECOND_def)

declare Timespec_Add_to_loop.simps [simp del]

definition Timespec_Add_to :: "timespec \<Rightarrow> timespec \<Rightarrow> timespec \<times> uint32" where
  "Timespec_Add_to time add =
     Timespec_Add_to_loop
       (time\<lparr>tv_sec := tv_sec time + tv_sec add, tv_nsec := tv_nsec time + tv_nsec add\<rparr>)
       (word_of_int (tv_sec add))"

definition Timespec_Subtract :: "timespec \<Rightarrow> timespec \<Rightarrow> timespec \<Rightarrow> timespec" where
  "Timespec_Subtract start endt result =
     (if tv_nsec endt < tv_nsec start
      then result\<lparr>tv_sec := tv_sec endt - tv_sec start - 1,
                  tv_nsec := (TOD_NANOSECONDS_PER_SECOND - tv_nsec start) + tv_nsec endt\<rparr>
      else result\<lparr>tv_sec := tv_sec endt - tv_sec start,
                  tv_nsec := tv_nsec endt - tv_nsec start\<rparr>)"

definition Timespec_Get_as_nanoseconds :: "timespec \<Rightarrow> uint64" where
  "Timespec_Get_as_nanoseconds time =
     word_of_int (tv_sec time) * 1000000000 + word_of_int (tv_nsec time)"

text \<open>The result is the pair \<^verbatim>\<open>*ival_percentage\<close>, \<^verbatim>\<open>*fval_percentage\<close>.\<close>

definition Timespec_Divide :: "timespec \<Rightarrow> timespec \<Rightarrow> uint32 \<times> uint32" where
  "Timespec_Divide lhs rhs =
     (let left = (word_of_int (tv_sec lhs) :: uint64) * word_of_int TOD_NANOSECONDS_PER_SECOND
                   + word_of_int (tv_nsec lhs);
          right = (word_of_int (tv_sec rhs) :: uint64) * word_of_int TOD_NANOSECONDS_PER_SECOND
                   + word_of_int (tv_nsec rhs)
      in if right = 0 then (0, 0)
         else let answer = (left * 100000) div right
              in (ucast (answer div 1000), ucast (answer mod 1000)))"

definition Timespec_Divide_by_integer :: "timespec \<Rightarrow> uint32 \<Rightarrow> timespec \<Rightarrow> timespec" where
  "Timespec_Divide_by_integer time iterations result =
     (let t0 = (word_of_int (tv_sec time) :: uint64);
          t1 = t0 * word_of_int TOD_NANOSECONDS_PER_SECOND;
          t2 = t1 + word_of_int (tv_nsec time);
          t = t2 div ucast iterations
      in result\<lparr>tv_sec := uint (t div word_of_int TOD_NANOSECONDS_PER_SECOND),
                tv_nsec := uint (t mod word_of_int TOD_NANOSECONDS_PER_SECOND)\<rparr>)"

definition Timespec_From_ticks :: "uint32 \<Rightarrow> uint32 \<Rightarrow> timespec \<Rightarrow> timespec" where
  "Timespec_From_ticks us_per_tick ticks time =
     (let usecs = ticks * us_per_tick
      in time\<lparr>tv_sec := uint (usecs div TOD_MICROSECONDS_PER_SECOND),
              tv_nsec := uint ((usecs mod TOD_MICROSECONDS_PER_SECOND) * 1000)\<rparr>)"


section \<open>Meaning of a timespec\<close>

text \<open>The exact number of nanoseconds, the reference the operations are compared with.\<close>

definition ts_ns :: "timespec \<Rightarrow> int" where
  "ts_ns t = tv_sec t * 1000000000 + tv_nsec t"

lemma Timespec_Is_valid_iff:
  "Timespec_Is_valid (Some t) \<longleftrightarrow> 0 \<le> tv_sec t \<and> 0 \<le> tv_nsec t \<and> tv_nsec t < 1000000000"
  by (auto simp: Timespec_Is_valid_def TOD_NANOSECONDS_PER_SECOND_def)

lemma ts_ns_nonneg: "Timespec_Is_valid (Some t) \<Longrightarrow> 0 \<le> ts_ns t"
  by (simp add: Timespec_Is_valid_iff ts_ns_def)

lemma ts_ns_decode:
  "Timespec_Is_valid (Some t) \<Longrightarrow> tv_sec t = ts_ns t div 1000000000 \<and> tv_nsec t = ts_ns t mod 1000000000"
  by (simp add: Timespec_Is_valid_iff ts_ns_def)

lemma timespec_eqI: "tv_sec a = tv_sec b \<Longrightarrow> tv_nsec a = tv_nsec b \<Longrightarrow> a = (b :: timespec)"
  by simp

lemma ts_ns_inject:
  assumes "Timespec_Is_valid (Some a)" and "Timespec_Is_valid (Some b)"
  shows "ts_ns a = ts_ns b \<longleftrightarrow> a = b"
  using ts_ns_decode [OF assms(1)] ts_ns_decode [OF assms(2)] by (metis timespec_eqI)

lemma word_of_int_Suc_32: "word_of_int (i + 1) = word_of_int i + (1 :: uint32)"
  by simp

text \<open>The loop moves the whole seconds out of the nanoseconds, counting them.\<close>

lemma Timespec_Add_to_loop_correct:
  "0 \<le> tv_nsec t \<Longrightarrow>
   Timespec_Add_to_loop t s =
     (t\<lparr>tv_sec := tv_sec t + tv_nsec t div 1000000000, tv_nsec := tv_nsec t mod 1000000000\<rparr>,
      s + word_of_int (tv_nsec t div 1000000000))"
proof (induction t s rule: Timespec_Add_to_loop.induct)
  case (1 t s)
  show ?case
  proof (cases "tv_nsec t \<ge> TOD_NANOSECONDS_PER_SECOND")
    case True
    let ?n = "tv_nsec t - 1000000000"
    have ge: "1000000000 \<le> tv_nsec t" using True by (simp add: TOD_NANOSECONDS_PER_SECOND_def)
    have "tv_nsec t div 1000000000 = 1 + ?n div 1000000000"
      using div_add_self2 [of 1000000000 ?n] by (simp add: add.commute)
    then have w: "(word_of_int (tv_nsec t div 1000000000) :: uint32)
        = 1 + word_of_int (?n div 1000000000)"
      by (metis wi_hom_add word_1_wi)
    have "Timespec_Add_to_loop t s =
       Timespec_Add_to_loop (t\<lparr>tv_nsec := ?n, tv_sec := tv_sec t + 1\<rparr>) (s + 1)"
      using True by (subst Timespec_Add_to_loop.simps) (simp add: TOD_NANOSECONDS_PER_SECOND_def)
    also have "\<dots> = (t\<lparr>tv_nsec := ?n mod 1000000000, tv_sec := tv_sec t + 1 + ?n div 1000000000\<rparr>,
       s + 1 + word_of_int (?n div 1000000000))"
      using "1.IH" [OF True] ge by (simp add: TOD_NANOSECONDS_PER_SECOND_def)
    finally show ?thesis by (simp add: w)
  next
    case False
    with "1.prems" show ?thesis
      by (subst Timespec_Add_to_loop.simps) (simp add: TOD_NANOSECONDS_PER_SECOND_def)
  qed
qed

lemma Timespec_Add_to_eq:
  assumes "0 \<le> tv_nsec t + tv_nsec a"
  shows "Timespec_Add_to t a =
    (let n = tv_nsec t + tv_nsec a in
     (t\<lparr>tv_sec := tv_sec t + tv_sec a + n div 1000000000, tv_nsec := n mod 1000000000\<rparr>,
      word_of_int (tv_sec a + n div 1000000000)))"
  using assms by (simp add: Timespec_Add_to_def Timespec_Add_to_loop_correct Let_def)

section \<open>Properties\<close>

lemma Timespec_Add_to_valid:
  assumes "Timespec_Is_valid (Some t)" and "Timespec_Is_valid (Some a)"
    and "Timespec_Add_to t a = (r, s)"
  shows "Timespec_Is_valid (Some r) \<and> ts_ns r = ts_ns t + ts_ns a
    \<and> s = word_of_int (tv_sec r - tv_sec t)"
proof -
  let ?n = "tv_nsec t + tv_nsec a"
  from assms have v: "0 \<le> ?n" "0 \<le> tv_sec t + tv_sec a" by (auto simp: Timespec_Is_valid_iff)
  have r: "r = t\<lparr>tv_sec := tv_sec t + tv_sec a + ?n div 1000000000, tv_nsec := ?n mod 1000000000\<rparr>"
    and s: "s = word_of_int (tv_sec a + ?n div 1000000000)"
    using assms(3) v by (auto simp: Timespec_Add_to_eq Let_def)
  have "0 \<le> ?n div 1000000000" using v by (simp add: pos_imp_zdiv_nonneg_iff)
  then have "Timespec_Is_valid (Some r)" using v by (simp add: r Timespec_Is_valid_iff)
  moreover have "ts_ns r = ts_ns t + ts_ns a"
    using div_mult_mod_eq [of ?n 1000000000] by (simp add: r ts_ns_def algebra_simps)
  ultimately show ?thesis by (simp add: r s)
qed



lemma Timespec_Less_than_iff:
  assumes "Timespec_Is_valid (Some a)" and "Timespec_Is_valid (Some b)"
  shows "Timespec_Less_than a b \<longleftrightarrow> ts_ns a < ts_ns b"
  using assms by (auto simp: Timespec_Less_than_def Timespec_Is_valid_iff ts_ns_def)

lemma Timespec_Subtract_valid:
  assumes "Timespec_Is_valid (Some a)" and "Timespec_Is_valid (Some b)"
    and "\<not> Timespec_Less_than b a"
  shows "Timespec_Is_valid (Some (Timespec_Subtract a b r))
    \<and> ts_ns (Timespec_Subtract a b r) = ts_ns b - ts_ns a"
  using assms
  by (auto simp: Timespec_Less_than_def Timespec_Is_valid_iff ts_ns_def Timespec_Subtract_def
      TOD_NANOSECONDS_PER_SECOND_def split: if_splits)

text \<open>the difference of two valid times, the later minus the earlier one, is valid, and
  adding it back to the earlier time gives exactly the later one.\<close>

theorem Timespec_Subtract_Add_to:
  assumes "Timespec_Is_valid (Some a)" and "Timespec_Is_valid (Some b)"
    and "\<not> Timespec_Less_than b a"
  shows "Timespec_Is_valid (Some (Timespec_Subtract a b r))
    \<and> fst (Timespec_Add_to a (Timespec_Subtract a b r)) = b"
proof -
  let ?d = "Timespec_Subtract a b r"
  from Timespec_Subtract_valid [OF assms]
  have d: "Timespec_Is_valid (Some ?d)" "ts_ns ?d = ts_ns b - ts_ns a" by auto
  obtain x s where xs: "Timespec_Add_to a ?d = (x, s)" by fastforce
  from Timespec_Add_to_valid [OF assms(1) d(1) xs] d(2)
  have "Timespec_Is_valid (Some x)" "ts_ns x = ts_ns b" by auto
  with ts_ns_inject [OF _ assms(2)] have "x = b" by blast
  with d xs show ?thesis by simp
qed

theorem Timespec_Subtract_Add_to_witness:
  "Timespec_Is_valid (Some (Timespec_Subtract \<lparr>tv_sec = 1, tv_nsec = 5\<rparr> \<lparr>tv_sec = 3, tv_nsec = 2\<rparr>
       \<lparr>tv_sec = 0, tv_nsec = 0\<rparr>))
   \<and> fst (Timespec_Add_to \<lparr>tv_sec = 1, tv_nsec = 5\<rparr>
       (Timespec_Subtract \<lparr>tv_sec = 1, tv_nsec = 5\<rparr> \<lparr>tv_sec = 3, tv_nsec = 2\<rparr>
          \<lparr>tv_sec = 0, tv_nsec = 0\<rparr>)) = \<lparr>tv_sec = 3, tv_nsec = 2\<rparr>"
  by (rule Timespec_Subtract_Add_to)
     (simp_all add: Timespec_Is_valid_iff Timespec_Less_than_def)

section \<open>Ticks and ratios\<close>












text \<open>
  Beyond 2^32 microseconds, a little over 71 minutes, the product in
  \<^verbatim>\<open>_Timespec_From_ticks\<close> wraps: 429497 ticks of 10 ms are 4294.97 s, the result is 2704 us.
\<close>

lemma Timespec_From_ticks_wraps:
  "Timespec_From_ticks 10000 429497 t = t\<lparr>tv_sec := 0, tv_nsec := 2704000\<rparr>"
  by (simp add: Timespec_From_ticks_def TOD_MICROSECONDS_PER_SECOND_def)

lemma Timespec_Get_as_nanoseconds_exact:
  assumes "Timespec_Is_valid (Some t)" and "ts_ns t < 2 ^ 64"
  shows "uint (Timespec_Get_as_nanoseconds t) = ts_ns t"
proof -
  have "Timespec_Get_as_nanoseconds t = word_of_int (ts_ns t)"
    by (simp add: Timespec_Get_as_nanoseconds_def ts_ns_def)
  then show ?thesis using assms ts_ns_nonneg [OF assms(1)]
    by (simp add: unsigned_of_int take_bit_int_eq_self)
qed

lemma Timespec_Divide_eq:
  "Timespec_Divide l r =
     (let left = Timespec_Get_as_nanoseconds l; right = Timespec_Get_as_nanoseconds r
      in if right = 0 then (0, 0)
         else (ucast (left * 100000 div right div 1000), ucast (left * 100000 div right mod 1000)))"
  by (simp add: Timespec_Divide_def Timespec_Get_as_nanoseconds_def TOD_NANOSECONDS_PER_SECOND_def
      Let_def)

text \<open>the ratio of two valid times is their percentage in thousandths, rounded down: the
  integer part and a fraction below 1000. The dividend must stay below 2^64 after the scaling by
  100000, that is below about 51 hours.\<close>

theorem Timespec_Divide_percentage:
  assumes "Timespec_Is_valid (Some l)" and "Timespec_Is_valid (Some r)"
    and "ts_ns l * 100000 < 2 ^ 64" and "0 < ts_ns r" and "ts_ns r < 2 ^ 64"
    and "ts_ns l * 100000 div ts_ns r div 1000 < 2 ^ 32"
    and "Timespec_Divide l r = (ival, fval)"
  shows "uint ival * 1000 + uint fval = ts_ns l * 100000 div ts_ns r \<and> uint fval < 1000"
proof -
  let ?l = "Timespec_Get_as_nanoseconds l" and ?r = "Timespec_Get_as_nanoseconds r"
  have nn: "0 \<le> ts_ns l" by (rule ts_ns_nonneg [OF assms(1)])
  then have l: "uint ?l = ts_ns l" using Timespec_Get_as_nanoseconds_exact assms(1,3) by simp
  have r: "uint ?r = ts_ns r" by (rule Timespec_Get_as_nanoseconds_exact [OF assms(2,5)])
  have "?r \<noteq> 0" using r assms(4) by auto
  have m: "uint (?l * 100000) = ts_ns l * 100000"
    using l nn mod_pos_pos_trivial [OF _ assms(3)] by (simp add: uint_word_ariths)
  let ?a = "ts_ns l * 100000 div ts_ns r"
  have a: "uint (?l * 100000 div ?r) = ?a" using m r by (simp add: uint_div_distrib)
  have "0 \<le> ?a" using nn assms(4) by (simp add: pos_imp_zdiv_nonneg_iff)
  then have i: "uint ival = ?a div 1000"
    using assms(6,7) a \<open>?r \<noteq> 0\<close>
    by (auto simp: Timespec_Divide_eq Let_def unsigned_ucast_eq uint_div_distrib
        take_bit_int_eq_self pos_imp_zdiv_nonneg_iff)
  have f: "uint fval = ?a mod 1000"
    using assms(7) a \<open>?r \<noteq> 0\<close> pos_mod_bound [of 1000 ?a]
    by (auto simp: Timespec_Divide_eq Let_def unsigned_ucast_eq uint_mod_distrib
        take_bit_int_eq_self_iff)
  show ?thesis unfolding i f by simp
qed

theorem Timespec_Divide_percentage_witness:
  "uint (33 :: uint32) * 1000 + uint (333 :: uint32)
     = ts_ns \<lparr>tv_sec = 1, tv_nsec = 0\<rparr> * 100000 div ts_ns \<lparr>tv_sec = 3, tv_nsec = 0\<rparr>
   \<and> uint (333 :: uint32) < 1000"
  by (rule Timespec_Divide_percentage)
     (simp_all add: Timespec_Is_valid_iff ts_ns_def Timespec_Divide_def
       TOD_NANOSECONDS_PER_SECOND_def)

text \<open>
  Above that bound the scaled dividend wraps: two equal times of 52 hours give 1.459 per cent
  in place of 100 per cent.
\<close>

lemma Timespec_Divide_wraps:
  "Timespec_Divide \<lparr>tv_sec = 187200, tv_nsec = 0\<rparr> \<lparr>tv_sec = 187200, tv_nsec = 0\<rparr> = (1, 459)"
  by (simp add: Timespec_Divide_def TOD_NANOSECONDS_PER_SECOND_def)

lemma Timespec_Divide_by_integer_quotient:
  assumes "Timespec_Is_valid (Some t)" and "ts_ns t < 2 ^ 64" and "0 < n"
  shows "Timespec_Is_valid (Some (Timespec_Divide_by_integer t n r))
    \<and> ts_ns (Timespec_Divide_by_integer t n r) = ts_ns t div uint n"
proof -
  let ?q = "Timespec_Get_as_nanoseconds t div ucast n"
  have q: "uint ?q = ts_ns t div uint n"
    using Timespec_Get_as_nanoseconds_exact [OF assms(1,2)]
    by (simp add: uint_div_distrib uint_up_ucast is_up)
  have e: "Timespec_Divide_by_integer t n r
    = r\<lparr>tv_sec := uint ?q div 1000000000, tv_nsec := uint ?q mod 1000000000\<rparr>"
    by (simp add: Timespec_Divide_by_integer_def Timespec_Get_as_nanoseconds_def
        TOD_NANOSECONDS_PER_SECOND_def Let_def uint_div_distrib uint_mod_distrib)
  show ?thesis
    unfolding q [symmetric] using pos_mod_bound [of 1000000000 "uint ?q"]
    by (simp add: e Timespec_Is_valid_iff ts_ns_def pos_imp_zdiv_nonneg_iff)
qed

end
