(* ===== verification/Status.thy ===== *)
theory Status
  imports RTEMS_Prelude
begin

text \<open>
  Status codes: the codes of the Classic API (\<^verbatim>\<open>rtems/status.h\<close>,
  \<^verbatim>\<open>rtems/src/status.c\<close>, \<^verbatim>\<open>statustext.c\<close>) and the combined status of the SuperCore
  (\<^verbatim>\<open>score/status.h\<close>), which packs a Classic code and a POSIX error number into one
  integer. An enumeration is a datatype with its numeric value given by a function.
\<close>

section \<open>Classic API\<close>

datatype rtems_status_code =
    RTEMS_SUCCESSFUL | RTEMS_TASK_EXITTED | RTEMS_MP_NOT_CONFIGURED | RTEMS_INVALID_NAME
  | RTEMS_INVALID_ID | RTEMS_TOO_MANY | RTEMS_TIMEOUT | RTEMS_OBJECT_WAS_DELETED
  | RTEMS_INVALID_SIZE | RTEMS_INVALID_ADDRESS | RTEMS_INVALID_NUMBER | RTEMS_NOT_DEFINED
  | RTEMS_RESOURCE_IN_USE | RTEMS_UNSATISFIED | RTEMS_INCORRECT_STATE | RTEMS_ALREADY_SUSPENDED
  | RTEMS_ILLEGAL_ON_SELF | RTEMS_ILLEGAL_ON_REMOTE_OBJECT | RTEMS_CALLED_FROM_ISR
  | RTEMS_INVALID_PRIORITY | RTEMS_INVALID_CLOCK | RTEMS_INVALID_NODE | RTEMS_NOT_CONFIGURED
  | RTEMS_NOT_OWNER_OF_RESOURCE | RTEMS_NOT_IMPLEMENTED | RTEMS_INTERNAL_ERROR | RTEMS_NO_MEMORY
  | RTEMS_IO_ERROR | RTEMS_PROXY_BLOCKING

primrec status_value :: "rtems_status_code \<Rightarrow> nat" where
  "status_value RTEMS_SUCCESSFUL = 0"
| "status_value RTEMS_TASK_EXITTED = 1"
| "status_value RTEMS_MP_NOT_CONFIGURED = 2"
| "status_value RTEMS_INVALID_NAME = 3"
| "status_value RTEMS_INVALID_ID = 4"
| "status_value RTEMS_TOO_MANY = 5"
| "status_value RTEMS_TIMEOUT = 6"
| "status_value RTEMS_OBJECT_WAS_DELETED = 7"
| "status_value RTEMS_INVALID_SIZE = 8"
| "status_value RTEMS_INVALID_ADDRESS = 9"
| "status_value RTEMS_INVALID_NUMBER = 10"
| "status_value RTEMS_NOT_DEFINED = 11"
| "status_value RTEMS_RESOURCE_IN_USE = 12"
| "status_value RTEMS_UNSATISFIED = 13"
| "status_value RTEMS_INCORRECT_STATE = 14"
| "status_value RTEMS_ALREADY_SUSPENDED = 15"
| "status_value RTEMS_ILLEGAL_ON_SELF = 16"
| "status_value RTEMS_ILLEGAL_ON_REMOTE_OBJECT = 17"
| "status_value RTEMS_CALLED_FROM_ISR = 18"
| "status_value RTEMS_INVALID_PRIORITY = 19"
| "status_value RTEMS_INVALID_CLOCK = 20"
| "status_value RTEMS_INVALID_NODE = 21"
| "status_value RTEMS_NOT_CONFIGURED = 22"
| "status_value RTEMS_NOT_OWNER_OF_RESOURCE = 23"
| "status_value RTEMS_NOT_IMPLEMENTED = 24"
| "status_value RTEMS_INTERNAL_ERROR = 25"
| "status_value RTEMS_NO_MEMORY = 26"
| "status_value RTEMS_IO_ERROR = 27"
| "status_value RTEMS_PROXY_BLOCKING = 28"

definition rtems_is_status_successful :: "rtems_status_code \<Rightarrow> bool" where
  "rtems_is_status_successful code \<longleftrightarrow> code = RTEMS_SUCCESSFUL"

text \<open>The error numbers the sources name, with their values in the C library of the target.\<close>

datatype errno =
    EPERM | EINTR | EIO | EBADF | EAGAIN | ENOMEM | EBUSY | ENODEV | EINVAL | ERANGE | EDEADLK
  | ENOSYS | ETIMEDOUT | EMSGSIZE | EOVERFLOW

primrec errno_value :: "errno \<Rightarrow> int" where
  "errno_value EPERM = 1"
| "errno_value EINTR = 4"
| "errno_value EIO = 5"
| "errno_value EBADF = 9"
| "errno_value EAGAIN = 11"
| "errno_value ENOMEM = 12"
| "errno_value EBUSY = 16"
| "errno_value ENODEV = 19"
| "errno_value EINVAL = 22"
| "errno_value ERANGE = 34"
| "errno_value EDEADLK = 45"
| "errno_value ENOSYS = 88"
| "errno_value ETIMEDOUT = 116"
| "errno_value EMSGSIZE = 122"
| "errno_value EOVERFLOW = 139"

text \<open>The table indexed by the status code; entry 0 stands for "no error".\<close>

definition status_code_to_errno :: "int list" where
  "status_code_to_errno =
     [0, errno_value EIO, errno_value EIO, errno_value EINVAL, errno_value EIO, errno_value EIO,
      errno_value ETIMEDOUT, errno_value EIO, errno_value EIO, errno_value EIO, errno_value EBADF,
      errno_value EIO, errno_value EBUSY, errno_value ENODEV, errno_value EIO, errno_value EIO,
      errno_value EIO, errno_value EIO, errno_value EIO, errno_value EIO, errno_value EINVAL,
      errno_value EINVAL, errno_value ENOSYS, errno_value EPERM, errno_value ENOSYS,
      errno_value EIO, errno_value ENOMEM, errno_value EIO, errno_value EIO]"

text \<open>
  The argument is the numeric code, since C accepts any integer; the result is the return
  value and the new value of \<^verbatim>\<open>errno\<close>.
\<close>

definition rtems_status_code_to_errno :: "nat \<Rightarrow> int \<Rightarrow> int \<times> int" where
  "rtems_status_code_to_errno sc errno0 =
     (if sc = status_value RTEMS_SUCCESSFUL then (0, errno0)
      else let eno = (if sc \<le> status_value RTEMS_PROXY_BLOCKING then status_code_to_errno ! sc
                      else errno_value EINVAL)
           in (-1, eno))"

definition status_code_text :: "string list" where
  "status_code_text =
     [''RTEMS_SUCCESSFUL'', ''RTEMS_TASK_EXITTED'', ''RTEMS_MP_NOT_CONFIGURED'',
      ''RTEMS_INVALID_NAME'', ''RTEMS_INVALID_ID'', ''RTEMS_TOO_MANY'', ''RTEMS_TIMEOUT'',
      ''RTEMS_OBJECT_WAS_DELETED'', ''RTEMS_INVALID_SIZE'', ''RTEMS_INVALID_ADDRESS'',
      ''RTEMS_INVALID_NUMBER'', ''RTEMS_NOT_DEFINED'', ''RTEMS_RESOURCE_IN_USE'',
      ''RTEMS_UNSATISFIED'', ''RTEMS_INCORRECT_STATE'', ''RTEMS_ALREADY_SUSPENDED'',
      ''RTEMS_ILLEGAL_ON_SELF'', ''RTEMS_ILLEGAL_ON_REMOTE_OBJECT'', ''RTEMS_CALLED_FROM_ISR'',
      ''RTEMS_INVALID_PRIORITY'', ''RTEMS_INVALID_CLOCK'', ''RTEMS_INVALID_NODE'',
      ''RTEMS_NOT_CONFIGURED'', ''RTEMS_NOT_OWNER_OF_RESOURCE'', ''RTEMS_NOT_IMPLEMENTED'',
      ''RTEMS_INTERNAL_ERROR'', ''RTEMS_NO_MEMORY'', ''RTEMS_IO_ERROR'', ''RTEMS_PROXY_BLOCKING'']"

definition rtems_status_text :: "nat \<Rightarrow> string" where
  "rtems_status_text code =
     (if code < length status_code_text then status_code_text ! code else ''?'')"

section \<open>SuperCore status\<close>

datatype Status_Classic =
    STATUS_CLASSIC_INCORRECT_STATE | STATUS_CLASSIC_INTERNAL_ERROR | STATUS_CLASSIC_INVALID_NUMBER
  | STATUS_CLASSIC_INVALID_PRIORITY | STATUS_CLASSIC_INVALID_SIZE | STATUS_CLASSIC_NO_MEMORY
  | STATUS_CLASSIC_NOT_DEFINED | STATUS_CLASSIC_NOT_OWNER_OF_RESOURCE
  | STATUS_CLASSIC_OBJECT_WAS_DELETED | STATUS_CLASSIC_RESOURCE_IN_USE | STATUS_CLASSIC_SUCCESSFUL
  | STATUS_CLASSIC_TIMEOUT | STATUS_CLASSIC_TOO_MANY | STATUS_CLASSIC_UNSATISFIED

primrec status_classic_value :: "Status_Classic \<Rightarrow> nat" where
  "status_classic_value STATUS_CLASSIC_INCORRECT_STATE = 14"
| "status_classic_value STATUS_CLASSIC_INTERNAL_ERROR = 13"
| "status_classic_value STATUS_CLASSIC_INVALID_NUMBER = 10"
| "status_classic_value STATUS_CLASSIC_INVALID_PRIORITY = 19"
| "status_classic_value STATUS_CLASSIC_INVALID_SIZE = 8"
| "status_classic_value STATUS_CLASSIC_NO_MEMORY = 26"
| "status_classic_value STATUS_CLASSIC_NOT_DEFINED = 11"
| "status_classic_value STATUS_CLASSIC_NOT_OWNER_OF_RESOURCE = 23"
| "status_classic_value STATUS_CLASSIC_OBJECT_WAS_DELETED = 7"
| "status_classic_value STATUS_CLASSIC_RESOURCE_IN_USE = 12"
| "status_classic_value STATUS_CLASSIC_SUCCESSFUL = 0"
| "status_classic_value STATUS_CLASSIC_TIMEOUT = 6"
| "status_classic_value STATUS_CLASSIC_TOO_MANY = 5"
| "status_classic_value STATUS_CLASSIC_UNSATISFIED = 13"

definition STATUS_BUILD :: "uint32 \<Rightarrow> uint32 \<Rightarrow> uint32" where
  "STATUS_BUILD classic_status posix_status = push_bit 8 posix_status OR classic_status"

definition STATUS_GET_CLASSIC :: "uint32 \<Rightarrow> uint32" where
  "STATUS_GET_CLASSIC status = status AND 255"

definition STATUS_GET_POSIX :: "uint32 \<Rightarrow> int" where
  "STATUS_GET_POSIX status = sint (signed_drop_bit 8 (status OR 255))"

datatype Status_Control =
    STATUS_BARRIER_AUTOMATICALLY_RELEASED | STATUS_DEADLOCK | STATUS_FLUSHED
  | STATUS_INCORRECT_STATE | STATUS_INTERRUPTED | STATUS_INVALID_NUMBER | STATUS_INVALID_PRIORITY
  | STATUS_MAXIMUM_COUNT_EXCEEDED | STATUS_MESSAGE_INVALID_SIZE | STATUS_MESSAGE_QUEUE_WAIT_IN_ISR
  | STATUS_MESSAGE_QUEUE_WAS_DELETED | STATUS_MINUS_ONE | STATUS_MUTEX_CEILING_VIOLATED
  | STATUS_NESTING_NOT_ALLOWED | STATUS_NO_MEMORY | STATUS_NOT_DEFINED | STATUS_NOT_OWNER
  | STATUS_OBJECT_WAS_DELETED | STATUS_RESOURCE_IN_USE | STATUS_RESULT_TOO_LARGE
  | STATUS_SUCCESSFUL | STATUS_TIMEOUT | STATUS_TOO_MANY | STATUS_UNAVAILABLE | STATUS_UNSATISFIED

text \<open>
  The parts each code is built from; \<^verbatim>\<open>PTHREAD_BARRIER_SERIAL_THREAD\<close> is -1.
  \<^verbatim>\<open>STATUS_MINUS_ONE\<close> is not built from parts.
\<close>

primrec status_parts :: "Status_Control \<Rightarrow> (Status_Classic \<times> int) option" where
  "status_parts STATUS_BARRIER_AUTOMATICALLY_RELEASED = Some (STATUS_CLASSIC_SUCCESSFUL, -1)"
| "status_parts STATUS_DEADLOCK = Some (STATUS_CLASSIC_INCORRECT_STATE, errno_value EDEADLK)"
| "status_parts STATUS_FLUSHED = Some (STATUS_CLASSIC_UNSATISFIED, errno_value EAGAIN)"
| "status_parts STATUS_INCORRECT_STATE = Some (STATUS_CLASSIC_INCORRECT_STATE, errno_value EINVAL)"
| "status_parts STATUS_INTERRUPTED = Some (STATUS_CLASSIC_INTERNAL_ERROR, errno_value EINTR)"
| "status_parts STATUS_INVALID_NUMBER = Some (STATUS_CLASSIC_INVALID_NUMBER, errno_value EINVAL)"
| "status_parts STATUS_INVALID_PRIORITY = Some (STATUS_CLASSIC_INVALID_PRIORITY, errno_value EINVAL)"
| "status_parts STATUS_MAXIMUM_COUNT_EXCEEDED = Some (STATUS_CLASSIC_INTERNAL_ERROR, errno_value EOVERFLOW)"
| "status_parts STATUS_MESSAGE_INVALID_SIZE = Some (STATUS_CLASSIC_INVALID_SIZE, errno_value EMSGSIZE)"
| "status_parts STATUS_MESSAGE_QUEUE_WAIT_IN_ISR = Some (STATUS_CLASSIC_INTERNAL_ERROR, errno_value ENOMEM)"
| "status_parts STATUS_MESSAGE_QUEUE_WAS_DELETED = Some (STATUS_CLASSIC_OBJECT_WAS_DELETED, errno_value EBADF)"
| "status_parts STATUS_MINUS_ONE = None"
| "status_parts STATUS_MUTEX_CEILING_VIOLATED = Some (STATUS_CLASSIC_INVALID_PRIORITY, errno_value EINVAL)"
| "status_parts STATUS_NESTING_NOT_ALLOWED = Some (STATUS_CLASSIC_UNSATISFIED, errno_value EDEADLK)"
| "status_parts STATUS_NO_MEMORY = Some (STATUS_CLASSIC_NO_MEMORY, errno_value EINVAL)"
| "status_parts STATUS_NOT_DEFINED = Some (STATUS_CLASSIC_NOT_DEFINED, errno_value EINVAL)"
| "status_parts STATUS_NOT_OWNER = Some (STATUS_CLASSIC_NOT_OWNER_OF_RESOURCE, errno_value EPERM)"
| "status_parts STATUS_OBJECT_WAS_DELETED = Some (STATUS_CLASSIC_OBJECT_WAS_DELETED, errno_value EINVAL)"
| "status_parts STATUS_RESOURCE_IN_USE = Some (STATUS_CLASSIC_RESOURCE_IN_USE, errno_value EBUSY)"
| "status_parts STATUS_RESULT_TOO_LARGE = Some (STATUS_CLASSIC_UNSATISFIED, errno_value ERANGE)"
| "status_parts STATUS_SUCCESSFUL = Some (STATUS_CLASSIC_SUCCESSFUL, 0)"
| "status_parts STATUS_TIMEOUT = Some (STATUS_CLASSIC_TIMEOUT, errno_value ETIMEDOUT)"
| "status_parts STATUS_TOO_MANY = Some (STATUS_CLASSIC_TOO_MANY, errno_value EAGAIN)"
| "status_parts STATUS_UNAVAILABLE = Some (STATUS_CLASSIC_UNSATISFIED, errno_value EBUSY)"
| "status_parts STATUS_UNSATISFIED = Some (STATUS_CLASSIC_UNSATISFIED, errno_value EAGAIN)"

definition Status_value :: "Status_Control \<Rightarrow> uint32" where
  "Status_value s = (case status_parts s of None \<Rightarrow> -1
     | Some (classic, posix) \<Rightarrow> STATUS_BUILD (of_nat (status_classic_value classic)) (word_of_int posix))"

section \<open>Properties\<close>

lemma status_code_to_errno_nonzero:
  "code \<noteq> RTEMS_SUCCESSFUL \<Longrightarrow> 0 < status_code_to_errno ! status_value code"
  by (cases code) (simp_all add: status_code_to_errno_def)

lemma rtems_status_text_known: "rtems_status_text (status_value code) \<noteq> ''?''"
  by (cases code) (simp_all add: rtems_status_text_def status_code_text_def)

text \<open>The low byte of a status is the Classic part, the rest the sign-extended POSIX part.\<close>

lemma mask_8_32: "(255 :: uint32) = mask 8"
  by (simp add: mask_eq_exp_minus_1)

lemma bit_above_byte:
  assumes "(c :: uint32) < 256" and "8 \<le> n"
  shows "\<not> bit c n"
proof -
  have "c < 2 ^ 8" using assms(1) by simp
  then have "take_bit 8 c = c" by (metis take_bit_word_eq_self less_mask_eq take_bit_eq_mask)
  then have "bit c n = bit (take_bit 8 c) n" by simp
  then show ?thesis using assms(2) by (simp add: bit_take_bit_iff)
qed

lemma STATUS_GET_CLASSIC_BUILD:
  assumes "c < 256"
  shows "STATUS_GET_CLASSIC (STATUS_BUILD c p) = c"
  by (rule bit_word_eqI)
     (use bit_above_byte [OF assms] in
       \<open>auto simp: STATUS_GET_CLASSIC_def STATUS_BUILD_def mask_8_32 bit_simps not_le [symmetric]\<close>)

lemma STATUS_GET_POSIX_BUILD:
  assumes "c < 256" and "- (2 ^ 23) \<le> p" and "p < 2 ^ 23"
  shows "STATUS_GET_POSIX (STATUS_BUILD c (word_of_int p)) = p"
proof -
  have sx: "bit p n = bit p (min 23 n)" for n
    using signed_take_bit_int_eq_self [OF assms(2,3)] bit_signed_take_bit_iff [of 23 p n] by simp
  have w: "signed_drop_bit 8 (STATUS_BUILD c (word_of_int p) OR 255) = (word_of_int p :: uint32)"
  proof (rule bit_word_eqI)
    fix n assume "n < LENGTH(32)"
    moreover have "bit p n = bit p 23" if "24 \<le> n" using sx [of n] that by simp
    ultimately show "bit (signed_drop_bit 8 (STATUS_BUILD c (word_of_int p) OR 255)) n
        = bit (word_of_int p :: uint32) n"
      using bit_above_byte [OF assms(1)]
      by (auto simp: STATUS_BUILD_def mask_8_32 bit_simps)
  qed
  have "signed_take_bit 31 p = p" using assms(2,3) by (intro signed_take_bit_int_eq_self) simp_all
  then show ?thesis by (simp add: STATUS_GET_POSIX_def w sint_sbintrunc')
qed

text \<open>every combined status gives back the Classic code and the POSIX error number it was
  built from; the POSIX part may be negative, as for the serial thread of a barrier.\<close>

theorem Status_parts_roundtrip:
  assumes "status_parts s = Some (classic, posix)"
  shows "STATUS_GET_CLASSIC (Status_value s) = of_nat (status_classic_value classic)
    \<and> STATUS_GET_POSIX (Status_value s) = posix"
proof -
  have "of_nat (status_classic_value classic) < (256 :: uint32)" by (cases classic) simp_all
  moreover have "- (2 ^ 23) \<le> posix \<and> posix < 2 ^ 23" using assms by (cases s) auto
  ultimately show ?thesis
    using assms by (simp add: Status_value_def STATUS_GET_CLASSIC_BUILD STATUS_GET_POSIX_BUILD)
qed

theorem Status_parts_roundtrip_witness:
  "STATUS_GET_CLASSIC (Status_value STATUS_BARRIER_AUTOMATICALLY_RELEASED)
      = of_nat (status_classic_value STATUS_CLASSIC_SUCCESSFUL)
   \<and> STATUS_GET_POSIX (Status_value STATUS_BARRIER_AUTOMATICALLY_RELEASED) = -1"
  by (rule Status_parts_roundtrip) simp

text \<open>
  The Classic parts are meant to be the values of the Classic API codes, and are, but for
  \<^verbatim>\<open>STATUS_CLASSIC_INTERNAL_ERROR\<close>: its value 13 is that of \<^verbatim>\<open>RTEMS_UNSATISFIED\<close>, while
  \<^verbatim>\<open>RTEMS_INTERNAL_ERROR\<close> is 25.
\<close>

primrec classic_code_of :: "Status_Classic \<Rightarrow> rtems_status_code" where
  "classic_code_of STATUS_CLASSIC_INCORRECT_STATE = RTEMS_INCORRECT_STATE"
| "classic_code_of STATUS_CLASSIC_INTERNAL_ERROR = RTEMS_INTERNAL_ERROR"
| "classic_code_of STATUS_CLASSIC_INVALID_NUMBER = RTEMS_INVALID_NUMBER"
| "classic_code_of STATUS_CLASSIC_INVALID_PRIORITY = RTEMS_INVALID_PRIORITY"
| "classic_code_of STATUS_CLASSIC_INVALID_SIZE = RTEMS_INVALID_SIZE"
| "classic_code_of STATUS_CLASSIC_NO_MEMORY = RTEMS_NO_MEMORY"
| "classic_code_of STATUS_CLASSIC_NOT_DEFINED = RTEMS_NOT_DEFINED"
| "classic_code_of STATUS_CLASSIC_NOT_OWNER_OF_RESOURCE = RTEMS_NOT_OWNER_OF_RESOURCE"
| "classic_code_of STATUS_CLASSIC_OBJECT_WAS_DELETED = RTEMS_OBJECT_WAS_DELETED"
| "classic_code_of STATUS_CLASSIC_RESOURCE_IN_USE = RTEMS_RESOURCE_IN_USE"
| "classic_code_of STATUS_CLASSIC_SUCCESSFUL = RTEMS_SUCCESSFUL"
| "classic_code_of STATUS_CLASSIC_TIMEOUT = RTEMS_TIMEOUT"
| "classic_code_of STATUS_CLASSIC_TOO_MANY = RTEMS_TOO_MANY"
| "classic_code_of STATUS_CLASSIC_UNSATISFIED = RTEMS_UNSATISFIED"

lemma status_classic_synchronized:
  "status_classic_value c = status_value (classic_code_of c) \<longleftrightarrow> c \<noteq> STATUS_CLASSIC_INTERNAL_ERROR"
  by (cases c) simp_all

end
