(* ===== verification/TimeOfDay.thy ===== *)
theory TimeOfDay
  imports Timespec Status
begin

text \<open>
  The calendar arithmetic of the Clock Manager: validation of a calendar time
  (\<^verbatim>\<open>clocktodvalidate.c\<close>), its conversion to seconds since 1970
  (\<^verbatim>\<open>clocktodtoseconds.c\<close>), and the inverse in \<^verbatim>\<open>rtems_clock_get_tod\<close>
  (\<^verbatim>\<open>clockgettod.c\<close>). All values are the unsigned 32-bit integers of the sources. The
  reference is the Gregorian calendar, given by summing the lengths of years and months.
\<close>

section \<open>Definitions\<close>

record rtems_time_of_day =
  year :: uint32
  month :: uint32
  day :: uint32
  hour :: uint32
  minute :: uint32
  second :: uint32
  ticks :: uint32

definition TOD_Days_per_month :: "uint32 list list" where
  "TOD_Days_per_month =
     [[0, 31, 28, 31, 30, 31, 30, 31, 31, 30, 31, 30, 31],
      [0, 31, 29, 31, 30, 31, 30, 31, 31, 30, 31, 30, 31]]"

definition TOD_Days_to_date :: "uint32 list list" where
  "TOD_Days_to_date =
     [[0, 0, 31, 59, 90, 120, 151, 181, 212, 243, 273, 304, 334],
      [0, 0, 31, 60, 91, 121, 152, 182, 213, 244, 274, 305, 335]]"

definition TOD_Days_since_last_leap_year :: "uint32 list" where
  "TOD_Days_since_last_leap_year = [0, 366, 731, 1096]"

definition TOD_SECONDS_PER_DAY :: uint32 where
  "TOD_SECONDS_PER_DAY = 60 * 60 * 24"

definition TOD_SECONDS_1970_THROUGH_1988 :: uint32 where
  "TOD_SECONDS_1970_THROUGH_1988 =
     (1987 - 1970 + 1) * (365 * TOD_SECONDS_PER_DAY) + 4 * TOD_SECONDS_PER_DAY"

definition TOD_BASE_YEAR :: uint32 where
  "TOD_BASE_YEAR = 1988"

definition TOD_SECONDS_AT_2100_03_01_00_00 :: uint32 where
  "TOD_SECONDS_AT_2100_03_01_00_00 = 4107538800"

definition TOD_Validate :: "uint32 \<Rightarrow> rtems_time_of_day option \<Rightarrow> bool" where
  "TOD_Validate us_per_tick the_tod =
     (let ticks_per_second = TOD_MICROSECONDS_PER_SECOND div us_per_tick
      in case the_tod of
        None \<Rightarrow> False
      | Some tod \<Rightarrow>
          if ticks tod \<ge> ticks_per_second \<or> second tod \<ge> 60 \<or> minute tod \<ge> 60 \<or> hour tod \<ge> 24
             \<or> month tod = 0 \<or> month tod > 12 \<or> year tod < TOD_BASE_YEAR \<or> day tod = 0
          then False
          else let days_in_month =
                 (if (year tod mod 4 = 0 \<and> year tod mod 100 \<noteq> 0) \<or> year tod mod 400 = 0
                  then TOD_Days_per_month ! 1 ! unat (month tod)
                  else TOD_Days_per_month ! 0 ! unat (month tod))
               in if day tod > days_in_month then False else True)"

text \<open>The month is an index into the tables: the callers validate the time before.\<close>

definition TOD_To_seconds :: "rtems_time_of_day \<Rightarrow> uint32" where
  "TOD_To_seconds the_tod =
     (let time0 = day the_tod - 1;
          year_mod_4 = year the_tod AND 3;
          time1 = time0 + (if year_mod_4 = 0 then TOD_Days_to_date ! 1 ! unat (month the_tod)
                           else TOD_Days_to_date ! 0 ! unat (month the_tod));
          time2 = time1 + ((year the_tod - TOD_BASE_YEAR) div 4) * (365 * 4 + 1);
          time3 = time2 + TOD_Days_since_last_leap_year ! unat year_mod_4;
          time4 = time3 * TOD_SECONDS_PER_DAY;
          time5 = time4 + (hour the_tod * 60 + minute the_tod) * 60;
          time6 = time5 + second the_tod;
          time7 = (if time6 \<ge> TOD_SECONDS_AT_2100_03_01_00_00 - TOD_SECONDS_1970_THROUGH_1988
                   then time6 - TOD_SECONDS_PER_DAY else time6)
      in time7 + TOD_SECONDS_1970_THROUGH_1988)"

definition Leap_year :: "uint32 \<Rightarrow> bool" where
  "Leap_year y \<longleftrightarrow> (y mod 4 = 0 \<and> y mod 100 \<noteq> 0) \<or> y mod 400 = 0"

definition Leap_years_before :: "uint32 \<Rightarrow> uint32" where
  "Leap_years_before y = (let y = y - 1 in y div 4 - y div 100 + y div 400)"

definition Leap_years_between :: "uint32 \<Rightarrow> uint32 \<Rightarrow> uint32" where
  "Leap_years_between y0 y1 = Leap_years_before y1 - Leap_years_before (y0 + 1)"

text \<open>
  The loop of \<^verbatim>\<open>_Year_day_as_month\<close>: the pointer into the table is its index, \<open>month + 2\<close>
  at every iteration; the loop stops after at most 11 steps.
\<close>

function Year_day_as_month_loop :: "uint32 list \<Rightarrow> uint32 \<Rightarrow> nat \<Rightarrow> nat" where
  "Year_day_as_month_loop days_to_date d m =
     (if m < 11 then
        if d < days_to_date ! (m + 2) then m
        else Year_day_as_month_loop days_to_date d (m + 1)
      else m)"
  by pat_completeness auto
termination
  by (relation "measure (\<lambda>(t, d, m). 11 - m)") auto

declare Year_day_as_month_loop.simps [simp del]

text \<open>The result is the month, from 0, and the day in the month, from 0.\<close>

definition Year_day_as_month :: "uint32 \<Rightarrow> uint32 \<Rightarrow> uint32 \<times> uint32" where
  "Year_day_as_month y d =
     (let days_to_date = (if Leap_year y then TOD_Days_to_date ! 1 else TOD_Days_to_date ! 0);
          m = Year_day_as_month_loop days_to_date d 0
      in (of_nat m, d - days_to_date ! (m + 1)))"

text \<open>
  \<^verbatim>\<open>rtems_clock_get_tod\<close>, with the state it reads as arguments: whether the buffer pointer
  is not null, whether the time of day was set, and the seconds and microseconds of the
  system time. The 64-bit quotients are cut to the 32-bit variables. The second component
  is what was written to the buffer.
\<close>

definition rtems_clock_get_tod ::
    "uint32 \<Rightarrow> bool \<Rightarrow> bool \<Rightarrow> uint64 \<Rightarrow> uint64 \<Rightarrow> rtems_status_code \<times> rtems_time_of_day option" where
  "rtems_clock_get_tod us_per_tick time_buffer TOD_Is_set now_sec now_usec =
     (if \<not> time_buffer then (RTEMS_INVALID_ADDRESS, None)
      else if \<not> TOD_Is_set then (RTEMS_NOT_DEFINED, None)
      else
        let days = (ucast (now_sec div 86400) :: uint32);
            day_secs = (ucast (now_sec mod 86400) :: uint32);
            year0 = days div 365 + 1970;
            leap_years = Leap_years_between 1970 year0;
            year_days0 = (days - leap_years) mod 365;
            (year1, year_days1) =
              (if leap_years > days mod 365
               then (year0 - 1, if Leap_year (year0 - 1) then year_days0 + 1 else year_days0)
               else (year0, year_days0));
            (month0, day0) = Year_day_as_month year1 year_days1;
            minute0 = day_secs mod 3600
        in (RTEMS_SUCCESSFUL,
            Some \<lparr>year = year1, month = month0 + 1, day = day0 + 1,
                  hour = day_secs div 3600, minute = minute0 div 60, second = minute0 mod 60,
                  ticks = ucast (now_usec div ucast us_per_tick)\<rparr>))"


section \<open>The Gregorian calendar\<close>

definition is_leap :: "nat \<Rightarrow> bool" where
  "is_leap y \<longleftrightarrow> (4 dvd y \<and> \<not> 100 dvd y) \<or> 400 dvd y"

definition year_length :: "nat \<Rightarrow> nat" where
  "year_length y = (if is_leap y then 366 else 365)"

fun month_length :: "nat \<Rightarrow> nat \<Rightarrow> nat" where
  "month_length y m =
     (if m = 2 then if is_leap y then 29 else 28 else if m \<in> {4, 6, 9, 11} then 30 else 31)"

definition days_before_year :: "nat \<Rightarrow> nat" where
  "days_before_year y = (\<Sum>k = 1970..<y. year_length k)"

definition days_before_month :: "nat \<Rightarrow> nat \<Rightarrow> nat" where
  "days_before_month y m = sum_list (map (month_length y) [1..<m])"

definition calendar_days :: "rtems_time_of_day \<Rightarrow> nat" where
  "calendar_days t = days_before_year (unat (year t))
     + days_before_month (unat (year t)) (unat (month t)) + (unat (day t) - 1)"

definition day_seconds :: "rtems_time_of_day \<Rightarrow> nat" where
  "day_seconds t = unat (hour t) * 3600 + unat (minute t) * 60 + unat (second t)"

text \<open>The exact number of seconds since the beginning of 1970.\<close>

definition epoch_seconds :: "rtems_time_of_day \<Rightarrow> nat" where
  "epoch_seconds t = calendar_days t * 86400 + day_seconds t"

section \<open>Calendar lemmas\<close>

definition leaps :: "nat \<Rightarrow> nat" where
  "leaps y = (y - 1) div 4 - (y - 1) div 100 + (y - 1) div 400"

lemma leaps_Suc_Suc: "leaps (Suc (Suc x)) = leaps (Suc x) + (if is_leap (Suc x) then 1 else 0)"
proof -
  have le: "n div 100 \<le> n div 4" for n :: nat by (rule div_le_mono2) simp_all
  have a: "100 dvd Suc x \<Longrightarrow> 4 dvd Suc x" by (erule dvd_trans [rotated]) simp
  have b: "400 dvd Suc x \<Longrightarrow> 100 dvd Suc x" by (erule dvd_trans [rotated]) simp
  have d4: "Suc x div 4 = x div 4 + (if 4 dvd Suc x then 1 else 0)" by (simp add: div_Suc dvd_eq_mod_eq_0)
  have d100: "Suc x div 100 = x div 100 + (if 100 dvd Suc x then 1 else 0)" by (simp add: div_Suc dvd_eq_mod_eq_0)
  have d400: "Suc x div 400 = x div 400 + (if 400 dvd Suc x then 1 else 0)" by (simp add: div_Suc dvd_eq_mod_eq_0)
  show ?thesis
    unfolding leaps_def is_leap_def diff_Suc_1 d4 d100 d400
    using le [of x] a b by (simp split: if_splits) 
qed

lemma leaps_Suc: "0 < y \<Longrightarrow> leaps (Suc y) = leaps y + (if is_leap y then 1 else 0)"
  using leaps_Suc_Suc [of "y - 1"] by simp

lemma days_before_year_closed:
  "1970 \<le> y \<Longrightarrow> days_before_year y + 365 * 1970 + 477 = 365 * y + leaps y"
proof (induction y rule: nat_induct_at_least)
  case base
  show ?case by (simp add: days_before_year_def leaps_def)
next
  case (Suc y)
  then have "days_before_year (Suc y) = days_before_year y + year_length y"
    by (simp add: days_before_year_def)
  moreover have "leaps (Suc y) = leaps y + (if is_leap y then 1 else 0)"
    using Suc.hyps by (intro leaps_Suc) simp
  ultimately show ?case using Suc.IH by (simp add: year_length_def)
qed

lemma month_cases:
  assumes "0 < (m :: nat)" and "m \<le> 12"
  obtains "m = 1" | "m = 2" | "m = 3" | "m = 4" | "m = 5" | "m = 6" | "m = 7" | "m = 8"
    | "m = 9" | "m = 10" | "m = 11" | "m = 12"
proof -
  have "m = 1 \<or> m = 2 \<or> m = 3 \<or> m = 4 \<or> m = 5 \<or> m = 6 \<or> m = 7 \<or> m = 8 \<or> m = 9
    \<or> m = 10 \<or> m = 11 \<or> m = 12"
    using assms by arith
  then show thesis using that by blast
qed

lemma upt_from_1: "Suc 0 < numeral n \<Longrightarrow> [Suc 0..<numeral n] = Suc 0 # [2..<numeral n]"
  by (simp add: upt_conv_Cons numeral_2_eq_2)

lemma days_before_month_table:
  assumes "0 < m" and "m \<le> 12"
  shows "days_before_month y m = unat (TOD_Days_to_date ! (if is_leap y then 1 else 0) ! m)"
  using assms
  by (cases rule: month_cases)
     (simp_all add: days_before_month_def TOD_Days_to_date_def upt_from_1)

lemma word_mod_eq_0_iff: "(a :: uint32) mod b = 0 \<longleftrightarrow> unat b dvd unat a"
  by (simp add: dvd_eq_mod_eq_0 unat_mod_distrib flip: unat_eq_0)

lemma Leap_year_iff: "Leap_year y \<longleftrightarrow> is_leap (unat y)"
  by (simp add: Leap_year_def is_leap_def word_mod_eq_0_iff)

lemma month_length_table:
  assumes "0 < m" and "m \<le> 12"
  shows "month_length y m = unat (TOD_Days_per_month ! (if is_leap y then 1 else 0) ! m)"
  using assms by (cases rule: month_cases) (simp_all add: TOD_Days_per_month_def)

declare month_length.simps [simp del]

lemma TOD_Validate_iff:
  "TOD_Validate us (Some t) \<longleftrightarrow>
     ticks t < 1000000 div us \<and> unat (second t) < 60 \<and> unat (minute t) < 60 \<and> unat (hour t) < 24
     \<and> 0 < unat (month t) \<and> unat (month t) \<le> 12 \<and> 1988 \<le> unat (year t)
     \<and> 0 < unat (day t) \<and> unat (day t) \<le> month_length (unat (year t)) (unat (month t))"
proof -
  let ?leap = "(year t mod 4 = 0 \<and> year t mod 100 \<noteq> 0) \<or> year t mod 400 = 0"
  have leap: "?leap = is_leap (unat (year t))"
    using Leap_year_iff [of "year t"] by (simp add: Leap_year_def)
  have tab: "(day t > (if ?leap then TOD_Days_per_month ! 1 ! unat (month t)
        else TOD_Days_per_month ! 0 ! unat (month t)))
      = (unat (day t) > month_length (unat (year t)) (unat (month t)))"
    if "0 < unat (month t)" "unat (month t) \<le> 12"
    using month_length_table [OF that, of "unat (year t)"] leap by (simp add: word_less_nat_alt)
  have m: "month t = 0 \<longleftrightarrow> \<not> 0 < unat (month t)" "month t > 12 \<longleftrightarrow> \<not> unat (month t) \<le> 12"
    "day t = 0 \<longleftrightarrow> \<not> 0 < unat (day t)" "year t < 1988 \<longleftrightarrow> \<not> 1988 \<le> unat (year t)"
    by (auto simp: unat_gt_0 word_less_nat_alt)
  have c: "second t \<ge> 60 \<longleftrightarrow> \<not> unat (second t) < 60" "minute t \<ge> 60 \<longleftrightarrow> \<not> unat (minute t) < 60"
    "hour t \<ge> 24 \<longleftrightarrow> \<not> unat (hour t) < 24" "ticks t \<ge> 1000000 div us \<longleftrightarrow> \<not> ticks t < 1000000 div us"
    by (simp_all add: not_less [symmetric] word_less_nat_alt)
  show ?thesis
    unfolding TOD_Validate_def Let_def TOD_MICROSECONDS_PER_SECOND_def TOD_BASE_YEAR_def
      option.case m c
    using tab by auto
qed

lemma month_within_year:
  assumes "0 < m" and "m \<le> 12"
  shows "days_before_month y m + month_length y m \<le> year_length y"
proof (cases "is_leap y")
  case True
  then show ?thesis
    unfolding days_before_month_table [OF assms] month_length_table [OF assms] year_length_def
    by (cases rule: month_cases [OF assms])
       (simp_all add: TOD_Days_to_date_def TOD_Days_per_month_def)
next
  case False
  then show ?thesis
    unfolding days_before_month_table [OF assms] month_length_table [OF assms] year_length_def
    by (cases rule: month_cases [OF assms])
       (simp_all add: TOD_Days_to_date_def TOD_Days_per_month_def)
qed

lemma year_mono: "1970 \<le> y \<Longrightarrow> days_before_year (Suc y) = days_before_year y + year_length y"
  by (simp add: days_before_year_def)

lemma days_before_year_mono: "a \<le> b \<Longrightarrow> days_before_year a \<le> days_before_year b"
  unfolding days_before_year_def by (intro sum_mono2) auto

section \<open>From a calendar time to seconds\<close>

text \<open>
  \<^verbatim>\<open>_TOD_To_seconds\<close> counts 2100 as a leap year: it is one day ahead after February 2100.
\<close>

definition days_ahead :: "nat \<Rightarrow> nat \<Rightarrow> nat" where
  "days_ahead y m = (if 2100 < y \<or> y = 2100 \<and> 2 < m then 1 else 0)"

lemma days_ahead_split:
  "days_ahead y m = (if 2100 < y then 1 else 0) + (if y = 2100 \<and> 2 < m then 1 else 0)"
  by (auto simp: days_ahead_def)

lemma is_leap_range: "1988 \<le> y \<Longrightarrow> y \<le> 2106 \<Longrightarrow> is_leap y \<longleftrightarrow> y mod 4 = 0 \<and> y \<noteq> 2100"
proof -
  assume y: "1988 \<le> y" "y \<le> 2106"
  have "100 dvd y \<longleftrightarrow> y = 2000 \<or> y = 2100"
  proof
    assume "100 dvd y"
    then obtain k where k: "y = 100 * k" by (rule dvdE)
    with y have "k = 20 \<or> k = 21" by auto
    with k show "y = 2000 \<or> y = 2100" by auto
  qed auto
  moreover have "400 dvd y \<longleftrightarrow> y = 2000"
  proof
    assume "400 dvd y"
    then obtain k where k: "y = 400 * k" by (rule dvdE)
    with y have "k = 5" by auto
    with k show "y = 2000" by simp
  qed auto
  ultimately show ?thesis by (auto simp: is_leap_def dvd_eq_mod_eq_0)
qed

lemma four_year_cycles:
  assumes "1988 \<le> y" and "y \<le> 2106"
  shows "(y - 1988) div 4 * 1461 + [0, 366, 731, 1096] ! (y mod 4) + 6574
    = days_before_year y + (if 2100 < y then 1 else 0)"
proof -
  define a b where "a = (y - 1988) div 4" and "b = (y - 1988) mod 4"
  have y: "y = 1988 + 4 * a + b" using assms(1) by (simp add: a_def b_def)
  have b: "b = 0 \<or> b = 1 \<or> b = 2 \<or> b = 3" using mod_less_divisor [of 4 "y - 1988"] by (auto simp: b_def)
  have c: "days_before_year y + 719527 = 365 * y + leaps y"
    using days_before_year_closed [of y] assms(1) by simp
  consider "y \<le> 2000" | "2001 \<le> y" "y \<le> 2100" | "2101 \<le> y" by linarith
  then have l: "leaps y = (y - 1) div 4 - (if y \<le> 2000 then 15 else if y \<le> 2100 then 15 else 16)"
  proof cases
    case 1
    then have "(y - 1) div 100 = 19" "(y - 1) div 400 = 4" using assms by auto
    then show ?thesis using 1 assms by (simp add: leaps_def)
  next
    case 2
    then have "(y - 1) div 100 = 20" "(y - 1) div 400 = 5" by auto
    then show ?thesis using 2 by (simp add: leaps_def)
  next
    case 3
    then have "(y - 1) div 100 = 21" "(y - 1) div 400 = 5" using assms by auto
    then show ?thesis using 3 by (simp add: leaps_def)
  qed
  have "y mod 4 = b" "(y - 1) div 4 = 496 + a + (3 + b) div 4" using b by (auto simp: y)
  then show ?thesis
    using c l b by (auto simp: y)
qed

lemma days_to_date_table:
  assumes "1988 \<le> y" and "y \<le> 2106" and "0 < m" and "m \<le> 12"
  shows "unat (TOD_Days_to_date ! (if y mod 4 = 0 then 1 else 0) ! m)
    = days_before_month y m + (if y = 2100 \<and> 2 < m then 1 else 0)"
proof (cases "y = 2100")
  case True
  have "\<not> is_leap 2100" by (simp add: is_leap_def)
  then show ?thesis
    unfolding True days_before_month_table [OF assms(3,4)]
    by (cases rule: month_cases [OF assms(3,4)]) (simp_all add: TOD_Days_to_date_def)
next
  case False
  then show ?thesis
    using is_leap_range [OF assms(1,2)] days_before_month_table [OF assms(3,4), of y] by auto
qed

lemma epoch_seconds_year:
  assumes "epoch_seconds t < 2 ^ 32"
  shows "unat (year t) \<le> 2106"
proof (rule ccontr)
  assume "\<not> unat (year t) \<le> 2106"
  then have "days_before_year 2107 \<le> calendar_days t"
    using days_before_year_mono [of 2107 "unat (year t)"] by (simp add: calendar_days_def)
  moreover have "days_before_year 2107 = 50038"
    using days_before_year_closed [of 2107] by (simp add: leaps_def)
  ultimately show False using assms by (simp add: epoch_seconds_def)
qed

lemma uncorrected_days:
  assumes "TOD_Validate us (Some t)" and "unat (year t) \<le> 2106"
  shows "day t - 1
    + (if year t AND 3 = 0 then TOD_Days_to_date ! 1 ! unat (month t) else TOD_Days_to_date ! 0 ! unat (month t))
    + (year t - TOD_BASE_YEAR) div 4 * (365 * 4 + 1)
    + TOD_Days_since_last_leap_year ! unat (year t AND 3)
    = of_nat (calendar_days t - 6574 + days_ahead (unat (year t)) (unat (month t)))
    \<and> 6574 \<le> calendar_days t"
proof -
  let ?y = "unat (year t)" and ?m = "unat (month t)" and ?d = "unat (day t)"
  from assms(1) have v: "0 < ?m" "?m \<le> 12" "1988 \<le> ?y" "0 < ?d" by (auto simp: TOD_Validate_iff)
  have a3: "year t AND 3 = year t mod 4" using and_mask_mod [of "year t" 2] by (simp add: mask_eq_exp_minus_1)
  have m4: "unat (year t AND 3) = ?y mod 4" unfolding a3 by (simp add: unat_mod_distrib)
  then have z: "year t AND 3 = 0 \<longleftrightarrow> ?y mod 4 = 0" by (metis unat_eq_0)
  let ?T = "TOD_Days_to_date ! (if ?y mod 4 = 0 then 1 else 0) ! ?m"
  have T: "?T = of_nat (days_before_month ?y ?m + (if ?y = 2100 \<and> 2 < ?m then 1 else 0))"
    using days_to_date_table [OF v(3) assms(2) v(1,2)] by (metis of_nat_unat ucast_id)
  have d: "day t - 1 = of_nat (?d - 1)" using v(4) by (simp add: of_nat_diff)
  have y: "(year t - TOD_BASE_YEAR) div 4 = of_nat ((?y - 1988) div 4)"
  proof -
    have "year t - TOD_BASE_YEAR = of_nat (?y - 1988)" using v(3) by (simp add: TOD_BASE_YEAR_def of_nat_diff)
    then show ?thesis using of_nat_div_word [where 'a = 32, of "?y - 1988" 4] assms(2) by simp
  qed
  have "?y mod 4 = 0 \<or> ?y mod 4 = 1 \<or> ?y mod 4 = 2 \<or> ?y mod 4 = 3" by arith
  then have s: "TOD_Days_since_last_leap_year ! unat (year t AND 3) = of_nat ([0, 366, 731, 1096] ! (?y mod 4))"
    unfolding m4 TOD_Days_since_last_leap_year_def by (elim disjE) simp_all
  let ?N = "(?d - 1) + (days_before_month ?y ?m + (if ?y = 2100 \<and> 2 < ?m then 1 else 0))
    + (?y - 1988) div 4 * 1461 + [0, 366, 731, 1096] ! (?y mod 4)"
  have "?N + 6574 = calendar_days t + days_ahead ?y ?m"
    unfolding calendar_days_def days_ahead_split
    using four_year_cycles [OF v(3) assms(2)] by linarith
  moreover have ge: "6574 \<le> calendar_days t"
    using days_before_year_mono [OF v(3)] days_before_year_closed [of 1988]
    by (simp add: calendar_days_def leaps_def)
  ultimately have N: "?N = calendar_days t - 6574 + days_ahead ?y ?m" by linarith
  have T': "(if year t AND 3 = 0 then TOD_Days_to_date ! 1 ! ?m else TOD_Days_to_date ! 0 ! ?m) = ?T"
    using z by simp
  have "day t - 1 + ?T + (year t - TOD_BASE_YEAR) div 4 * (365 * 4 + 1)
      + TOD_Days_since_last_leap_year ! unat (year t AND 3) = of_nat ?N"
    unfolding T d y s by simp
  then show ?thesis unfolding T' N using ge by blast
qed

text \<open>The one hour before the end of February 2100 is the exception of the next theorem.\<close>

definition in_2100_window :: "rtems_time_of_day \<Rightarrow> bool" where
  "in_2100_window t \<longleftrightarrow> 4107538800 \<le> epoch_seconds t \<and> epoch_seconds t < 4107542400"

lemma days_ahead_iff:
  assumes "TOD_Validate us (Some t)" and "unat (year t) \<le> 2106"
  shows "days_ahead (unat (year t)) (unat (month t)) = (if 47541 \<le> calendar_days t then 1 else 0)"
proof -
  let ?y = "unat (year t)" and ?m = "unat (month t)" and ?d = "unat (day t)"
  from assms(1) have v: "0 < ?m" "?m \<le> 12" "1988 \<le> ?y" "0 < ?d" "?d \<le> month_length ?y ?m"
    by (auto simp: TOD_Validate_iff)
  have b: "days_before_year 2100 = 47482" "days_before_year 2101 = 47847"
    using days_before_year_closed [of 2100] days_before_year_closed [of 2101] by (simp_all add: leaps_def)
  have nl: "\<not> is_leap 2100" by (simp add: is_leap_def)
  have yd: "days_before_month ?y ?m + (?d - 1) < year_length ?y"
    using month_within_year [OF v(1,2), of ?y] v(4,5) by linarith
  consider "?y < 2100" | "?y = 2100" | "2100 < ?y" by linarith
  then show ?thesis
  proof cases
    case 1
    then have "days_before_year (Suc ?y) \<le> 47482" using days_before_year_mono [of "Suc ?y" 2100] b by simp
    with yd v(3) have "calendar_days t < 47482" by (simp add: calendar_days_def year_mono)
    with 1 show ?thesis by (simp add: days_ahead_def)
  next
    case 2
    have "47541 \<le> calendar_days t \<longleftrightarrow> 2 < ?m"
      using v(4,5) month_cases [OF v(1,2)] b 2 nl
        days_before_month_table [OF v(1,2), of ?y] month_length_table [OF v(1,2), of ?y]
      by (cases rule: month_cases [OF v(1,2)])
         (simp_all add: calendar_days_def TOD_Days_to_date_def TOD_Days_per_month_def)
    with 2 show ?thesis by (simp add: days_ahead_def)
  next
    case 3
    then have "47847 \<le> calendar_days t"
      using days_before_year_mono [of 2101 ?y] b by (simp add: calendar_days_def)
    with 3 show ?thesis by (simp add: days_ahead_def)
  qed
qed

lemma skip_2100:
  assumes "n < 2 ^ 32"
  shows "(let w = of_nat n in (if w \<ge> 4107538800 - 567993600 then w - 86400 else w) + 567993600)
    = (of_nat ((if n \<ge> 3539545200 then n - 86400 else n) + 567993600) :: uint32)"
  using assms by (simp add: Let_def word_le_nat_alt unat_of_nat_small of_nat_diff)

lemma TOD_To_seconds_eq:
  assumes "TOD_Validate us (Some t)" and "epoch_seconds t < 2 ^ 32"
  shows "unat (TOD_To_seconds t) =
    (if in_2100_window t then epoch_seconds t - 86400 else epoch_seconds t)"
proof -
  let ?c = "calendar_days t" and ?a = "days_ahead (unat (year t)) (unat (month t))"
  have y: "unat (year t) \<le> 2106" by (rule epoch_seconds_year [OF assms(2)])
  from assms(1) have v: "unat (hour t) < 24" "unat (minute t) < 60" "unat (second t) < 60"
    by (auto simp: TOD_Validate_iff)
  then have ds: "day_seconds t < 86400" by (simp add: day_seconds_def)
  have ge: "6574 \<le> ?c" using uncorrected_days [OF assms(1) y] by simp
  let ?N = "(?c - 6574 + ?a) * 86400 + day_seconds t"
  have N: "?N + 567993600 = epoch_seconds t + ?a * 86400"
    using ge by (simp add: epoch_seconds_def algebra_simps)
  have a: "?a = (if 4107542400 \<le> epoch_seconds t then 1 else 0)"
    using ds by (auto simp: days_ahead_iff [OF assms(1) y] epoch_seconds_def)
  have N32: "?N < 2 ^ 32" using N a assms(2) by (simp split: if_splits)
  have w: "of_nat (?c - 6574 + ?a) * TOD_SECONDS_PER_DAY + (hour t * 60 + minute t) * 60 + second t
      = of_nat ?N"
    by (simp add: day_seconds_def TOD_SECONDS_PER_DAY_def)
  have "TOD_To_seconds t = (let w = of_nat ?N in
      (if w \<ge> 4107538800 - 567993600 then w - 86400 else w) + 567993600)"
    unfolding TOD_To_seconds_def Let_def conjunct1 [OF uncorrected_days [OF assms(1) y]] w
    by (simp add: TOD_SECONDS_PER_DAY_def TOD_SECONDS_1970_THROUGH_1988_def
        TOD_SECONDS_AT_2100_03_01_00_00_def)
  also have "\<dots> = of_nat ((if ?N \<ge> 3539545200 then ?N - 86400 else ?N) + 567993600)"
    by (rule skip_2100 [OF N32])
  finally have e: "TOD_To_seconds t = \<dots>" .
  have "(if ?N \<ge> 3539545200 then ?N - 86400 else ?N) + 567993600
      = (if in_2100_window t then epoch_seconds t - 86400 else epoch_seconds t)"
    using N a by (auto simp: in_2100_window_def split: if_splits)
  then show ?thesis unfolding e using assms(2) by (subst unat_of_nat_small) (auto split: if_splits)
qed

text \<open>C34: a valid calendar time before the 32-bit limit in 2106 is converted to the exact number
  of seconds since 1970 of the Gregorian calendar, except in the last hour of 28 February 2100.\<close>

theorem TOD_To_seconds_exact:
  assumes "TOD_Validate us (Some t)" and "epoch_seconds t < 2 ^ 32" and "\<not> in_2100_window t"
  shows "unat (TOD_To_seconds t) = epoch_seconds t"
  using TOD_To_seconds_eq [OF assms(1,2)] assms(3) by simp

lemma days_before_year_eval: "1970 \<le> y \<Longrightarrow> days_before_year y = 365 * y + leaps y - 719527"
  using days_before_year_closed [of y] by simp

lemmas calendar_eval = epoch_seconds_def calendar_days_def day_seconds_def days_before_year_eval
  leaps_def is_leap_def days_before_month_def month_length.simps upt_from_1 TOD_Validate_iff
  in_2100_window_def

theorem TOD_To_seconds_exact_witness:
  "unat (TOD_To_seconds \<lparr>year = 2018, month = 6, day = 15, hour = 12, minute = 30, second = 15, ticks = 0\<rparr>)
   = epoch_seconds \<lparr>year = 2018, month = 6, day = 15, hour = 12, minute = 30, second = 15, ticks = 0\<rparr>"
  by (rule TOD_To_seconds_exact [where us = 10000]) (simp_all add: calendar_eval)

text \<open>C37: in the last hour of 28 February 2100 the constant for 1 March 2100, which is one hour
  early, makes the result one day early.\<close>

theorem TOD_To_seconds_2100_window:
  assumes "TOD_Validate us (Some t)" and "in_2100_window t"
  shows "unat (TOD_To_seconds t) = epoch_seconds t - 86400"
proof -
  have "epoch_seconds t < 2 ^ 32" using assms(2) by (simp add: in_2100_window_def)
  then show ?thesis using TOD_To_seconds_eq [OF assms(1)] assms(2) by simp
qed

theorem TOD_To_seconds_2100_window_witness:
  "unat (TOD_To_seconds \<lparr>year = 2100, month = 2, day = 28, hour = 23, minute = 30, second = 0, ticks = 0\<rparr>)
   = epoch_seconds \<lparr>year = 2100, month = 2, day = 28, hour = 23, minute = 30, second = 0, ticks = 0\<rparr> - 86400"
  by (rule TOD_To_seconds_2100_window [where us = 10000]) (simp_all add: calendar_eval)

section \<open>From seconds to a calendar time\<close>

lemma unat_Leap_years_before:
  assumes "0 < unat w"
  shows "unat (Leap_years_before w) = leaps (unat w)"
proof -
  have s: "unat (w - 1) = unat w - 1" using assms by (simp add: unat_minus_one unat_gt_0)
  let ?n = "unat w - 1"
  have n: "?n < 2 ^ 32" using unat_lt2p [of w] by simp
  have le: "?n div 100 \<le> ?n div 4" by (rule div_le_mono2) simp_all
  have w: "w - 1 = of_nat ?n" by (metis s of_nat_unat ucast_id)
  have "Leap_years_before w = of_nat ?n div of_nat 4 - of_nat ?n div of_nat 100 + of_nat ?n div of_nat 400"
    by (simp only: Leap_years_before_def Let_def w of_nat_numeral)
  also have "\<dots> = of_nat (leaps (unat w))"
    using of_nat_div_word [where 'a = 32, of ?n 4] of_nat_div_word [where 'a = 32, of ?n 100]
      of_nat_div_word [where 'a = 32, of ?n 400] n le
    by (simp add: leaps_def of_nat_diff)
  finally have e: "Leap_years_before w = of_nat (leaps (unat w))" .
  have "leaps (unat w) < 2 ^ 32" using n by (simp add: leaps_def)
  then show ?thesis unfolding e by (subst unat_of_nat_small) simp_all
qed

lemma leaps_mono: "a \<le> b \<Longrightarrow> 0 < a \<Longrightarrow> leaps a \<le> leaps b"
proof (induction b rule: nat_induct_at_least)
  case base show ?case by simp
next
  case (Suc n) then show ?case by (simp add: leaps_Suc)
qed

lemma unat_Leap_years_between:
  assumes "1970 \<le> unat y"
  shows "unat (Leap_years_between 1970 y) + 477 = leaps (unat y)"
proof -
  have "unat (Leap_years_before y) = leaps (unat y)" using assms by (intro unat_Leap_years_before) simp
  moreover have "unat (Leap_years_before 1971) = 477" by (simp add: unat_Leap_years_before leaps_def)
  moreover have "leaps 1970 = 477" by (simp add: leaps_def)
  then have "477 \<le> leaps (unat y)" using leaps_mono [OF assms] by simp
  ultimately show ?thesis
    by (simp add: Leap_years_between_def unat_sub word_le_nat_alt)
qed

text \<open>The loop finds the month of a day of the year.\<close>

lemma Year_day_as_month_loop_finds:
  assumes "k \<le> 11" and "m \<le> k"
    and "\<And>i. m \<le> i \<Longrightarrow> i < k \<Longrightarrow> \<not> d < tab ! (i + 2)"
    and "k < 11 \<Longrightarrow> d < tab ! (k + 2)"
  shows "Year_day_as_month_loop tab d m = k"
  using assms
proof (induction tab d m rule: Year_day_as_month_loop.induct)
  case (1 tab d m)
  show ?case
  proof (cases "m = k")
    case True
    with "1.prems" show ?thesis by (subst Year_day_as_month_loop.simps) auto
  next
    case False
    with "1.prems" have lt: "m < k" "m < 11" "\<not> d < tab ! (m + 2)" by auto
    with "1.prems" have "Year_day_as_month_loop tab d (m + 1) = k" by (intro "1.IH") auto
    with lt show ?thesis by (subst Year_day_as_month_loop.simps) simp
  qed
qed

lemma days_before_month_Suc:
  "0 < m \<Longrightarrow> days_before_month y (Suc m) = days_before_month y m + month_length y m"
  by (simp add: days_before_month_def)

lemma days_before_month_mono: "a \<le> b \<Longrightarrow> 0 < a \<Longrightarrow> days_before_month y a \<le> days_before_month y b"
proof (induction b rule: nat_induct_at_least)
  case base show ?case by simp
next
  case (Suc n) then show ?case by (simp add: days_before_month_Suc)
qed

lemma Year_day_as_month_inverts:
  assumes "0 < m" and "m \<le> 12" and "0 < d" and "d \<le> month_length (unat y) m"
    and "unat w = days_before_month (unat y) m + (d - 1)"
  shows "Year_day_as_month y w = (of_nat (m - 1), of_nat (d - 1))"
proof -
  let ?y = "unat y"
  let ?t = "TOD_Days_to_date ! (if is_leap ?y then 1 else 0)"
  have tab: "unat (?t ! i) = days_before_month ?y i" if "0 < i" "i \<le> 12" for i
    using days_before_month_table [OF that, of ?y] by simp
  have lt: "w < ?t ! i \<longleftrightarrow> m < i" if "0 < i" "i \<le> 12" for i
  proof
    assume "m < i"
    then have "days_before_month ?y (Suc m) \<le> days_before_month ?y i" by (intro days_before_month_mono) auto
    then show "w < ?t ! i"
      using assms that by (simp add: word_less_nat_alt tab days_before_month_Suc)
  next
    assume l: "w < ?t ! i"
    show "m < i"
    proof (rule ccontr)
      assume "\<not> m < i"
      then have "days_before_month ?y i \<le> days_before_month ?y m" using that by (intro days_before_month_mono) auto
      with l assms(5) show False using that by (simp add: word_less_nat_alt tab)
    qed
  qed
  have loop: "Year_day_as_month_loop ?t w 0 = m - 1"
    using assms(1,2) lt by (intro Year_day_as_month_loop_finds) auto
  have "?t ! m = of_nat (days_before_month ?y m)" by (metis tab assms(1,2) of_nat_unat ucast_id)
  moreover have "w = of_nat (days_before_month ?y m + (d - 1))" by (metis assms(5) of_nat_unat ucast_id)
  ultimately have "w - ?t ! (m - 1 + 1) = of_nat (d - 1)" using assms(1) by simp
  moreover have "(if Leap_year y then TOD_Days_to_date ! 1 else TOD_Days_to_date ! 0) = ?t"
    by (simp add: Leap_year_iff)
  ultimately show ?thesis by (simp add: Year_day_as_month_def Let_def loop)
qed

text \<open>The year and the day in it from the day count, as the directive computes them.\<close>

lemma year_of_days:
  assumes "1970 \<le> y" and "y \<le> 3400" and "yd < year_length y"
    and "unat days = days_before_year y + yd"
  defines "y0 \<equiv> days div 365 + 1970"
  defines "l \<equiv> Leap_years_between 1970 y0"
  shows "(if l > days mod 365
      then (y0 - 1, if Leap_year (y0 - 1) then (days - l) mod 365 + 1 else (days - l) mod 365)
      else (y0, (days - l) mod 365)) = (of_nat y, of_nat yd)"
proof -
  define L where "L = leaps y - 477"
  have l1970: "leaps 1970 = 477" "leaps 3401 = 824" by (simp_all add: leaps_def)
  have Lge: "477 \<le> leaps y" using leaps_mono [OF assms(1)] l1970 by simp
  have "leaps y \<le> 824" using leaps_mono [of y 3401] assms(1,2) l1970 by simp
  then have L: "L \<le> 347" "leaps y = L + 477" using Lge by (auto simp: L_def)
  have D: "unat days = 365 * (y - 1970) + L + yd"
    using assms(1,4) days_before_year_closed [OF assms(1)] L by simp
  have yd: "yd \<le> 365" using assms(3) by (simp add: year_length_def split: if_splits)
  have small: "unat days < 600000" using D L yd assms(2) by simp
  have y0: "unat y0 = unat days div 365 + 1970"
    using small by (simp add: y0_def unat_word_ariths unat_div_distrib)
  have m: "unat (days mod 365) = unat days mod 365" by (simp add: unat_mod_distrib)
  have l: "unat l + 477 = leaps (unat y0)" unfolding l_def using y0 by (intro unat_Leap_years_between) simp
  have word: "w = of_nat n" if "unat w = n" for w :: uint32 and n using that by (metis of_nat_unat ucast_id)
  show ?thesis
  proof (cases "L + yd < 365")
    case True
    have "unat days = 365 * (y - 1970) + (L + yd)" using D by simp
    then have q: "unat days div 365 = y - 1970" "unat days mod 365 = L + yd"
      using True by (simp_all only: div_mult_self4 mod_mult_self4 div_less mod_less)
    then have uy: "unat y0 = y" using y0 assms(1) by simp
    then have ul: "unat l = L" using l L by simp
    have "unat (days - l) = 365 * (y - 1970) + yd"
      using D ul by (simp add: unat_sub word_le_nat_alt)
    then have "unat ((days - l) mod 365) = yd" using True by (simp add: unat_mod_distrib)
    from word [OF this] show ?thesis using m q ul word [OF uy] by (simp add: word_less_nat_alt)
  next
    case False
    let ?b = "if is_leap y then 1 else 0 :: nat"
    have "unat days = 365 * (y - 1970 + 1) + (L + yd - 365)" using D False by simp
    moreover have "L + yd - 365 < 365" using L yd by simp
    ultimately have q: "unat days div 365 = y - 1970 + 1" "unat days mod 365 = L + yd - 365"
      by (simp_all only: div_mult_self4 mod_mult_self4 div_less mod_less)
    then have uy: "unat y0 = y + 1" using y0 assms(1) by simp
    then have ul: "unat l = L + ?b" using l L leaps_Suc [of y] assms(1) by simp
    have "yd < 365 + ?b" using assms(3) by (simp add: year_length_def split: if_splits)
    then have gt: "l > days mod 365" using m q ul False by (auto simp: word_less_nat_alt)
    have "y0 \<noteq> 0" using uy by auto
    then have uy1: "unat (y0 - 1) = y" using uy by (simp add: unat_minus_one)
    have "L + ?b \<le> unat days" "?b \<le> yd" using D False L by auto
    then have "unat (days - l) = 365 * (y - 1970) + (yd - ?b)"
      using D ul by (simp add: unat_sub word_le_nat_alt)
    moreover have "yd - ?b < 365" using \<open>yd < 365 + ?b\<close> by auto
    ultimately have r: "unat ((days - l) mod 365) = yd - ?b" by (simp add: unat_mod_distrib)
    have "(days - l) mod 365 = of_nat (yd - ?b)" by (rule word [OF r])
    then show ?thesis
      using gt word [OF uy1] uy1 \<open>?b \<le> yd\<close> by (auto simp: Leap_year_iff of_nat_diff)
  qed
qed

lemma rtems_clock_get_tod_inverts:
  assumes "TOD_Validate us (Some t)" and "unat (year t) \<le> 3400"
    and "unat now_sec = epoch_seconds t" and "unat now_usec div unat us = unat (ticks t)"
  shows "rtems_clock_get_tod us True True now_sec now_usec = (RTEMS_SUCCESSFUL, Some t)"
proof -
  let ?y = "unat (year t)" and ?m = "unat (month t)" and ?d = "unat (day t)"
  let ?yd = "days_before_month ?y ?m + (?d - 1)"
  from assms(1) have v: "0 < ?m" "?m \<le> 12" "1988 \<le> ?y" "0 < ?d" "?d \<le> month_length ?y ?m"
    and h: "unat (hour t) < 24" "unat (minute t) < 60" "unat (second t) < 60"
    by (auto simp: TOD_Validate_iff)
  have yd: "?yd < year_length ?y" using month_within_year [OF v(1,2), of ?y] v(4,5) by linarith
  have word: "w = x" if "unat w = unat x" for w x :: uint32 using that by (simp add: word_unat_eq_iff)
  have ds: "day_seconds t < 86400" using h by (simp add: day_seconds_def)
  have q: "unat (now_sec div 86400) = calendar_days t" "unat (now_sec mod 86400) = day_seconds t"
    using assms(3) ds by (simp_all add: unat_div_distrib unat_mod_distrib epoch_seconds_def)
  have "calendar_days t < days_before_year 3401"
    using days_before_year_mono [of "Suc ?y" 3401] assms(2) yd v(3) year_mono [of ?y]
    by (simp add: calendar_days_def)
  also have "\<dots> = 522662" by (simp add: days_before_year_eval leaps_def)
  finally have small: "calendar_days t < 522662" .
  let ?days = "ucast (now_sec div 86400) :: uint32" and ?secs = "ucast (now_sec mod 86400) :: uint32"
  have days: "unat ?days = days_before_year ?y + ?yd"
    using q(1) small by (simp add: unsigned_ucast_eq take_bit_nat_eq_self calendar_days_def)
  have secs: "unat ?secs = day_seconds t"
    using q(2) ds by (simp add: unsigned_ucast_eq take_bit_nat_eq_self)
  note yr = year_of_days [OF _ assms(2) yd days]
  have ydw: "unat (of_nat ?yd :: uint32) = ?yd"
    using yd by (intro unat_of_nat_small) (auto simp: year_length_def split: if_splits)
  have md: "Year_day_as_month (year t) (of_nat ?yd) = (of_nat (?m - 1), of_nat (?d - 1))"
    by (rule Year_day_as_month_inverts [OF v(1,2,4,5) ydw])
  have m3600: "day_seconds t mod 3600 = unat (minute t) * 60 + unat (second t)"
    using h by (simp add: day_seconds_def add.assoc)
  have h3600: "day_seconds t div 3600 = unat (hour t)" using h by (simp add: day_seconds_def)
  have hms: "?secs div 3600 = hour t" "?secs mod 3600 div 60 = minute t" "?secs mod 3600 mod 60 = second t"
    using h by (auto intro!: word simp: unat_div_distrib unat_mod_distrib secs h3600 m3600)
  have "unat (ucast us :: uint64) = unat us" by (simp add: unat_ucast_up)
  then have tk: "ucast (now_usec div ucast us) = ticks t"
    using assms(4) unat_lt2p [of "ticks t"]
    by (intro word) (simp add: unsigned_ucast_eq [of "now_usec div ucast us"] unat_div_distrib
        take_bit_nat_eq_self)
  have "of_nat (?m - 1) + 1 = month t" "of_nat (?d - 1) + 1 = day t"
    using v by (simp_all add: of_nat_diff)
  then show ?thesis
    using yr v(3) md hms tk by (simp add: rtems_clock_get_tod_def Let_def)
qed

text \<open>C35: reading the time of day at the instant a valid calendar time denotes gives that calendar
  time, for every year from 1988 to 3400.\<close>

theorem rtems_clock_get_tod_calendar:
  assumes "TOD_Validate us (Some t)" and "unat (year t) \<le> 3400"
    and "unat now_sec = epoch_seconds t" and "unat now_usec div unat us = unat (ticks t)"
  shows "rtems_clock_get_tod us True True now_sec now_usec = (RTEMS_SUCCESSFUL, Some t)"
  using assms by (rule rtems_clock_get_tod_inverts)

theorem rtems_clock_get_tod_calendar_witness:
  "rtems_clock_get_tod 10000 True True 1709251199 999999
   = (RTEMS_SUCCESSFUL, Some \<lparr>year = 2024, month = 2, day = 29, hour = 23, minute = 59, second = 59,
        ticks = 99\<rparr>)"
  by (rule rtems_clock_get_tod_calendar) (simp_all add: calendar_eval)




end
