(* ===== verification/Chain.thy ===== *)
theory Chain
  imports RTEMS_Prelude
begin

text \<open>
  The Chain Handler (\<^verbatim>\<open>score/chainimpl.h\<close>, \<^verbatim>\<open>score/src/chain.c\<close>, \<^verbatim>\<open>chainnodecount.c\<close>):
  doubly linked lists of nodes embedded in other objects. Memory is a map from byte addresses
  to the 64-bit words stored there; a node at \<open>n\<close> has its \<^verbatim>\<open>next\<close> pointer in the word at \<open>n\<close>
  and its \<^verbatim>\<open>previous\<close> pointer in the word at \<open>n + 8\<close>. A chain control is the three words at
  \<open>c\<close>, \<open>c + 8\<close> and \<open>c + 16\<close>, read as two overlapping nodes: the head node at \<open>c\<close> and the tail
  node at \<open>c + 8\<close>. Their common word, \<^verbatim>\<open>Head.previous\<close> and \<^verbatim>\<open>Tail.next\<close>, stays null. The
  model keeps this overlap, since the operations rely on it.
\<close>

section \<open>Memory and accessors\<close>

type_synonym chain_mem = "uintptr \<Rightarrow> uintptr"

definition NULL :: uintptr where
  "NULL = 0"

definition Chain_Next :: "chain_mem \<Rightarrow> uintptr \<Rightarrow> uintptr" where
  "Chain_Next m the_node = m the_node"

definition Chain_Previous :: "chain_mem \<Rightarrow> uintptr \<Rightarrow> uintptr" where
  "Chain_Previous m the_node = m (the_node + 8)"

definition set_next :: "uintptr \<Rightarrow> uintptr \<Rightarrow> chain_mem \<Rightarrow> chain_mem" where
  "set_next the_node v m = m(the_node := v)"

definition set_previous :: "uintptr \<Rightarrow> uintptr \<Rightarrow> chain_mem \<Rightarrow> chain_mem" where
  "set_previous the_node v m = m(the_node + 8 := v)"

definition Chain_Head :: "uintptr \<Rightarrow> uintptr" where
  "Chain_Head the_chain = the_chain"

definition Chain_Tail :: "uintptr \<Rightarrow> uintptr" where
  "Chain_Tail the_chain = the_chain + 8"

definition Chain_First :: "chain_mem \<Rightarrow> uintptr \<Rightarrow> uintptr" where
  "Chain_First m the_chain = Chain_Next m (Chain_Head the_chain)"

definition Chain_Last :: "chain_mem \<Rightarrow> uintptr \<Rightarrow> uintptr" where
  "Chain_Last m the_chain = Chain_Previous m (Chain_Tail the_chain)"

definition Chain_Set_off_chain :: "uintptr \<Rightarrow> chain_mem \<Rightarrow> chain_mem" where
  "Chain_Set_off_chain node m = set_next node NULL m"

definition Chain_Is_node_off_chain :: "chain_mem \<Rightarrow> uintptr \<Rightarrow> bool" where
  "Chain_Is_node_off_chain m node \<longleftrightarrow> Chain_Next m node = NULL"

definition Chain_Is_null_node :: "uintptr \<Rightarrow> bool" where
  "Chain_Is_null_node the_node \<longleftrightarrow> the_node = NULL"

definition Chain_Is_empty :: "chain_mem \<Rightarrow> uintptr \<Rightarrow> bool" where
  "Chain_Is_empty m the_chain \<longleftrightarrow> Chain_First m the_chain = Chain_Tail the_chain"

definition Chain_Is_first :: "chain_mem \<Rightarrow> uintptr \<Rightarrow> bool" where
  "Chain_Is_first m the_node \<longleftrightarrow> Chain_Previous m (Chain_Previous m the_node) = NULL"

definition Chain_Is_last :: "chain_mem \<Rightarrow> uintptr \<Rightarrow> bool" where
  "Chain_Is_last m the_node \<longleftrightarrow> Chain_Next m (Chain_Next m the_node) = NULL"

definition Chain_Has_only_one_node :: "chain_mem \<Rightarrow> uintptr \<Rightarrow> bool" where
  "Chain_Has_only_one_node m the_chain \<longleftrightarrow> Chain_First m the_chain = Chain_Last m the_chain"

definition Chain_Is_head :: "uintptr \<Rightarrow> uintptr \<Rightarrow> bool" where
  "Chain_Is_head the_chain the_node \<longleftrightarrow> the_node = Chain_Head the_chain"

definition Chain_Is_tail :: "uintptr \<Rightarrow> uintptr \<Rightarrow> bool" where
  "Chain_Is_tail the_chain the_node \<longleftrightarrow> the_node = Chain_Tail the_chain"

section \<open>Operations\<close>

definition Chain_Initialize_empty :: "uintptr \<Rightarrow> chain_mem \<Rightarrow> chain_mem" where
  "Chain_Initialize_empty the_chain m =
     (let head = Chain_Head the_chain; tail = Chain_Tail the_chain;
          m = set_next head tail m;
          m = set_previous head NULL m
      in set_previous tail head m)"

definition Chain_Initialize_one :: "uintptr \<Rightarrow> uintptr \<Rightarrow> chain_mem \<Rightarrow> chain_mem" where
  "Chain_Initialize_one the_chain the_node m =
     (let head = Chain_Head the_chain; tail = Chain_Tail the_chain;
          m = set_next the_node tail m;
          m = set_previous the_node head m;
          m = set_next head the_node m;
          m = set_previous head NULL m
      in set_previous tail the_node m)"

definition Chain_Extract_unprotected :: "uintptr \<Rightarrow> chain_mem \<Rightarrow> chain_mem" where
  "Chain_Extract_unprotected the_node m =
     (let nxt = Chain_Next m the_node; previous = Chain_Previous m the_node;
          m = set_previous nxt previous m
      in set_next previous nxt m)"

definition Chain_Get_first_unprotected :: "uintptr \<Rightarrow> chain_mem \<Rightarrow> uintptr \<times> chain_mem" where
  "Chain_Get_first_unprotected the_chain m =
     (let head = Chain_Head the_chain; old_first = Chain_Next m head;
          new_first = Chain_Next m old_first;
          m = set_next head new_first m;
          m = set_previous new_first head m
      in (old_first, m))"

definition Chain_Get_unprotected :: "uintptr \<Rightarrow> chain_mem \<Rightarrow> uintptr \<times> chain_mem" where
  "Chain_Get_unprotected the_chain m =
     (if \<not> Chain_Is_empty m the_chain then Chain_Get_first_unprotected the_chain m else (NULL, m))"

definition Chain_Insert_unprotected :: "uintptr \<Rightarrow> uintptr \<Rightarrow> chain_mem \<Rightarrow> chain_mem" where
  "Chain_Insert_unprotected after_node the_node m =
     (let m = set_previous the_node after_node m;
          before_node = Chain_Next m after_node;
          m = set_next after_node the_node m;
          m = set_next the_node before_node m
      in set_previous before_node the_node m)"

definition Chain_Append_unprotected :: "uintptr \<Rightarrow> uintptr \<Rightarrow> chain_mem \<Rightarrow> chain_mem" where
  "Chain_Append_unprotected the_chain the_node m =
     (let tail = Chain_Tail the_chain; old_last = Chain_Previous m tail;
          m = set_next the_node tail m;
          m = set_previous tail the_node m;
          m = set_next old_last the_node m
      in set_previous the_node old_last m)"

definition Chain_Append_if_is_off_chain_unprotected :: "uintptr \<Rightarrow> uintptr \<Rightarrow> chain_mem \<Rightarrow> chain_mem" where
  "Chain_Append_if_is_off_chain_unprotected the_chain the_node m =
     (if Chain_Is_node_off_chain m the_node then Chain_Append_unprotected the_chain the_node m else m)"

definition Chain_Prepend_unprotected :: "uintptr \<Rightarrow> uintptr \<Rightarrow> chain_mem \<Rightarrow> chain_mem" where
  "Chain_Prepend_unprotected the_chain the_node m =
     Chain_Insert_unprotected (Chain_Head the_chain) the_node m"

definition Chain_Append_with_empty_check_unprotected ::
    "uintptr \<Rightarrow> uintptr \<Rightarrow> chain_mem \<Rightarrow> bool \<times> chain_mem" where
  "Chain_Append_with_empty_check_unprotected the_chain the_node m =
     (let was_empty = Chain_Is_empty m the_chain
      in (was_empty, Chain_Append_unprotected the_chain the_node m))"

definition Chain_Prepend_with_empty_check_unprotected ::
    "uintptr \<Rightarrow> uintptr \<Rightarrow> chain_mem \<Rightarrow> bool \<times> chain_mem" where
  "Chain_Prepend_with_empty_check_unprotected the_chain the_node m =
     (let was_empty = Chain_Is_empty m the_chain
      in (was_empty, Chain_Prepend_unprotected the_chain the_node m))"

text \<open>The result is the returned flag, the node written through the pointer, and the memory.\<close>

definition Chain_Get_with_empty_check_unprotected ::
    "uintptr \<Rightarrow> chain_mem \<Rightarrow> bool \<times> uintptr \<times> chain_mem" where
  "Chain_Get_with_empty_check_unprotected the_chain m =
     (let head = Chain_Head the_chain; tail = Chain_Tail the_chain; old_first = Chain_Next m head
      in if old_first \<noteq> tail
         then let new_first = Chain_Next m old_first;
                  m = set_next head new_first m;
                  m = set_previous new_first head m
              in (new_first = tail, old_first, m)
         else (True, NULL, m))"

text \<open>
  Loops over a chain end when they reach the tail; on a memory that is no chain they may not
  end, and are \<open>None\<close> then.
\<close>

partial_function (option) Chain_Insert_ordered_loop ::
    "(uintptr \<Rightarrow> bool) \<Rightarrow> uintptr \<Rightarrow> chain_mem \<Rightarrow> uintptr \<Rightarrow> uintptr option" where
  "Chain_Insert_ordered_loop order_left tail m nxt =
     (if nxt \<noteq> tail \<and> \<not> order_left nxt
      then Chain_Insert_ordered_loop order_left tail m (Chain_Next m nxt)
      else Some nxt)"

definition Chain_Insert_ordered_unprotected ::
    "uintptr \<Rightarrow> uintptr \<Rightarrow> 'l \<Rightarrow> ('l \<Rightarrow> uintptr \<Rightarrow> bool) \<Rightarrow> chain_mem \<Rightarrow> chain_mem option" where
  "Chain_Insert_ordered_unprotected the_chain to_insert left order m =
     (case Chain_Insert_ordered_loop (order left) (Chain_Tail the_chain) m (Chain_First m the_chain) of
        None \<Rightarrow> None
      | Some nxt \<Rightarrow> Some (Chain_Insert_unprotected (Chain_Previous m nxt) to_insert m))"

partial_function (option) Chain_Node_count_loop ::
    "chain_mem \<Rightarrow> uintptr \<Rightarrow> uintptr \<Rightarrow> uint64 \<Rightarrow> uint64 option" where
  "Chain_Node_count_loop m tail node count =
     (if node \<noteq> tail then Chain_Node_count_loop m tail (Chain_Next m node) (count + 1) else Some count)"

definition Chain_Node_count_unprotected :: "chain_mem \<Rightarrow> uintptr \<Rightarrow> uint64 option" where
  "Chain_Node_count_unprotected m chain =
     Chain_Node_count_loop m (Chain_Tail chain) (Chain_First m chain) 0"

text \<open>\<^verbatim>\<open>_Chain_Initialize\<close>: the loop counts down; its state is the current and the next node.\<close>

fun Chain_Initialize_loop ::
    "nat \<Rightarrow> uint64 \<Rightarrow> uintptr \<Rightarrow> uintptr \<Rightarrow> chain_mem \<Rightarrow> uintptr \<times> chain_mem" where
  "Chain_Initialize_loop 0 node_size current nxt m = (current, m)"
| "Chain_Initialize_loop (Suc count) node_size current nxt m =
     (let m = set_next current nxt m;
          m = set_previous nxt current m
      in Chain_Initialize_loop count node_size nxt (nxt + node_size) m)"

definition Chain_Initialize :: "uintptr \<Rightarrow> uintptr \<Rightarrow> uint64 \<Rightarrow> uint64 \<Rightarrow> chain_mem \<Rightarrow> chain_mem" where
  "Chain_Initialize the_chain starting_address number_nodes node_size m =
     (let head = Chain_Head the_chain; tail = Chain_Tail the_chain;
          m = set_previous head NULL m;
          (current, m) = Chain_Initialize_loop (unat number_nodes) node_size head starting_address m;
          m = set_next current tail m
      in set_previous tail current m)"

section \<open>Linked segments\<close>

text \<open>\<open>links m L\<close>: consecutive nodes of \<open>L\<close> point at each other.\<close>

fun links :: "chain_mem \<Rightarrow> uintptr list \<Rightarrow> bool" where
  "links m (x # y # L) \<longleftrightarrow> m x = y \<and> m (y + 8) = x \<and> links m (y # L)"
| "links m _ \<longleftrightarrow> True"

text \<open>The words that \<open>links\<close> reads.\<close>

definition link_cells :: "uintptr list \<Rightarrow> uintptr list" where
  "link_cells L = butlast L @ map (\<lambda>x. x + 8) (tl L)"

lemma links_append: "links m (A @ p # b # B) \<longleftrightarrow> links m (A @ [p]) \<and> m p = b \<and> m (b + 8) = p \<and> links m (b # B)"
  by (induction m "A @ [p]" arbitrary: A rule: links.induct)
     (auto simp: append_eq_Cons_conv Cons_eq_append_conv)

lemma link_cells_Cons: "link_cells (x # y # L) = x # butlast (y # L) @ (y + 8) # map (\<lambda>x. x + 8) L"
  by (simp add: link_cells_def)

lemma links_frame: "a \<notin> set (link_cells L) \<Longrightarrow> links (m(a := v)) L = links m L"
proof (induction m L rule: links.induct)
  case (1 m x y L)
  have sub: "set (link_cells (y # L)) \<subseteq> set (link_cells (x # y # L))"
    by (cases L) (auto simp: link_cells_def)
  have "links (m(a := v)) (y # L) = links m (y # L)" using "1.prems" sub by (intro "1.IH") auto
  moreover have "a \<noteq> x" "a \<noteq> y + 8" using "1.prems" by (auto simp: link_cells_Cons)
  then have "(m(a := v)) x = m x" "(m(a := v)) (y + 8) = m (y + 8)" by auto
  ultimately show ?case by (simp del: fun_upd_apply)
qed auto

lemma link_cells_append:
  "link_cells (A @ p # b # B) = A @ p # butlast (b # B) @ map (\<lambda>x. x + 8) (tl (A @ [p]) @ b # B)"
  by (cases A) (simp_all add: link_cells_def butlast_append)

lemma link_cells_split:
  assumes "distinct (link_cells (A @ p # b # B))"
  shows "set (link_cells (A @ p # b # B)) = {p, b + 8} \<union> set (link_cells (A @ [p])) \<union> set (link_cells (b # B))"
    and "p \<notin> set (link_cells (A @ [p]))" and "b + 8 \<notin> set (link_cells (A @ [p]))"
    and "p \<notin> set (link_cells (b # B))" and "b + 8 \<notin> set (link_cells (b # B))"
    and "p \<noteq> b + 8"
proof -
  define V W where V: "V = tl (A @ [p])" and W: "W = butlast (b # B)"
  have "link_cells (A @ [p]) = A @ map (\<lambda>x. x + 8) V" "link_cells (b # B) = W @ map (\<lambda>x. x + 8) B"
    "link_cells (A @ p # b # B) = A @ p # W @ map (\<lambda>x. x + 8) (V @ b # B)"
    by (simp_all only: V W link_cells_append) (simp_all add: link_cells_def)
  then show "set (link_cells (A @ p # b # B)) = {p, b + 8} \<union> set (link_cells (A @ [p])) \<union> set (link_cells (b # B))"
    and "p \<notin> set (link_cells (A @ [p]))" and "b + 8 \<notin> set (link_cells (A @ [p]))"
    and "p \<notin> set (link_cells (b # B))" and "b + 8 \<notin> set (link_cells (b # B))"
    and "p \<noteq> b + 8"
    using assms by auto
qed

lemma links_insert:
  assumes "links m (A @ p # b # B)" and "distinct (link_cells (A @ p # b # B))"
    and "n \<notin> set (link_cells (A @ p # b # B))" and "n + 8 \<notin> set (link_cells (A @ p # b # B))"
  shows "links (m(n + 8 := p, p := n, n := b, b + 8 := n)) (A @ p # n # b # B)"
proof -
  let ?m = "m(n + 8 := p, p := n, n := b, b + 8 := n)"
  note sp = link_cells_split [OF assms(2)]
  have "links m (A @ [p])" "links m (b # B)" using assms(1) links_append by blast+
  then have "links ?m (A @ [p])" "links ?m (b # B)"
    using assms(3,4) sp by (auto simp: links_frame simp del: links.simps fun_upd_apply)
  moreover have "?m p = n" "?m (n + 8) = p" "?m n = b" "?m (b + 8) = n"
    using assms(3,4) sp by auto
  ultimately show ?thesis using links_append [of ?m A p n "b # B"] by (simp del: fun_upd_apply)
qed

lemma link_cells_tail: "set (link_cells (b # B)) \<subseteq> set (link_cells (n # b # B))"
  by (cases B) (auto simp: link_cells_def)

lemma link_cells_init: "set (link_cells (A @ [p])) \<subseteq> set (link_cells (A @ [p, n]))"
  by (cases A) (auto simp: link_cells_def butlast_append)

lemma links_extract:
  assumes "links m (A @ p # n # b # B)" and "distinct (link_cells (A @ p # n # b # B))"
  shows "links (m(b + 8 := p, p := b)) (A @ p # b # B)"
proof -
  let ?m = "m(b + 8 := p, p := b)"
  note sp = link_cells_split [OF assms(2)]
  have "A @ p # n # b # B = (A @ [p]) @ n # b # B" by simp
  with assms(2) have "distinct (link_cells ((A @ [p]) @ n # b # B))" by metis
  note sp2 = link_cells_split [OF this]
  have frame: "p \<notin> set (link_cells (A @ [p]))" "b + 8 \<notin> set (link_cells (A @ [p]))"
    "p \<notin> set (link_cells (b # B))" "b + 8 \<notin> set (link_cells (b # B))" "p \<noteq> b + 8"
    using sp(2) sp2(3) link_cells_init [of A p n] sp(4) link_cells_tail [of b B n] sp2(5)
    by (auto simp: link_cells_Cons simp del: links.simps)
  have "links m (A @ [p])" "links m (b # B)"
    using assms(1) links_append [of m A p n "b # B"] by auto
  then have "links ?m (A @ [p])" "links ?m (b # B)"
    using frame by (simp_all add: links_frame del: links.simps fun_upd_apply)
  moreover have "?m p = b" "?m (b + 8) = p" using frame by auto
  ultimately show ?thesis using links_append [of ?m A p b B] by (simp del: fun_upd_apply)
qed

section \<open>Chains\<close>

text \<open>All words of a chain control and of the nodes on the chain.\<close>

definition footprint :: "uintptr \<Rightarrow> uintptr list \<Rightarrow> uintptr list" where
  "footprint c xs = [c, c + 8, c + 16] @ xs @ map (\<lambda>x. x + 8) xs"

text \<open>
  \<open>chain_rep m c xs\<close>: in memory \<open>m\<close> the chain at \<open>c\<close> holds exactly the nodes \<open>xs\<close>, in this
  order, none of its words overlap and none is at address zero.
\<close>

definition chain_rep :: "chain_mem \<Rightarrow> uintptr \<Rightarrow> uintptr list \<Rightarrow> bool" where
  "chain_rep m c xs \<longleftrightarrow> links m (c # xs @ [c + 8]) \<and> m (c + 8) = NULL
     \<and> distinct (footprint c xs) \<and> 0 \<notin> set (footprint c xs)"

text \<open>A node that may be put on the chain: its words are outside and not at zero.\<close>

definition chain_fresh :: "uintptr \<Rightarrow> uintptr list \<Rightarrow> uintptr \<Rightarrow> bool" where
  "chain_fresh c xs n \<longleftrightarrow> n \<notin> set (footprint c xs) \<and> n + 8 \<notin> set (footprint c xs) \<and> n \<noteq> 0 \<and> n + 8 \<noteq> 0"

lemma link_cells_chain: "link_cells (c # xs @ [c + 8]) = c # xs @ map (\<lambda>x. x + 8) xs @ [c + 16]"
  by (simp add: link_cells_def butlast_append)

lemma word_add_8_neq [simp]: "n + 8 \<noteq> (n :: uintptr)" "n \<noteq> n + 8" "n + 16 \<noteq> n" "n \<noteq> n + 16"
  by simp_all

lemma footprint_insert:
  "distinct (footprint c (xs @ n # ys)) \<longleftrightarrow>
     distinct (footprint c (xs @ ys)) \<and> n \<notin> set (footprint c (xs @ ys)) \<and> n + 8 \<notin> set (footprint c (xs @ ys))"
  by (auto simp: footprint_def)

lemma chain_distinct_cells:
  "chain_rep m c xs \<Longrightarrow> distinct (link_cells (c # xs @ [c + 8])) \<and> c + 8 \<notin> set (link_cells (c # xs @ [c + 8]))"
  by (auto simp: chain_rep_def footprint_def link_cells_chain)

lemma chain_neighbours:
  obtains A B where "c # xs = A @ [last (c # xs)]" and "ys @ [c + 8] = hd (ys @ [c + 8]) # B"
  by (metis append_butlast_last_id list.distinct(1) list.collapse snoc_eq_iff_butlast)

lemma neighbour_cells:
  "last (c # xs) \<in> set (c # xs)" "hd (ys @ [c + 8]) \<in> set (ys @ [c + 8])"
  by (simp, cases ys, simp_all)

lemma Chain_Insert_word:
  assumes "p \<noteq> n + 8" and "p \<noteq> n"
  shows "Chain_Insert_unprotected p n m = m(n + 8 := p, p := n, n := m p, m p + 8 := n)"
  using assms by (simp add: Chain_Insert_unprotected_def Let_def set_next_def set_previous_def Chain_Next_def)

lemma chain_rep_insert:
  assumes "chain_rep m c (xs @ ys)" and "chain_fresh c (xs @ ys) n"
  shows "chain_rep (Chain_Insert_unprotected (last (c # xs)) n m) c (xs @ n # ys)"
proof -
  let ?p = "last (c # xs)" and ?b = "hd (ys @ [c + 8])"
  obtain A B where A: "c # xs = A @ [?p]" and B: "ys @ [c + 8] = ?b # B" by (rule chain_neighbours)
  have L: "c # (xs @ ys) @ [c + 8] = A @ ?p # ?b # B" using A B by (metis append.assoc append_Cons append_Nil)
  have L': "c # (xs @ n # ys) @ [c + 8] = A @ ?p # n # ?b # B" using A B by (metis append.assoc append_Cons append_Nil)
  from assms(1) have l: "links m (A @ ?p # ?b # B)" and d: "distinct (link_cells (A @ ?p # ?b # B))"
    using chain_distinct_cells [OF assms(1)] unfolding chain_rep_def L by blast+
  have sub: "set (link_cells (A @ ?p # ?b # B)) \<subseteq> set (footprint c (xs @ ys))"
    unfolding L [symmetric] link_cells_chain by (auto simp: footprint_def)
  have f: "n \<notin> set (link_cells (A @ ?p # ?b # B))" "n + 8 \<notin> set (link_cells (A @ ?p # ?b # B))"
    using assms(2) sub by (auto simp: chain_fresh_def)
  have mp: "m ?p = ?b" using l links_append by blast
  have pn: "?p \<noteq> n" "?p \<noteq> n + 8" using f by (auto simp: link_cells_append)
  have e: "Chain_Insert_unprotected ?p n m = m(n + 8 := ?p, ?p := n, n := ?b, ?b + 8 := n)"
    using Chain_Insert_word [OF pn(2,1)] by (simp only: mp)
  have "links (Chain_Insert_unprotected ?p n m) (c # (xs @ n # ys) @ [c + 8])"
    unfolding e L' by (rule links_insert [OF l d f])
  moreover have "c + 8 \<notin> {n + 8, ?p, n, ?b + 8}"
    using assms neighbour_cells(1) [of c xs] neighbour_cells(2) [of ys c]
    by (auto simp: chain_rep_def chain_fresh_def footprint_def)
  then have "Chain_Insert_unprotected ?p n m (c + 8) = NULL"
    using assms(1) unfolding e by (simp add: chain_rep_def)
  moreover have "distinct (footprint c (xs @ n # ys))" "0 \<notin> set (footprint c (xs @ n # ys))"
    using assms unfolding footprint_insert chain_rep_def chain_fresh_def by (auto simp: footprint_def)
  ultimately show ?thesis by (simp add: chain_rep_def)
qed

lemma chain_rep_extract:
  assumes "chain_rep m c (xs @ n # ys)"
  shows "chain_rep (Chain_Extract_unprotected n m) c (xs @ ys)"
proof -
  let ?p = "last (c # xs)" and ?b = "hd (ys @ [c + 8])"
  obtain A B where A: "c # xs = A @ [?p]" and B: "ys @ [c + 8] = ?b # B" by (rule chain_neighbours)
  have L: "c # (xs @ n # ys) @ [c + 8] = A @ ?p # n # ?b # B" using A B by (metis append.assoc append_Cons append_Nil)
  have L': "c # (xs @ ys) @ [c + 8] = A @ ?p # ?b # B" using A B by (metis append.assoc append_Cons append_Nil)
  have l: "links m (A @ ?p # n # ?b # B)" and d: "distinct (link_cells (A @ ?p # n # ?b # B))"
    using assms chain_distinct_cells [OF assms] unfolding chain_rep_def L by blast+
  have "m n = ?b" "m (n + 8) = ?p" using l links_append [of m A ?p n "?b # B"] by auto
  then have e: "Chain_Extract_unprotected n m = m(?b + 8 := ?p, ?p := ?b)"
    by (simp add: Chain_Extract_unprotected_def Let_def set_next_def set_previous_def Chain_Next_def
        Chain_Previous_def)
  have "links (Chain_Extract_unprotected n m) (c # (xs @ ys) @ [c + 8])"
    unfolding e L' by (rule links_extract [OF l d])
  moreover have "c + 8 \<notin> {?p, ?b + 8}"
    using assms neighbour_cells(1) [of c xs] neighbour_cells(2) [of ys c]
    by (auto simp: chain_rep_def footprint_def)
  then have "Chain_Extract_unprotected n m (c + 8) = NULL"
    using assms unfolding e by (simp add: chain_rep_def)
  moreover have "distinct (footprint c (xs @ ys))" "0 \<notin> set (footprint c (xs @ ys))"
    using assms unfolding footprint_insert chain_rep_def by (auto simp: footprint_def)
  ultimately show ?thesis by (simp add: chain_rep_def)
qed

section \<open>Each operation on a represented chain\<close>

named_theorems chain_ops

lemmas chain_accessors = Chain_Next_def Chain_Previous_def set_next_def set_previous_def
  Chain_Head_def Chain_Tail_def Chain_First_def Chain_Last_def NULL_def Let_def

lemma chain_rep_ends:
  assumes "chain_rep m c xs"
  shows "m c = hd (xs @ [c + 8])" and "m (c + 16) = last (c # xs)" and "m (c + 8) = NULL"
proof -
  obtain A B where A: "c # xs = A @ [last (c # xs)]" by (metis append_butlast_last_id list.distinct(1))
  then have "links m (A @ last (c # xs) # (c + 8) # [])"
    using assms by (metis append.assoc append_Cons append_Nil chain_rep_def)
  then show "m (c + 16) = last (c # xs)" unfolding links_append by (simp add: add.assoc)
  show "m c = hd (xs @ [c + 8])" using assms by (cases xs) (auto simp: chain_rep_def)
qed (use assms in \<open>simp add: chain_rep_def\<close>)

lemma chain_rep_middle:
  assumes "chain_rep m c (xs @ n # ys)"
  shows "m n = hd (ys @ [c + 8])" and "m (n + 8) = last (c # xs)"
proof -
  obtain A B where A: "c # xs = A @ [last (c # xs)]" and B: "ys @ [c + 8] = hd (ys @ [c + 8]) # B"
    by (rule chain_neighbours)
  then have "links m ((A @ [last (c # xs)]) @ n # hd (ys @ [c + 8]) # B)"
    using assms by (metis append.assoc append_Cons append_Nil chain_rep_def)
  moreover from this have "links m (A @ last (c # xs) # n # hd (ys @ [c + 8]) # B)" by simp
  ultimately show "m n = hd (ys @ [c + 8])" "m (n + 8) = last (c # xs)"
    unfolding links_append by auto
qed

lemma Chain_Initialize_empty_rep [chain_ops]:
  assumes "distinct (footprint c [])" and "0 \<notin> set (footprint c [])"
  shows "chain_rep (Chain_Initialize_empty c m) c []"
  using assms by (auto simp: chain_rep_def Chain_Initialize_empty_def chain_accessors footprint_def add.assoc)

lemma Chain_Initialize_one_rep [chain_ops]:
  assumes "distinct (footprint c [n])" and "0 \<notin> set (footprint c [n])"
  shows "chain_rep (Chain_Initialize_one c n m) c [n]"
  using assms by (auto simp: chain_rep_def Chain_Initialize_one_def chain_accessors footprint_def add.assoc)

lemma Chain_Is_empty_rep [chain_ops]:
  assumes "chain_rep m c xs"
  shows "Chain_Is_empty m c \<longleftrightarrow> xs = []"
  using assms chain_rep_ends(1) [OF assms]
  by (cases xs) (auto simp: Chain_Is_empty_def chain_accessors chain_rep_def footprint_def)

lemma Chain_Prepend_rep [chain_ops]:
  assumes "chain_rep m c xs" and "chain_fresh c xs n"
  shows "chain_rep (Chain_Prepend_unprotected c n m) c (n # xs)"
  using chain_rep_insert [of m c "[]" xs n] assms by (simp add: Chain_Prepend_unprotected_def Chain_Head_def)

lemma fun_upd_rotate:
  assumes "a \<noteq> b" "a \<noteq> c" "a \<noteq> d" "b \<noteq> c" "b \<noteq> d" "c \<noteq> d"
  shows "m(a := p, b := q, c := r, d := s) = m(d := s, c := r, a := p, b := q)"
  using assms by (auto simp: fun_eq_iff)

lemma Chain_Append_as_insert:
  assumes "chain_rep m c xs" and "chain_fresh c xs n"
  shows "Chain_Append_unprotected c n m = Chain_Insert_unprotected (last (c # xs)) n m"
proof -
  let ?p = "last (c # xs)"
  have mp: "m (c + 16) = ?p" by (rule chain_rep_ends(2) [OF assms(1)])
  have "?p \<in> set (c # xs)" by (rule neighbour_cells)
  then have p: "?p \<noteq> n" "?p \<noteq> n + 8" "?p \<noteq> c + 16" and n: "n \<noteq> c + 16" "n + 8 \<noteq> c + 16" "n \<noteq> n + 8"
    using assms by (auto simp: chain_fresh_def chain_rep_def footprint_def)
  have "m ?p = c + 8"
  proof (cases xs rule: rev_cases)
    case Nil
    then show ?thesis using chain_rep_ends(1) [OF assms(1)] by simp
  next
    case (snoc ys z)
    then show ?thesis using chain_rep_middle(1) [of m c ys z "[]"] assms(1) by simp
  qed
  then have i: "Chain_Insert_unprotected ?p n m = m(n + 8 := ?p, ?p := n, n := c + 8, c + 16 := n)"
    using Chain_Insert_word [OF p(2,1), of m] by (simp add: add.assoc)
  have a: "Chain_Append_unprotected c n m = m(n := c + 8, c + 16 := n, ?p := n, n + 8 := ?p)"
    using mp by (simp add: Chain_Append_unprotected_def chain_accessors add.assoc)
  show ?thesis unfolding i a using p n by (intro fun_upd_rotate) auto
qed

lemma Chain_Append_rep [chain_ops]:
  assumes "chain_rep m c xs" and "chain_fresh c xs n"
  shows "chain_rep (Chain_Append_unprotected c n m) c (xs @ [n])"
  using chain_rep_insert [of m c xs "[]" n] assms by (simp add: Chain_Append_as_insert)

lemma Chain_Get_first_as_extract:
  assumes "chain_rep m c (x # xs)"
  shows "Chain_Get_first_unprotected c m = (x, Chain_Extract_unprotected x m)"
proof -
  have "m c = x" using chain_rep_ends(1) [OF assms] by simp
  moreover have "m x = hd (xs @ [c + 8])" "m (x + 8) = c" using chain_rep_middle [of m c "[]" x xs] assms by auto
  moreover have "c \<noteq> hd (xs @ [c + 8]) + 8" using assms neighbour_cells(2) [of xs c]
    by (auto simp: chain_rep_def footprint_def add.assoc)
  ultimately show ?thesis
    by (simp add: Chain_Get_first_unprotected_def Chain_Extract_unprotected_def chain_accessors fun_upd_twist)
qed

lemma Chain_Get_rep [chain_ops]:
  assumes "chain_rep m c xs"
  shows "case xs of [] \<Rightarrow> Chain_Get_unprotected c m = (NULL, m)
         | x # ys \<Rightarrow> fst (Chain_Get_unprotected c m) = x \<and> chain_rep (snd (Chain_Get_unprotected c m)) c ys"
  using assms chain_rep_extract [of m c "[]"]
  by (cases xs) (auto simp: Chain_Get_unprotected_def Chain_Is_empty_rep Chain_Get_first_as_extract)

lemma Chain_Get_with_empty_check_rep [chain_ops]:
  assumes "chain_rep m c xs"
  shows "Chain_Get_with_empty_check_unprotected c m = (length xs \<le> 1, Chain_Get_unprotected c m)"
proof (cases xs)
  case Nil
  then show ?thesis using assms chain_rep_ends(1) [OF assms] Chain_Is_empty_rep [OF assms]
    by (simp add: Chain_Get_with_empty_check_unprotected_def Chain_Get_unprotected_def chain_accessors)
next
  case (Cons x ys)
  have "m c = x" "m x = hd (ys @ [c + 8])" using chain_rep_ends(1) [OF assms] chain_rep_middle(1) [of m c "[]" x ys] assms Cons
    by auto
  moreover have "x \<noteq> c + 8" "m x = c + 8 \<longleftrightarrow> ys = []"
    using assms Cons calculation by (cases ys; auto simp: chain_rep_def footprint_def)+
  ultimately show ?thesis using Cons Chain_Is_empty_rep [OF assms]
    by (auto simp: Chain_Get_with_empty_check_unprotected_def Chain_Get_unprotected_def
        Chain_Get_first_unprotected_def chain_accessors Suc_le_eq)
qed

section \<open>Walking a chain\<close>

lemma links_Cons_snoc: "links m (y # ys @ [t]) \<Longrightarrow> m y = hd (ys @ [t]) \<and> links m (ys @ [t])"
  by (cases ys) auto

lemma Chain_Node_count_loop_links:
  "links m (ys @ [t]) \<Longrightarrow> t \<notin> set ys \<Longrightarrow>
     Chain_Node_count_loop m t (hd (ys @ [t])) k = Some (k + of_nat (length ys))"
proof (induction ys arbitrary: k)
  case Nil
  then show ?case by (simp add: Chain_Node_count_loop.simps)
next
  case (Cons y ys)
  then have y: "m y = hd (ys @ [t])" "links m (ys @ [t])" "y \<noteq> t" "t \<notin> set ys"
    using links_Cons_snoc [of m y ys t] by auto
  have "Chain_Node_count_loop m t y k = Chain_Node_count_loop m t (m y) (k + 1)"
    using y(3) by (subst Chain_Node_count_loop.simps) (simp add: Chain_Next_def)
  then show ?case using Cons.IH [OF y(2,4), of "k + 1"] y(1) by (simp add: add.assoc)
qed

lemma Chain_Insert_ordered_loop_links:
  "links m (ys @ [t]) \<Longrightarrow> t \<notin> set ys \<Longrightarrow>
     Chain_Insert_ordered_loop ord t m (hd (ys @ [t])) = Some (hd (dropWhile (\<lambda>n. \<not> ord n) ys @ [t]))"
proof (induction ys)
  case Nil
  then show ?case by (simp add: Chain_Insert_ordered_loop.simps)
next
  case (Cons y ys)
  then have "m y = hd (ys @ [t])" "links m (ys @ [t])" "y \<noteq> t" "t \<notin> set ys"
    using links_Cons_snoc [of m y ys t] by auto
  then show ?case using Cons.IH
    by (subst Chain_Insert_ordered_loop.simps) (simp add: Chain_Next_def)
qed

lemma chain_rep_walk:
  assumes "chain_rep m c xs"
  shows "links m (xs @ [c + 8])" and "c + 8 \<notin> set xs" and "m c = hd (xs @ [c + 8])"
  using assms chain_rep_ends(1) [OF assms] links_Cons_snoc [of m c xs "c + 8"]
  by (auto simp: chain_rep_def footprint_def)

lemma Chain_Node_count_rep [chain_ops]:
  assumes "chain_rep m c xs"
  shows "Chain_Node_count_unprotected m c = Some (of_nat (length xs))"
  using Chain_Node_count_loop_links [OF chain_rep_walk(1,2) [OF assms], of 0] chain_rep_walk(3) [OF assms]
  by (simp add: Chain_Node_count_unprotected_def chain_accessors)

lemma Chain_Insert_ordered_rep [chain_ops]:
  fixes left :: 'l and order :: "'l \<Rightarrow> uintptr \<Rightarrow> bool"
  assumes "chain_rep m c xs" and "chain_fresh c xs n"
  defines "before \<equiv> takeWhile (\<lambda>x. \<not> order left x) xs"
    and "rest \<equiv> dropWhile (\<lambda>x. \<not> order left x) xs"
  shows "\<exists>m'. Chain_Insert_ordered_unprotected c n left order m = Some m' \<and> chain_rep m' c (before @ n # rest)"
proof -
  have xs: "xs = before @ rest" by (simp add: before_def rest_def)
  have "m (hd (rest @ [c + 8]) + 8) = last (c # before)"
  proof (cases rest)
    case Nil
    then show ?thesis using chain_rep_ends(2) [OF assms(1)] xs by (simp add: add.assoc)
  next
    case (Cons y ys)
    then show ?thesis using chain_rep_middle(2) [of m c before y ys] xs assms(1) by simp
  qed
  then have "Chain_Insert_ordered_unprotected c n left order m
               = Some (Chain_Insert_unprotected (last (c # before)) n m)"
    using Chain_Insert_ordered_loop_links [OF chain_rep_walk(1,2) [OF assms(1)], of "order left"]
      chain_rep_walk(3) [OF assms(1)]
    by (simp add: Chain_Insert_ordered_unprotected_def chain_accessors rest_def)
  then show ?thesis using chain_rep_insert [of m c before rest n] assms(1,2) xs by auto
qed

lemma Chain_Is_first_rep [chain_ops]:
  assumes "chain_rep m c (xs @ n # ys)"
  shows "Chain_Is_first m n \<longleftrightarrow> xs = []"
proof -
  have p: "m (n + 8) = last (c # xs)" by (rule chain_rep_middle [OF assms])
  show ?thesis
  proof (cases xs rule: rev_cases)
    case Nil
    then show ?thesis using p chain_rep_ends(3) [OF assms] by (simp add: Chain_Is_first_def Chain_Previous_def)
  next
    case (snoc zs z)
    then have "m (z + 8) = last (c # zs)" using chain_rep_middle(2) [of m c zs z "n # ys"] assms by simp
    moreover have "last (c # zs) \<noteq> 0" using neighbour_cells(1) [of c zs] assms snoc
      by (auto simp: chain_rep_def footprint_def simp del: last.simps)
    ultimately show ?thesis using p snoc by (simp add: Chain_Is_first_def Chain_Previous_def NULL_def)
  qed
qed

lemma Chain_Is_last_rep [chain_ops]:
  assumes "chain_rep m c (xs @ n # ys)"
  shows "Chain_Is_last m n \<longleftrightarrow> ys = []"
proof -
  have p: "m n = hd (ys @ [c + 8])" by (rule chain_rep_middle [OF assms])
  show ?thesis
  proof (cases ys)
    case Nil
    then show ?thesis using p chain_rep_ends(3) [OF assms] by (simp add: Chain_Is_last_def Chain_Next_def)
  next
    case (Cons z zs)
    then have "m z = hd (zs @ [c + 8])" using chain_rep_middle(1) [of m c "xs @ [n]" z zs] assms by simp
    moreover have "hd (zs @ [c + 8]) \<noteq> 0" using neighbour_cells(2) [of zs c] assms Cons
      by (auto simp: chain_rep_def footprint_def)
    ultimately show ?thesis using p Cons by (simp add: Chain_Is_last_def Chain_Next_def NULL_def)
  qed
qed

text \<open>On an empty chain the first and the last node are the tail and the head: they differ.\<close>

lemma Chain_Has_only_one_node_rep [chain_ops]:
  assumes "chain_rep m c xs"
  shows "Chain_Has_only_one_node m c \<longleftrightarrow> length xs = 1"
proof -
  have "distinct (c # xs @ [c + 8])" using assms by (auto simp: chain_rep_def footprint_def)
  then show ?thesis
    using chain_rep_ends [OF assms]
    by (cases xs rule: rev_cases) (auto simp: Chain_Has_only_one_node_def chain_accessors add.assoc hd_append
        dest: hd_in_set)
qed

section \<open>Separation: an operation on one chain keeps every other chain\<close>

lemma links_cong: "(\<And>a. a \<in> set (link_cells L) \<Longrightarrow> m' a = m a) \<Longrightarrow> links m' L = links m L"
proof (induction m L rule: links.induct)
  case (1 m x y L)
  have "links m' (y # L) = links m (y # L)"
    using "1.prems" link_cells_tail [of y L x] by (intro "1.IH") auto
  then show ?case using "1.prems" by (simp add: link_cells_Cons)
qed auto

lemma chain_rep_cong:
  assumes "\<And>a. a \<in> set (footprint c xs) \<Longrightarrow> m' a = m a"
  shows "chain_rep m' c xs = chain_rep m c xs"
proof -
  have "links m' (c # xs @ [c + 8]) = links m (c # xs @ [c + 8])"
    using assms by (intro links_cong) (auto simp: link_cells_chain footprint_def)
  moreover have "m' (c + 8) = m (c + 8)" using assms by (simp add: footprint_def)
  ultimately show ?thesis by (simp add: chain_rep_def)
qed

lemma Chain_Append_frame:
  assumes "chain_rep m c xs" and "a \<notin> set (footprint c xs)" and "a \<noteq> n" and "a \<noteq> n + 8"
  shows "Chain_Append_unprotected c n m a = m a"
proof -
  have "last (c # xs) \<in> set (footprint c xs)"
    using neighbour_cells(1) [of c xs] by (auto simp: footprint_def simp del: last.simps)
  then have "a \<noteq> m (c + 16)" "a \<noteq> c + 16" using assms chain_rep_ends(2) [OF assms(1)] by (auto simp: footprint_def)
  then show ?thesis using assms(3,4) by (simp add: Chain_Append_unprotected_def chain_accessors add.assoc)
qed

lemma Chain_Extract_frame:
  assumes "chain_rep m c (xs @ n # ys)" and "a \<notin> set (footprint c (xs @ n # ys))"
  shows "Chain_Extract_unprotected n m a = m a"
proof -
  have "last (c # xs) \<in> set (footprint c (xs @ n # ys))" "hd (ys @ [c + 8]) + 8 \<in> set (footprint c (xs @ n # ys))"
    using neighbour_cells(1) [of c xs] neighbour_cells(2) [of ys c]
    by (auto simp: footprint_def add.assoc simp del: last.simps)
  then show ?thesis using assms(2) chain_rep_middle [OF assms(1)]
    by (auto simp: Chain_Extract_unprotected_def chain_accessors)
qed

lemma chain_move_keeps_other:
  assumes "chain_rep m c (xs @ n # ys)" and "chain_rep m d zs"
    and "set (footprint c (xs @ n # ys)) \<inter> set (footprint d zs) = {}"
  defines "m' \<equiv> Chain_Append_unprotected d n (Chain_Extract_unprotected n m)"
  shows "chain_rep m' c (xs @ ys)" and "chain_rep m' d (zs @ [n])"
proof -
  let ?m = "Chain_Extract_unprotected n m"
  have c: "chain_rep ?m c (xs @ ys)" by (rule chain_rep_extract [OF assms(1)])
  have d: "chain_rep ?m d zs"
    using assms(2,3) Chain_Extract_frame [OF assms(1)] by (subst chain_rep_cong [of d zs ?m m]) auto
  have f: "chain_fresh d zs n" "n \<notin> set (footprint c (xs @ ys))" "n + 8 \<notin> set (footprint c (xs @ ys))"
    using assms(1,3) footprint_insert [of c xs n ys] by (auto simp: chain_fresh_def chain_rep_def) (auto simp: footprint_def)
  show "chain_rep m' d (zs @ [n])" unfolding m'_def by (rule Chain_Append_rep [OF d f(1)])
  have "set (footprint c (xs @ ys)) \<subseteq> set (footprint c (xs @ n # ys))" by (auto simp: footprint_def)
  then have "m' a = ?m a" if "a \<in> set (footprint c (xs @ ys))" for a
    unfolding m'_def using that f(2,3) assms(3) by (intro Chain_Append_frame [OF d]) blast+
  then show "chain_rep m' c (xs @ ys)" using c by (subst chain_rep_cong)
qed

section \<open>Pools of nodes\<close>

text \<open>The nodes of \<open>pool\<close> overlap neither the words \<open>F\<close> nor each other, and none is at zero.\<close>

definition nodes_ok :: "uintptr set \<Rightarrow> uintptr set \<Rightarrow> bool" where
  "nodes_ok F pool \<longleftrightarrow> (\<forall>t\<in>pool. t \<notin> F \<and> t + 8 \<notin> F \<and> t \<noteq> 0 \<and> t + 8 \<noteq> 0 \<and> (\<forall>u\<in>pool. t \<noteq> u + 8))"

lemma nodes_ok_fresh:
  assumes "nodes_ok F pool" and "set (footprint c []) \<subseteq> F" and "set xs \<subseteq> pool" and "t \<in> pool" and "t \<notin> set xs"
  shows "chain_fresh c xs t"
proof -
  have "\<And>u. u \<in> set xs \<Longrightarrow> t \<noteq> u + 8 \<and> u \<noteq> t + 8" using assms(1,3,4) by (auto simp: nodes_ok_def)
  moreover have "t \<notin> {c, c + 8, c + 16}" "t + 8 \<notin> {c, c + 8, c + 16}" "t \<noteq> 0" "t + 8 \<noteq> 0"
    using assms(1,4) subsetD [OF assms(2)] unfolding nodes_ok_def footprint_def append.simps list.set list.map by blast+
  ultimately show ?thesis using assms(5) unfolding chain_fresh_def footprint_def by (auto simp del: add_right_cancel)
qed

section \<open>Building a chain over an array\<close>

primrec array_nodes :: "uintptr \<Rightarrow> uint64 \<Rightarrow> nat \<Rightarrow> uintptr list" where
  "array_nodes a sz 0 = []"
| "array_nodes a sz (Suc n) = a # array_nodes (a + sz) sz n"

lemma array_nodes_nth: "i < n \<Longrightarrow> array_nodes a sz n ! i = a + of_nat i * sz"
  by (induction n arbitrary: a i) (auto simp: nth_Cons algebra_simps split: nat.split)

lemma array_nodes_length [simp]: "length (array_nodes a sz n) = n"
  by (induction n arbitrary: a) auto

lemma Chain_Initialize_loop_links:
  assumes "distinct (link_cells (cur # array_nodes a sz k))"
    and "Chain_Initialize_loop k sz cur a m = (cur', m')"
  shows "cur' = last (cur # array_nodes a sz k) \<and> links m' (cur # array_nodes a sz k)
     \<and> (\<forall>x. x \<notin> set (link_cells (cur # array_nodes a sz k)) \<longrightarrow> m' x = m x)"
  using assms
proof (induction k arbitrary: cur a m)
  case 0
  then show ?case by simp
next
  case (Suc k)
  let ?L = "array_nodes (a + sz) sz k" and ?m = "m(cur := a, a + 8 := cur)"
  have d: "distinct (link_cells (cur # a # ?L))" using Suc.prems(1) by simp
  note sp = link_cells_split [of "[]", unfolded append_Nil, OF d]
  have "link_cells [cur] = []" by (simp add: link_cells_def)
  then have cells: "set (link_cells (cur # a # ?L)) = {cur, a + 8} \<union> set (link_cells (a # ?L))"
    using sp(1) by simp
  have "distinct (link_cells (a # ?L))" using d by (auto simp: link_cells_Cons) (simp add: link_cells_def)
  moreover have "Chain_Initialize_loop k sz a (a + sz) ?m = (cur', m')"
    using Suc.prems(2) by (simp add: set_next_def set_previous_def)
  ultimately have IH: "cur' = last (a # ?L) \<and> links m' (a # ?L) \<and> (\<forall>x. x \<notin> set (link_cells (a # ?L)) \<longrightarrow> m' x = ?m x)"
    by (rule Suc.IH)
  then have "m' cur = a" "m' (a + 8) = cur" using sp(4,5,6) by auto
  then show ?case using IH cells by auto
qed

lemma Chain_Initialize_rep [chain_ops]:
  assumes "distinct (footprint c (array_nodes a sz (unat k)))"
    and "0 \<notin> set (footprint c (array_nodes a sz (unat k)))"
  shows "chain_rep (Chain_Initialize c a k sz m) c (array_nodes a sz (unat k))"
proof -
  let ?L = "array_nodes a sz (unat k)"
  obtain cur m' where loop: "Chain_Initialize_loop (unat k) sz c a (m(c + 8 := 0)) = (cur, m')"
    by (metis surj_pair)
  obtain A B where A: "c # ?L = A @ [last (c # ?L)]" by (metis append_butlast_last_id list.distinct(1))
  then have full: "c # ?L @ [c + 8] = A @ last (c # ?L) # (c + 8) # []"
    by (metis append.assoc append_Cons append_Nil)
  have d: "distinct (link_cells (A @ last (c # ?L) # (c + 8) # []))"
    unfolding full [symmetric] link_cells_chain using assms(1) by (auto simp: footprint_def)
  note sp = link_cells_split [OF d]
  have "distinct (link_cells (c # ?L))" using assms by (auto simp: footprint_def link_cells_def distinct_butlast dest: in_set_butlastD)
  from Chain_Initialize_loop_links [OF this loop]
  have cur: "cur = last (c # ?L)" and l: "links m' (c # ?L)"
    and fr: "x \<notin> set (link_cells (c # ?L)) \<Longrightarrow> m' x = (m(c + 8 := 0)) x" for x by auto
  have e: "Chain_Initialize c a k sz m = m'(cur := c + 8, c + 8 + 8 := cur)"
    using loop by (simp add: Chain_Initialize_def chain_accessors)
  have "links (m'(cur := c + 8, c + 8 + 8 := cur)) (A @ [cur])"
    using l sp(2,3) A cur by (simp add: links_frame del: fun_upd_apply links.simps)
  then have "links (Chain_Initialize c a k sz m) (c # ?L @ [c + 8])"
    unfolding e full cur [symmetric] links_append using sp(6) cur by simp
  moreover have "c + 8 \<notin> set (link_cells (c # ?L))" "c + 8 \<noteq> cur"
    using assms neighbour_cells(1) [of c ?L] cur
    by (auto simp: footprint_def link_cells_def dest: in_set_butlastD simp del: last.simps)
  then have "Chain_Initialize c a k sz m (c + 8) = NULL" unfolding e using fr by (simp add: NULL_def)
  ultimately show ?thesis using assms by (simp add: chain_rep_def)
qed

section \<open>Iterators that survive extraction\<close>




definition Chain_Iterator_registry_initialize :: "uintptr \<Rightarrow> chain_mem \<Rightarrow> chain_mem" where
  "Chain_Iterator_registry_initialize the_registry m = Chain_Initialize_empty the_registry m"





definition Chain_Iterator_destroy :: "uintptr \<Rightarrow> chain_mem \<Rightarrow> chain_mem" where
  "Chain_Iterator_destroy the_iterator m = Chain_Extract_unprotected the_iterator m"













section \<open>First in, first out\<close>

text \<open>
  A queue as its clients see it: \<open>rep s xs\<close> says that the state \<open>s\<close> holds the elements \<open>xs\<close>,
  \<open>ok xs x\<close> that \<open>x\<close> may be added to them.
\<close>

primrec deq_many :: "('s \<Rightarrow> 'a \<times> 's) \<Rightarrow> nat \<Rightarrow> 's \<Rightarrow> 'a list \<times> 's" where
  "deq_many deq 0 s = ([], s)"
| "deq_many deq (Suc n) s = (let (x, s) = deq s; (xs, s) = deq_many deq n s in (x # xs, s))"

primrec ok_all :: "('a list \<Rightarrow> 'a \<Rightarrow> bool) \<Rightarrow> 'a list \<Rightarrow> 'a list \<Rightarrow> bool" where
  "ok_all ok acc [] \<longleftrightarrow> True"
| "ok_all ok acc (x # xs) \<longleftrightarrow> ok acc x \<and> ok_all ok (acc @ [x]) xs"

locale fifo_queue =
  fixes rep :: "'s \<Rightarrow> 'a list \<Rightarrow> bool" and ok :: "'a list \<Rightarrow> 'a \<Rightarrow> bool"
    and enq :: "'a \<Rightarrow> 's \<Rightarrow> 's" and deq :: "'s \<Rightarrow> 'a \<times> 's"
  assumes enq_rep: "rep s xs \<Longrightarrow> ok xs x \<Longrightarrow> rep (enq x s) (xs @ [x])"
    and deq_rep: "rep s (x # xs) \<Longrightarrow> fst (deq s) = x \<and> rep (snd (deq s)) xs"
begin

lemma enq_all: "rep s ys \<Longrightarrow> ok_all ok ys xs \<Longrightarrow> rep (fold enq xs s) (ys @ xs)"
proof (induction xs arbitrary: s ys)
  case (Cons x xs)
  then have "rep (fold enq xs (enq x s)) ((ys @ [x]) @ xs)" by (intro Cons.IH enq_rep) auto
  then show ?case by simp
qed simp

lemma deq_prefix: "rep s (xs @ ys) \<Longrightarrow> fst (deq_many deq (length xs) s) = xs \<and> rep (snd (deq_many deq (length xs) s)) ys"
proof (induction xs arbitrary: s)
  case (Cons x xs)
  then have "fst (deq s) = x" "rep (snd (deq s)) (xs @ ys)" using deq_rep [of s x "xs @ ys"] by auto
  then show ?case using Cons.IH [of "snd (deq s)"] by (simp add: case_prod_beta Let_def)
qed simp

lemma fifo_order:
  assumes "rep s ys" and "ok_all ok ys xs"
  shows "fst (deq_many deq (length ys + length xs) (fold enq xs s)) = ys @ xs"
    and "rep (snd (deq_many deq (length ys + length xs) (fold enq xs s))) []"
  using enq_all [OF assms] deq_prefix [of "fold enq xs s" "ys @ xs" "[]"] by auto

end

interpretation chain_fifo: fifo_queue "\<lambda>m xs. chain_rep m c xs" "chain_fresh c"
    "Chain_Append_unprotected c" "Chain_Get_unprotected c" for c
  by unfold_locales (auto intro: Chain_Append_rep dest: Chain_Get_rep)

lemma ok_all_fresh:
  assumes "distinct (footprint c (ys @ xs))" and "0 \<notin> set (footprint c (ys @ xs))"
  shows "ok_all (chain_fresh c) ys xs"
  using assms
proof (induction xs arbitrary: ys)
  case (Cons x xs)
  have "chain_fresh c ys x" using Cons.prems by (auto simp: chain_fresh_def footprint_def)
  moreover have "ok_all (chain_fresh c) (ys @ [x]) xs" using Cons.prems by (intro Cons.IH) auto
  ultimately show ?case by simp
qed simp

section \<open>Properties\<close>

lemma sorted_insert_middle:
  assumes "sorted (map key xs)"
  shows "sorted (map key (takeWhile (\<lambda>x. \<not> key n \<le> key x) xs @ n # dropWhile (\<lambda>x. \<not> key n \<le> key x) xs))"
  using assms
proof (induction xs)
  case (Cons x xs)
  then show ?case using set_takeWhileD [of _ _ xs] by (auto dest: set_dropWhileD set_takeWhileD)
qed simp

text \<open>C32: a chain is a FIFO: nodes appended one after another to a freshly initialised chain are
  handed out by \<^verbatim>\<open>_Chain_Get_unprotected\<close> in the order of the appends, after which the chain
  is empty and yields the null pointer.\<close>

theorem Chain_fifo:
  fixes m :: chain_mem
  assumes "distinct (footprint c ns)" and "0 \<notin> set (footprint c ns)"
  defines "m1 \<equiv> fold (Chain_Append_unprotected c) ns (Chain_Initialize_empty c m)"
  shows "fst (deq_many (Chain_Get_unprotected c) (length ns) m1) = ns
    \<and> Chain_Is_empty (snd (deq_many (Chain_Get_unprotected c) (length ns) m1)) c
    \<and> fst (Chain_Get_unprotected c (snd (deq_many (Chain_Get_unprotected c) (length ns) m1))) = NULL"
proof -
  have "chain_rep (Chain_Initialize_empty c m) c []"
    using assms(1,2) by (intro Chain_Initialize_empty_rep) (auto simp: footprint_def)
  moreover have "ok_all (chain_fresh c) [] ns" using assms(1,2) ok_all_fresh [of c "[]" ns] by simp
  ultimately have "fst (deq_many (Chain_Get_unprotected c) (length ns) m1) = ns"
    and r: "chain_rep (snd (deq_many (Chain_Get_unprotected c) (length ns) m1)) c []"
    using chain_fifo.fifo_order [where ys = "[]" and xs = ns and c = c] by (auto simp: m1_def)
  then show ?thesis using Chain_Is_empty_rep [OF r] Chain_Get_rep [OF r] by simp
qed

theorem Chain_fifo_witness:
  "fst (deq_many (Chain_Get_unprotected 4096) (length [8192 :: uintptr, 8208, 8224])
     (fold (Chain_Append_unprotected 4096) [8192, 8208, 8224] (Chain_Initialize_empty 4096 (\<lambda>_. 0))))
   = [8192, 8208, 8224]"
  by (rule Chain_fifo [THEN conjunct1]; code_simp)

text \<open>C33: \<^verbatim>\<open>_Chain_Insert_ordered_unprotected\<close> ends on every chain and puts the new node before the
  first node that the order accepts; with the order "not greater key first" a chain sorted by key
  stays sorted and holds exactly one more node.\<close>

theorem Chain_Insert_ordered_sorted:
  fixes key :: "uintptr \<Rightarrow> uint64"
  assumes "chain_rep m c xs" and "chain_fresh c xs n" and "sorted (map key xs)"
  shows "\<exists>m' ys. Chain_Insert_ordered_unprotected c n n (\<lambda>l x. key l \<le> key x) m = Some m'
    \<and> chain_rep m' c ys \<and> sorted (map key ys) \<and> set ys = insert n (set xs)
    \<and> length ys = Suc (length xs) \<and> filter (\<lambda>x. x \<noteq> n) ys = xs"
proof -
  let ?b = "takeWhile (\<lambda>x. \<not> key n \<le> key x) xs" and ?r = "dropWhile (\<lambda>x. \<not> key n \<le> key x) xs"
  obtain m' where "Chain_Insert_ordered_unprotected c n n (\<lambda>l x. key l \<le> key x) m = Some m'"
    and "chain_rep m' c (?b @ n # ?r)"
    using Chain_Insert_ordered_rep [OF assms(1,2), where order = "\<lambda>l x. key l \<le> key x" and left = n] by blast
  moreover have "set (?b @ n # ?r) = insert n (set xs)" "length (?b @ n # ?r) = Suc (length xs)"
    using arg_cong [OF takeWhile_dropWhile_id [of "\<lambda>x. \<not> key n \<le> key x" xs], of set, unfolded set_append]
      arg_cong [OF takeWhile_dropWhile_id [of "\<lambda>x. \<not> key n \<le> key x" xs], of length, unfolded length_append] by auto
  moreover have "n \<notin> set xs" using assms(2) by (auto simp: chain_fresh_def footprint_def)
  then have "filter (\<lambda>x. x \<noteq> n) xs = xs" by (auto simp: filter_id_conv)
  then have "filter (\<lambda>x. x \<noteq> n) (?b @ n # ?r) = xs"
    using arg_cong [OF takeWhile_dropWhile_id [of "\<lambda>x. \<not> key n \<le> key x" xs], of "filter (\<lambda>x. x \<noteq> n)", unfolded filter_append] by simp
  ultimately show ?thesis using sorted_insert_middle [OF assms(3), of n] by blast
qed

theorem Chain_Insert_ordered_sorted_witness:
  "\<exists>m' ys. Chain_Insert_ordered_unprotected 4096 8208 8208 (\<lambda>l x. l \<le> x)
       (Chain_Initialize_one 4096 8192 (\<lambda>_. 0)) = Some m'
    \<and> chain_rep m' 4096 ys \<and> sorted (map (\<lambda>x. x) ys) \<and> set ys = insert 8208 (set [8192])
    \<and> length ys = Suc (length [8192 :: uintptr]) \<and> filter (\<lambda>x. x \<noteq> 8208) ys = [8192]"
  by (rule Chain_Insert_ordered_sorted [where key = "\<lambda>x. x"]; code_simp)

text \<open>moving a node from one chain to another (\<^verbatim>\<open>_Chain_Extract_unprotected\<close>, then
  \<^verbatim>\<open>_Chain_Append_unprotected\<close>) removes exactly this node from the first chain and adds it at
  the end of the second, and disturbs nothing else on either chain.\<close>

theorem Chain_move:
  assumes "chain_rep m c (xs @ n # ys)" and "chain_rep m d zs"
    and "set (footprint c (xs @ n # ys)) \<inter> set (footprint d zs) = {}"
  shows "chain_rep (Chain_Append_unprotected d n (Chain_Extract_unprotected n m)) c (xs @ ys)
    \<and> chain_rep (Chain_Append_unprotected d n (Chain_Extract_unprotected n m)) d (zs @ [n])"
  using chain_move_keeps_other [OF assms] by simp

theorem Chain_move_witness:
  "chain_rep (Chain_Append_unprotected 5000 8192 (Chain_Extract_unprotected 8192
       (Chain_Initialize_one 4096 8192 (Chain_Initialize_one 5000 9000 (\<lambda>_. 0))))) 4096 ([] @ [])
    \<and> chain_rep (Chain_Append_unprotected 5000 8192 (Chain_Extract_unprotected 8192
       (Chain_Initialize_one 4096 8192 (Chain_Initialize_one 5000 9000 (\<lambda>_. 0))))) 5000 ([9000] @ [8192])"
  by (rule Chain_move; code_simp)



text \<open>\<^verbatim>\<open>_Chain_Initialize\<close> threads an array into a chain: element \<open>i\<close> of the chain is at offset
  \<open>i * node_size\<close>, and \<^verbatim>\<open>_Chain_Node_count_unprotected\<close> returns the number of nodes.\<close>

theorem Chain_Initialize_array:
  assumes "distinct (footprint c (array_nodes a sz (unat k)))"
    and "0 \<notin> set (footprint c (array_nodes a sz (unat k)))"
  shows "chain_rep (Chain_Initialize c a k sz m) c (map (\<lambda>i. a + of_nat i * sz) [0..<unat k])
    \<and> Chain_Node_count_unprotected (Chain_Initialize c a k sz m) c = Some k"
proof -
  have "array_nodes a sz (unat k) = map (\<lambda>i. a + of_nat i * sz) [0..<unat k]"
    by (rule nth_equalityI) (simp_all add: array_nodes_nth)
  then show ?thesis
    using Chain_Initialize_rep [OF assms, of m] Chain_Node_count_rep [OF Chain_Initialize_rep [OF assms, of m]]
    by (simp add: of_nat_unat_id)
qed

theorem Chain_Initialize_array_witness:
  "chain_rep (Chain_Initialize 4096 8192 3 32 (\<lambda>_. 0)) 4096 (map (\<lambda>i. 8192 + of_nat i * 32) [0..<unat (3 :: uint64)])
    \<and> Chain_Node_count_unprotected (Chain_Initialize 4096 8192 3 32 (\<lambda>_. 0)) 4096 = Some 3"
  by (rule Chain_Initialize_array; code_simp)

end
