(* ===== verification/Heap.thy ===== *)
theory Heap
  imports RTEMS_Prelude
begin

text \<open>
  The Heap Handler (\<^verbatim>\<open>score/heap.h\<close>, \<^verbatim>\<open>heapimpl.h\<close> and \<^verbatim>\<open>score/src/heap*.c\<close>), for a target
  with 64-bit pointers and without \<^verbatim>\<open>HEAP_PROTECTION\<close>.

  Block headers are C objects of type \<^verbatim>\<open>Heap_Block\<close>, found through their address: the memory is
  a map from addresses to records of the four header fields. Two live headers never overlap, since
  a header has 32 bytes and every block has at least \<^verbatim>\<open>min_block_size\<close> bytes, which is at least
  32; the invariant of the companion theory proves this for every state the operations reach.
  The field \<open>free_list\<close> of the control record is the address of the embedded list anchor, whose
  links live in the same memory. Pointers and sizes are machine words and wrap.
\<close>

section \<open>Data\<close>

record Heap_Block =
  prev_size :: uintptr
  size_and_flag :: uintptr
  nextb :: uintptr
  prevb :: uintptr

type_synonym hmem = "uintptr \<Rightarrow> Heap_Block"

record Heap_Statistics =
  lifetime_allocated :: uint64
  lifetime_freed :: uint64
  stats_size :: uintptr
  free_size :: uintptr
  min_free_size :: uintptr
  free_blocks :: uint32
  max_free_blocks :: uint32
  used_blocks :: uint32
  max_search :: uint32
  searches :: uint32
  allocs :: uint32
  failed_allocs :: uint32
  frees :: uint32
  resizes :: uint32

record Heap_Control =
  free_list :: uintptr
  page_size :: uintptr
  min_block_size :: uintptr
  area_begin :: uintptr
  area_end :: uintptr
  first_block :: uintptr
  last_block :: uintptr
  stats :: Heap_Statistics

record Heap_Information =
  number :: uintptr
  largest :: uintptr
  total :: uintptr

record Heap_Information_block =
  Free_info :: Heap_Information
  Used_info :: Heap_Information
  Stats_info :: Heap_Statistics

datatype Heap_Resize_status =
  HEAP_RESIZE_SUCCESSFUL | HEAP_RESIZE_UNSATISFIED | HEAP_RESIZE_FATAL_ERROR

definition HEAP_BLOCK_HEADER_SIZE :: uintptr where
  "HEAP_BLOCK_HEADER_SIZE = 16"

definition HEAP_ALLOC_BONUS :: uintptr where
  "HEAP_ALLOC_BONUS = 8"

definition HEAP_PREV_BLOCK_USED :: uintptr where
  "HEAP_PREV_BLOCK_USED = 1"

definition CPU_ALIGNMENT :: uintptr where
  "CPU_ALIGNMENT = 8"

definition sizeof_Heap_Block :: uintptr where
  "sizeof_Heap_Block = 32"

text \<open>Assignments to one field of the object at an address.\<close>

definition set_prev_size :: "uintptr \<Rightarrow> uintptr \<Rightarrow> hmem \<Rightarrow> hmem" where
  "set_prev_size b v m = m(b := (m b)\<lparr>prev_size := v\<rparr>)"

definition set_size_and_flag :: "uintptr \<Rightarrow> uintptr \<Rightarrow> hmem \<Rightarrow> hmem" where
  "set_size_and_flag b v m = m(b := (m b)\<lparr>size_and_flag := v\<rparr>)"

definition set_nextb :: "uintptr \<Rightarrow> uintptr \<Rightarrow> hmem \<Rightarrow> hmem" where
  "set_nextb b v m = m(b := (m b)\<lparr>nextb := v\<rparr>)"

definition set_prevb :: "uintptr \<Rightarrow> uintptr \<Rightarrow> hmem \<Rightarrow> hmem" where
  "set_prevb b v m = m(b := (m b)\<lparr>prevb := v\<rparr>)"

section \<open>Inline routines\<close>

definition Heap_Free_list_head :: "Heap_Control \<Rightarrow> uintptr" where
  "Heap_Free_list_head heap = free_list heap"

definition Heap_Free_list_tail :: "Heap_Control \<Rightarrow> uintptr" where
  "Heap_Free_list_tail heap = free_list heap"

definition Heap_Free_list_first :: "Heap_Control \<Rightarrow> hmem \<Rightarrow> uintptr" where
  "Heap_Free_list_first heap m = nextb (m (Heap_Free_list_head heap))"

definition Heap_Free_list_last :: "Heap_Control \<Rightarrow> hmem \<Rightarrow> uintptr" where
  "Heap_Free_list_last heap m = prevb (m (Heap_Free_list_tail heap))"

definition Heap_Free_list_remove :: "uintptr \<Rightarrow> hmem \<Rightarrow> hmem" where
  "Heap_Free_list_remove block m =
     (let nxt = nextb (m block); prv = prevb (m block);
          m = set_nextb prv nxt m
      in set_prevb nxt prv m)"

definition Heap_Free_list_replace :: "uintptr \<Rightarrow> uintptr \<Rightarrow> hmem \<Rightarrow> hmem" where
  "Heap_Free_list_replace old_block new_block m =
     (let nxt = nextb (m old_block); prv = prevb (m old_block);
          m = set_nextb new_block nxt m;
          m = set_prevb new_block prv m;
          m = set_prevb nxt new_block m
      in set_nextb prv new_block m)"

definition Heap_Free_list_insert_after :: "uintptr \<Rightarrow> uintptr \<Rightarrow> hmem \<Rightarrow> hmem" where
  "Heap_Free_list_insert_after block_before new_block m =
     (let nxt = nextb (m block_before);
          m = set_nextb new_block nxt m;
          m = set_prevb new_block block_before m;
          m = set_nextb block_before new_block m
      in set_prevb nxt new_block m)"

definition Heap_Free_list_insert_before :: "uintptr \<Rightarrow> uintptr \<Rightarrow> hmem \<Rightarrow> hmem" where
  "Heap_Free_list_insert_before block_next new_block m =
     (let prv = prevb (m block_next);
          m = set_nextb new_block block_next m;
          m = set_prevb new_block prv m;
          m = set_nextb prv new_block m
      in set_prevb block_next new_block m)"

definition Heap_Is_aligned :: "uintptr \<Rightarrow> uintptr \<Rightarrow> bool" where
  "Heap_Is_aligned v alignment \<longleftrightarrow> v mod alignment = 0"

definition Heap_Align_up :: "uintptr \<Rightarrow> uintptr \<Rightarrow> uintptr" where
  "Heap_Align_up v alignment =
     (let remainder = v mod alignment
      in if remainder \<noteq> 0 then v - remainder + alignment else v)"

definition Heap_Align_down :: "uintptr \<Rightarrow> uintptr \<Rightarrow> uintptr" where
  "Heap_Align_down v alignment = v - v mod alignment"

definition Heap_Min_block_size :: "uintptr \<Rightarrow> uintptr" where
  "Heap_Min_block_size pg = Heap_Align_up sizeof_Heap_Block pg"

definition Heap_Block_at :: "uintptr \<Rightarrow> uintptr \<Rightarrow> uintptr" where
  "Heap_Block_at block offset = block + offset"

definition Heap_Prev_block :: "hmem \<Rightarrow> uintptr \<Rightarrow> uintptr" where
  "Heap_Prev_block m block = block - prev_size (m block)"

definition Heap_Alloc_area_of_block :: "uintptr \<Rightarrow> uintptr" where
  "Heap_Alloc_area_of_block block = block + HEAP_BLOCK_HEADER_SIZE"

definition Heap_Block_of_alloc_area :: "uintptr \<Rightarrow> uintptr \<Rightarrow> uintptr" where
  "Heap_Block_of_alloc_area alloc_begin pg = Heap_Align_down alloc_begin pg - HEAP_BLOCK_HEADER_SIZE"

definition Heap_Block_size :: "hmem \<Rightarrow> uintptr \<Rightarrow> uintptr" where
  "Heap_Block_size m block = size_and_flag (m block) AND NOT HEAP_PREV_BLOCK_USED"

definition Heap_Block_set_size :: "uintptr \<Rightarrow> uintptr \<Rightarrow> hmem \<Rightarrow> hmem" where
  "Heap_Block_set_size block sz m =
     (let flag = size_and_flag (m block) AND HEAP_PREV_BLOCK_USED
      in set_size_and_flag block (sz OR flag) m)"

definition Heap_Is_prev_used :: "hmem \<Rightarrow> uintptr \<Rightarrow> bool" where
  "Heap_Is_prev_used m block \<longleftrightarrow> size_and_flag (m block) AND HEAP_PREV_BLOCK_USED \<noteq> 0"

definition Heap_Is_used :: "hmem \<Rightarrow> uintptr \<Rightarrow> bool" where
  "Heap_Is_used m block =
     (let next_block = Heap_Block_at block (Heap_Block_size m block) in Heap_Is_prev_used m next_block)"

definition Heap_Is_free :: "hmem \<Rightarrow> uintptr \<Rightarrow> bool" where
  "Heap_Is_free m block \<longleftrightarrow> \<not> Heap_Is_used m block"

definition Heap_Is_block_in_heap :: "Heap_Control \<Rightarrow> uintptr \<Rightarrow> bool" where
  "Heap_Is_block_in_heap heap block \<longleftrightarrow> block \<ge> first_block heap \<and> block \<le> last_block heap"

definition Heap_Set_last_block_size :: "Heap_Control \<Rightarrow> hmem \<Rightarrow> hmem" where
  "Heap_Set_last_block_size heap m =
     Heap_Block_set_size (last_block heap) (first_block heap - last_block heap) m"

definition Heap_Get_size :: "Heap_Control \<Rightarrow> uintptr" where
  "Heap_Get_size heap = stats_size (stats heap)"

definition Heap_Max :: "uintptr \<Rightarrow> uintptr \<Rightarrow> uintptr" where
  "Heap_Max a b = (if a > b then a else b)"

definition Heap_Min :: "uintptr \<Rightarrow> uintptr \<Rightarrow> uintptr" where
  "Heap_Min a b = (if a < b then a else b)"

section \<open>Initialisation\<close>

definition Heap_Get_first_and_last_block ::
    "uintptr \<Rightarrow> uintptr \<Rightarrow> uintptr \<Rightarrow> uintptr \<Rightarrow> (uintptr \<times> uintptr) option" where
  "Heap_Get_first_and_last_block heap_area_begin heap_area_size pg min_size =
     (let heap_area_end = heap_area_begin + heap_area_size;
          alloc_area_begin = Heap_Align_up (heap_area_begin + HEAP_BLOCK_HEADER_SIZE) pg;
          first_block_begin = alloc_area_begin - HEAP_BLOCK_HEADER_SIZE;
          overhead = HEAP_BLOCK_HEADER_SIZE + (first_block_begin - heap_area_begin);
          first_block_size = Heap_Align_down (heap_area_size - overhead) pg;
          last_block_begin = Heap_Block_at first_block_begin first_block_size
      in if heap_area_end < heap_area_begin \<or> heap_area_size \<le> overhead \<or> first_block_size < min_size
         then None
         else Some (first_block_begin, last_block_begin))"

definition zero_stats :: Heap_Statistics where
  "zero_stats = \<lparr>lifetime_allocated = 0, lifetime_freed = 0, stats_size = 0, free_size = 0,
     min_free_size = 0, free_blocks = 0, max_free_blocks = 0, used_blocks = 0, max_search = 0,
     searches = 0, allocs = 0, failed_allocs = 0, frees = 0, resizes = 0\<rparr>"

text \<open>The address of the control object is that of its \<open>free_list\<close> member.\<close>

definition Heap_Initialize ::
    "Heap_Control \<Rightarrow> uintptr \<Rightarrow> uintptr \<Rightarrow> uintptr \<Rightarrow> hmem \<Rightarrow> uintptr \<times> Heap_Control \<times> hmem" where
  "Heap_Initialize heap heap_area_begin heap_area_size pg m =
     (let heap_area_end = heap_area_begin + heap_area_size;
          overflow = pg \<noteq> 0 \<and> Heap_Align_up pg CPU_ALIGNMENT < CPU_ALIGNMENT;
          pg = (if pg = 0 then CPU_ALIGNMENT else Heap_Align_up pg CPU_ALIGNMENT)
      in if overflow then (0, heap, m)
      else let min_size = Heap_Min_block_size pg
      in case Heap_Get_first_and_last_block heap_area_begin heap_area_size pg min_size of
           None \<Rightarrow> (0, heap, m)
         | Some (first_block_begin, last_block_begin) \<Rightarrow>
             let fl = free_list heap;
                 m = m(fl := \<lparr>prev_size = 0, size_and_flag = 0, nextb = 0, prevb = 0\<rparr>);
                 first_block_size = last_block_begin - first_block_begin;
                 m = set_prev_size first_block_begin heap_area_end m;
                 m = set_size_and_flag first_block_begin (first_block_size OR HEAP_PREV_BLOCK_USED) m;
                 m = set_nextb first_block_begin fl m;
                 m = set_prevb first_block_begin fl m;
                 heap = \<lparr>free_list = fl, page_size = pg, min_block_size = min_size,
                         area_begin = heap_area_begin, area_end = heap_area_end,
                         first_block = first_block_begin, last_block = last_block_begin,
                         stats = zero_stats\<rparr>;
                 m = set_nextb (Heap_Free_list_head heap) first_block_begin m;
                 m = set_prevb (Heap_Free_list_tail heap) first_block_begin m;
                 m = set_prev_size last_block_begin first_block_size m;
                 m = set_size_and_flag last_block_begin 0 m;
                 m = Heap_Set_last_block_size heap m;
                 heap = heap\<lparr>stats := (stats heap)\<lparr>stats_size := first_block_size,
                          free_size := first_block_size, min_free_size := first_block_size,
                          free_blocks := 1, max_free_blocks := 1\<rparr>\<rparr>
             in (first_block_size, heap, m))"

definition Heap_Area_overhead :: "uintptr \<Rightarrow> uintptr" where
  "Heap_Area_overhead pg =
     (let pg = (if pg \<noteq> 0 then Heap_Align_up pg CPU_ALIGNMENT else CPU_ALIGNMENT)
      in 2 * (pg - 1) + HEAP_BLOCK_HEADER_SIZE)"

definition Heap_Size_with_overhead :: "uintptr \<Rightarrow> uintptr \<Rightarrow> uintptr \<Rightarrow> uintptr" where
  "Heap_Size_with_overhead pg sz alignment =
     (let pg = (if pg \<noteq> 0 then Heap_Align_up pg CPU_ALIGNMENT else CPU_ALIGNMENT);
          pg = (if pg < alignment then alignment else pg)
      in HEAP_BLOCK_HEADER_SIZE + pg - 1 + sz)"

section \<open>Allocation\<close>

definition upd_stats :: "(Heap_Statistics \<Rightarrow> Heap_Statistics) \<Rightarrow> Heap_Control \<Rightarrow> Heap_Control" where
  "upd_stats f heap = heap\<lparr>stats := f (stats heap)\<rparr>"

definition Heap_Block_split ::
    "Heap_Control \<Rightarrow> uintptr \<Rightarrow> uintptr \<Rightarrow> uintptr \<Rightarrow> hmem \<Rightarrow> Heap_Control \<times> hmem" where
  "Heap_Block_split heap block free_list_anchor alloc_size m =
     (let min_alloc_size = min_block_size heap - HEAP_BLOCK_HEADER_SIZE;
          block_size = Heap_Block_size m block;
          used_size = Heap_Max alloc_size min_alloc_size + HEAP_BLOCK_HEADER_SIZE;
          used_block_size = Heap_Align_up used_size (page_size heap);
          free_sz = block_size + HEAP_ALLOC_BONUS - used_size;
          free_size_limit = min_block_size heap + HEAP_ALLOC_BONUS;
          next_block = Heap_Block_at block block_size
      in if free_sz \<ge> free_size_limit
         then let free_block = Heap_Block_at block used_block_size;
                  free_block_size = block_size - used_block_size;
                  m = Heap_Block_set_size block used_block_size m;
                  heap = upd_stats (\<lambda>s. s\<lparr>free_size := free_size s + free_block_size\<rparr>) heap;
                  (heap, m, free_block_size, next_block) =
                    (if Heap_Is_used m next_block
                     then (upd_stats (\<lambda>s. s\<lparr>free_blocks := free_blocks s + 1\<rparr>) heap,
                           Heap_Free_list_insert_after free_list_anchor free_block m,
                           free_block_size, next_block)
                     else let next_block_size = Heap_Block_size m next_block;
                              m = Heap_Free_list_replace next_block free_block m;
                              free_block_size = free_block_size + next_block_size
                          in (heap, m, free_block_size, Heap_Block_at free_block free_block_size));
                  m = set_size_and_flag free_block (free_block_size OR HEAP_PREV_BLOCK_USED) m;
                  m = set_prev_size next_block free_block_size m;
                  m = set_size_and_flag next_block (size_and_flag (m next_block) AND NOT HEAP_PREV_BLOCK_USED) m
              in (heap, m)
         else (heap, set_size_and_flag next_block (size_and_flag (m next_block) OR HEAP_PREV_BLOCK_USED) m))"

definition Heap_Block_allocate_from_begin ::
    "Heap_Control \<Rightarrow> uintptr \<Rightarrow> uintptr \<Rightarrow> uintptr \<Rightarrow> hmem \<Rightarrow> uintptr \<times> Heap_Control \<times> hmem" where
  "Heap_Block_allocate_from_begin heap block free_list_anchor alloc_size m =
     (let (heap, m) = Heap_Block_split heap block free_list_anchor alloc_size m in (block, heap, m))"

definition Heap_Block_allocate_from_end ::
    "Heap_Control \<Rightarrow> uintptr \<Rightarrow> uintptr \<Rightarrow> uintptr \<Rightarrow> uintptr \<Rightarrow> hmem \<Rightarrow> uintptr \<times> Heap_Control \<times> hmem" where
  "Heap_Block_allocate_from_end heap block free_list_anchor alloc_begin alloc_size m =
     (let block_begin = block;
          block_size = Heap_Block_size m block;
          block_end = block_begin + block_size;
          new_block = Heap_Block_of_alloc_area alloc_begin (page_size heap);
          new_block_size = block_end - new_block;
          block_end = new_block;
          block_size = block_end - block_begin;
          heap = upd_stats (\<lambda>s. s\<lparr>free_size := free_size s + block_size\<rparr>) heap;
          (heap, m, block, free_list_anchor, block_size) =
            (if Heap_Is_prev_used m block
             then (upd_stats (\<lambda>s. s\<lparr>free_blocks := free_blocks s + 1\<rparr>) heap,
                   Heap_Free_list_insert_after free_list_anchor block m, block, block, block_size)
             else let prev_block = Heap_Prev_block m block;
                      prev_block_size = Heap_Block_size m prev_block
                  in (heap, m, prev_block, free_list_anchor, block_size + prev_block_size));
          m = set_size_and_flag block (block_size OR HEAP_PREV_BLOCK_USED) m;
          m = set_prev_size new_block block_size m;
          m = set_size_and_flag new_block new_block_size m;
          (heap, m) = Heap_Block_split heap new_block free_list_anchor alloc_size m
      in (new_block, heap, m))"

definition Heap_Block_allocate ::
    "Heap_Control \<Rightarrow> uintptr \<Rightarrow> uintptr \<Rightarrow> uintptr \<Rightarrow> hmem \<Rightarrow> uintptr \<times> Heap_Control \<times> hmem" where
  "Heap_Block_allocate heap block alloc_begin alloc_size m =
     (let alloc_area_begin = Heap_Alloc_area_of_block block;
          alloc_area_offset = alloc_begin - alloc_area_begin;
          (heap, m, free_list_anchor) =
            (if Heap_Is_free m block
             then (upd_stats (\<lambda>s. s\<lparr>free_blocks := free_blocks s - 1, used_blocks := used_blocks s + 1,
                        free_size := free_size s - Heap_Block_size m block\<rparr>) heap,
                   Heap_Free_list_remove block m, prevb (m block))
             else (heap, m, Heap_Free_list_head heap));
          (block, heap, m) =
            (if alloc_area_offset < page_size heap
             then Heap_Block_allocate_from_begin heap block free_list_anchor (alloc_size + alloc_area_offset) m
             else Heap_Block_allocate_from_end heap block free_list_anchor alloc_begin alloc_size m);
          heap = upd_stats (\<lambda>s. if min_free_size s > free_size s
                                then s\<lparr>min_free_size := free_size s\<rparr> else s) heap
      in (block, heap, m))"

text \<open>
  The loop of \<^verbatim>\<open>_Heap_Check_block\<close> that moves the area below the next boundary line: \<open>Inl 0\<close> is
  the \<^verbatim>\<open>return 0\<close> inside the loop, \<open>Inr\<close> the value of \<open>alloc_begin\<close> after it. The loop may not
  end for arbitrary arguments, and is \<open>None\<close> then.
\<close>

partial_function (option) Heap_boundary_loop ::
    "uintptr \<Rightarrow> uintptr \<Rightarrow> uintptr \<Rightarrow> uintptr \<Rightarrow> uintptr \<Rightarrow> uintptr \<Rightarrow> uintptr \<Rightarrow> (uintptr + uintptr) option" where
  "Heap_boundary_loop alloc_size alignment boundary boundary_floor alloc_begin alloc_end boundary_line =
     (if alloc_begin < boundary_line \<and> boundary_line < alloc_end
      then if boundary_line < boundary_floor then Some (Inl 0)
           else let alloc_begin = boundary_line - alloc_size;
                    alloc_begin = Heap_Align_down alloc_begin alignment;
                    alloc_end = alloc_begin + alloc_size;
                    boundary_line = Heap_Align_down alloc_end boundary
                in Heap_boundary_loop alloc_size alignment boundary boundary_floor
                     alloc_begin alloc_end boundary_line
      else Some (Inr alloc_begin))"

definition Heap_Check_block ::
    "Heap_Control \<Rightarrow> uintptr \<Rightarrow> uintptr \<Rightarrow> uintptr \<Rightarrow> uintptr \<Rightarrow> hmem \<Rightarrow> uintptr option" where
  "Heap_Check_block heap block alloc_size alignment boundary m =
     (let block_begin = block;
          block_size = Heap_Block_size m block;
          block_end = block_begin + block_size;
          alloc_begin_floor = Heap_Alloc_area_of_block block;
          alloc_begin_ceiling = block_end - min_block_size heap + HEAP_BLOCK_HEADER_SIZE + page_size heap - 1;
          alloc_end = block_end + HEAP_ALLOC_BONUS;
          alloc_begin = alloc_end - alloc_size;
          alloc_begin = Heap_Align_down alloc_begin alignment;
          alloc_begin = (if alloc_begin > alloc_begin_ceiling
                         then Heap_Align_down alloc_begin_ceiling alignment else alloc_begin);
          alloc_end = alloc_begin + alloc_size;
          r = (if boundary \<noteq> 0
               then Heap_boundary_loop alloc_size alignment boundary (alloc_begin_floor + alloc_size)
                      alloc_begin alloc_end (Heap_Align_down alloc_end boundary)
               else Some (Inr alloc_begin))
      in case r of
           None \<Rightarrow> None
         | Some (Inl v) \<Rightarrow> Some v
         | Some (Inr alloc_begin) \<Rightarrow>
             if alloc_begin \<ge> alloc_begin_floor
             then let alloc_block_begin = Heap_Block_of_alloc_area alloc_begin (page_size heap);
                      free_sz = alloc_block_begin - block_begin
                  in if free_sz \<ge> min_block_size heap \<or> free_sz = 0 then Some alloc_begin else Some 0
             else Some 0)"

text \<open>The search of the free list: the block found, the \<open>alloc_begin\<close> and the search count.\<close>

partial_function (option) Heap_search_loop ::
    "Heap_Control \<Rightarrow> uintptr \<Rightarrow> uintptr \<Rightarrow> uintptr \<Rightarrow> uintptr \<Rightarrow> hmem \<Rightarrow> uintptr \<Rightarrow> uint32
      \<Rightarrow> (uintptr \<times> uintptr \<times> uint32) option" where
  "Heap_search_loop heap alloc_size block_size_floor alignment boundary m block search_count =
     (if block \<noteq> Heap_Free_list_tail heap
      then case (if size_and_flag (m block) > block_size_floor
                 then if alignment = 0 then Some (Heap_Alloc_area_of_block block)
                      else Heap_Check_block heap block alloc_size alignment boundary m
                 else Some 0) of
             None \<Rightarrow> None
           | Some alloc_begin \<Rightarrow>
               let search_count = search_count + 1
               in if alloc_begin \<noteq> 0 then Some (block, alloc_begin, search_count)
                  else Heap_search_loop heap alloc_size block_size_floor alignment boundary m
                         (nextb (m block)) search_count
      else Some (block, 0, search_count))"

definition Heap_Allocate_aligned_with_boundary ::
    "Heap_Control \<Rightarrow> uintptr \<Rightarrow> uintptr \<Rightarrow> uintptr \<Rightarrow> hmem \<Rightarrow> (uintptr \<times> Heap_Control \<times> hmem) option" where
  "Heap_Allocate_aligned_with_boundary heap alloc_size alignment boundary m =
     (let block_size_floor = alloc_size + HEAP_BLOCK_HEADER_SIZE - HEAP_ALLOC_BONUS
      in if block_size_floor < alloc_size then Some (0, heap, m)
      else if boundary \<noteq> 0 \<and> boundary < alloc_size then Some (0, heap, m)
      else let alignment = (if boundary \<noteq> 0 \<and> alignment = 0 then page_size heap else alignment)
      in case Heap_search_loop heap alloc_size block_size_floor alignment boundary m
                (Heap_Free_list_first heap m) 0 of
           None \<Rightarrow> None
         | Some (block, alloc_begin, search_count) \<Rightarrow>
             let (heap, m) =
                   (if alloc_begin \<noteq> 0
                    then let (block, heap, m) = Heap_Block_allocate heap block alloc_begin alloc_size m
                         in (upd_stats (\<lambda>s. s\<lparr>allocs := allocs s + 1, searches := searches s + search_count,
                                lifetime_allocated := lifetime_allocated s + Heap_Block_size m block\<rparr>) heap, m)
                    else (upd_stats (\<lambda>s. s\<lparr>failed_allocs := failed_allocs s + 1\<rparr>) heap, m));
                 heap = upd_stats (\<lambda>s. if max_search s < search_count
                                       then s\<lparr>max_search := search_count\<rparr> else s) heap
             in Some (alloc_begin, heap, m))"

definition Heap_Allocate_aligned ::
    "Heap_Control \<Rightarrow> uintptr \<Rightarrow> uintptr \<Rightarrow> hmem \<Rightarrow> (uintptr \<times> Heap_Control \<times> hmem) option" where
  "Heap_Allocate_aligned heap sz alignment m = Heap_Allocate_aligned_with_boundary heap sz alignment 0 m"

definition Heap_Allocate :: "Heap_Control \<Rightarrow> uintptr \<Rightarrow> hmem \<Rightarrow> (uintptr \<times> Heap_Control \<times> hmem) option" where
  "Heap_Allocate heap sz m = Heap_Allocate_aligned_with_boundary heap sz 0 0 m"

section \<open>Deallocation, resizing and extension\<close>

definition Heap_Free :: "Heap_Control \<Rightarrow> uintptr \<Rightarrow> hmem \<Rightarrow> bool \<times> Heap_Control \<times> hmem" where
  "Heap_Free heap alloc_begin m =
     (if alloc_begin = 0 then (True, heap, m)
      else let block = Heap_Block_of_alloc_area alloc_begin (page_size heap)
      in if \<not> Heap_Is_block_in_heap heap block then (False, heap, m)
      else let block_size = Heap_Block_size m block;
               next_block = Heap_Block_at block block_size
      in if \<not> Heap_Is_block_in_heap heap next_block then (False, heap, m)
      else if \<not> Heap_Is_prev_used m next_block then (False, heap, m)
      else let next_block_size = Heap_Block_size m next_block;
               next_is_free = (next_block \<noteq> last_block heap
                 \<and> \<not> Heap_Is_prev_used m (Heap_Block_at next_block next_block_size));
               finish = (\<lambda>heap. upd_stats (\<lambda>s. s\<lparr>used_blocks := used_blocks s - 1, frees := frees s + 1,
                            free_size := free_size s + block_size,
                            lifetime_freed := lifetime_freed s + block_size\<rparr>) heap)
      in if \<not> Heap_Is_prev_used m block
         then let prev_sz = prev_size (m block); prev_block = Heap_Block_at block (- prev_sz)
              in if \<not> Heap_Is_block_in_heap heap prev_block then (False, heap, m)
              else if \<not> Heap_Is_prev_used m prev_block then (False, heap, m)
              else if next_is_free
              then let sz = block_size + prev_sz + next_block_size;
                       m = Heap_Free_list_remove next_block m;
                       heap = upd_stats (\<lambda>s. s\<lparr>free_blocks := free_blocks s - 1\<rparr>) heap;
                       m = set_size_and_flag prev_block (sz OR HEAP_PREV_BLOCK_USED) m;
                       next_block = Heap_Block_at prev_block sz;
                       m = set_prev_size next_block sz m
                   in (True, finish heap, m)
              else let sz = block_size + prev_sz;
                       m = set_size_and_flag prev_block (sz OR HEAP_PREV_BLOCK_USED) m;
                       m = set_size_and_flag next_block (size_and_flag (m next_block) AND NOT HEAP_PREV_BLOCK_USED) m;
                       m = set_prev_size next_block sz m
                   in (True, finish heap, m)
         else if next_is_free
         then let sz = block_size + next_block_size;
                  m = Heap_Free_list_replace next_block block m;
                  m = set_size_and_flag block (sz OR HEAP_PREV_BLOCK_USED) m;
                  next_block = Heap_Block_at block sz;
                  m = set_prev_size next_block sz m
              in (True, finish heap, m)
         else let m = Heap_Free_list_insert_after (Heap_Free_list_head heap) block m;
                  m = set_size_and_flag block (block_size OR HEAP_PREV_BLOCK_USED) m;
                  m = set_size_and_flag next_block (size_and_flag (m next_block) AND NOT HEAP_PREV_BLOCK_USED) m;
                  m = set_prev_size next_block block_size m;
                  heap = upd_stats (\<lambda>s. s\<lparr>free_blocks := free_blocks s + 1\<rparr>) heap;
                  heap = upd_stats (\<lambda>s. if max_free_blocks s < free_blocks s
                                        then s\<lparr>max_free_blocks := free_blocks s\<rparr> else s) heap
              in (True, finish heap, m))"

definition Heap_Size_of_alloc_area :: "Heap_Control \<Rightarrow> uintptr \<Rightarrow> hmem \<Rightarrow> uintptr option" where
  "Heap_Size_of_alloc_area heap alloc_begin m =
     (let block = Heap_Block_of_alloc_area alloc_begin (page_size heap)
      in if \<not> Heap_Is_block_in_heap heap block then None
      else let block_size = Heap_Block_size m block; next_block = Heap_Block_at block block_size
      in if \<not> Heap_Is_block_in_heap heap next_block \<or> \<not> Heap_Is_prev_used m next_block then None
         else Some (next_block + HEAP_ALLOC_BONUS - alloc_begin))"

text \<open>The results of a resize: the status, the old and the new size, the control and the memory.\<close>

definition Heap_Resize_block_checked ::
    "Heap_Control \<Rightarrow> uintptr \<Rightarrow> uintptr \<Rightarrow> uintptr \<Rightarrow> uintptr \<Rightarrow> hmem
      \<Rightarrow> Heap_Resize_status \<times> uintptr \<times> uintptr \<times> Heap_Control \<times> hmem" where
  "Heap_Resize_block_checked heap block alloc_begin new_alloc_size new_size m =
     (let block_size = Heap_Block_size m block;
          block_end = block + block_size;
          alloc_size = block_end - alloc_begin + HEAP_ALLOC_BONUS;
          next_block = Heap_Block_at block block_size;
          next_block_size = Heap_Block_size m next_block;
          next_block_is_free = Heap_Is_free m next_block;
          old_size = alloc_size;
          block_size = (if next_block_is_free then block_size + next_block_size else block_size);
          alloc_size = (if next_block_is_free then alloc_size + next_block_size else alloc_size)
      in if new_alloc_size > alloc_size then (HEAP_RESIZE_UNSATISFIED, old_size, new_size, heap, m)
      else let (heap, m) =
             (if next_block_is_free
              then let m = Heap_Block_set_size block block_size m;
                       m = Heap_Free_list_remove next_block m;
                       next_block = Heap_Block_at block block_size;
                       m = set_size_and_flag next_block (size_and_flag (m next_block) OR HEAP_PREV_BLOCK_USED) m
                   in (upd_stats (\<lambda>s. s\<lparr>free_blocks := free_blocks s - 1,
                         free_size := free_size s - next_block_size\<rparr>) heap, m)
              else (heap, m));
           (block, heap, m) = Heap_Block_allocate heap block alloc_begin new_alloc_size m;
           block_size = Heap_Block_size m block;
           next_block = Heap_Block_at block block_size;
           new_size = next_block - alloc_begin + HEAP_ALLOC_BONUS;
           heap = upd_stats (\<lambda>s. s\<lparr>resizes := resizes s + 1\<rparr>) heap
      in (HEAP_RESIZE_SUCCESSFUL, old_size, new_size, heap, m))"

definition Heap_Resize_block ::
    "Heap_Control \<Rightarrow> uintptr \<Rightarrow> uintptr \<Rightarrow> hmem
      \<Rightarrow> Heap_Resize_status \<times> uintptr \<times> uintptr \<times> Heap_Control \<times> hmem" where
  "Heap_Resize_block heap alloc_begin new_alloc_size m =
     (let block = Heap_Block_of_alloc_area alloc_begin (page_size heap)
      in if Heap_Is_block_in_heap heap block
         then Heap_Resize_block_checked heap block alloc_begin new_alloc_size 0 m
         else (HEAP_RESIZE_FATAL_ERROR, 0, 0, heap, m))"

definition Heap_Free_block :: "Heap_Control \<Rightarrow> uintptr \<Rightarrow> hmem \<Rightarrow> Heap_Control \<times> hmem" where
  "Heap_Free_block heap block m =
     (let heap = upd_stats (\<lambda>s. s\<lparr>used_blocks := used_blocks s + 1, frees := frees s - 1\<rparr>) heap;
          (_, heap, m) = Heap_Free heap (Heap_Alloc_area_of_block block) m;
          first_free = Heap_Free_list_first heap m;
          m = Heap_Free_list_remove first_free m;
          m = Heap_Free_list_insert_before (Heap_Free_list_tail heap) first_free m
      in (heap, m))"

definition Heap_Merge_below :: "Heap_Control \<Rightarrow> uintptr \<Rightarrow> uintptr \<Rightarrow> hmem \<Rightarrow> Heap_Control \<times> hmem" where
  "Heap_Merge_below heap extend_area_begin first_blk m =
     (let new_first_block_alloc_begin = Heap_Align_up (extend_area_begin + HEAP_BLOCK_HEADER_SIZE) (page_size heap);
          new_first_block_begin = new_first_block_alloc_begin - HEAP_BLOCK_HEADER_SIZE;
          new_first_block_size = first_blk - new_first_block_begin;
          m = set_prev_size new_first_block_begin (prev_size (m first_blk)) m;
          m = set_size_and_flag new_first_block_begin (new_first_block_size OR HEAP_PREV_BLOCK_USED) m
      in Heap_Free_block heap new_first_block_begin m)"

definition Heap_Merge_above :: "Heap_Control \<Rightarrow> uintptr \<Rightarrow> uintptr \<Rightarrow> hmem \<Rightarrow> Heap_Control \<times> hmem" where
  "Heap_Merge_above heap last_blk extend_area_end m =
     (let last_block_new_size =
            Heap_Align_down (extend_area_end - last_blk - HEAP_BLOCK_HEADER_SIZE) (page_size heap);
          new_last_block = Heap_Block_at last_blk last_block_new_size;
          m = set_size_and_flag new_last_block
                ((size_and_flag (m last_blk) - last_block_new_size) OR HEAP_PREV_BLOCK_USED) m;
          m = Heap_Block_set_size last_blk last_block_new_size m
      in Heap_Free_block heap last_blk m)"

definition Heap_Link_below :: "uintptr \<Rightarrow> uintptr \<Rightarrow> hmem \<Rightarrow> hmem" where
  "Heap_Link_below link last_blk m =
     set_size_and_flag last_blk ((link - last_blk) OR HEAP_PREV_BLOCK_USED) m"

definition Heap_Link_above :: "uintptr \<Rightarrow> uintptr \<Rightarrow> uintptr \<Rightarrow> hmem \<Rightarrow> hmem" where
  "Heap_Link_above link first_blk last_blk m =
     (let m = Heap_Block_set_size link (first_blk - link) m
      in set_size_and_flag last_blk (size_and_flag (m last_blk) OR HEAP_PREV_BLOCK_USED) m)"

text \<open>
  The loop of \<^verbatim>\<open>_Heap_Extend\<close> over the sub-areas of the heap: \<open>Inl\<close> is the \<^verbatim>\<open>return 0\<close> for an
  overlap, \<open>Inr\<close> the merge below, merge above, link below and link above block (null when unset).
\<close>

partial_function (option) Heap_extend_loop ::
    "Heap_Control \<Rightarrow> uintptr \<Rightarrow> uintptr \<Rightarrow> uintptr \<Rightarrow> uintptr \<Rightarrow> uintptr \<Rightarrow> uintptr \<Rightarrow> uintptr \<Rightarrow> hmem
      \<Rightarrow> (hmem + uintptr \<times> uintptr \<times> uintptr \<times> uintptr \<times> hmem) option" where
  "Heap_extend_loop heap extend_area_begin extend_area_end start_block
       merge_below merge_above link_below link_above m =
     (let sub_area_begin = (if start_block \<noteq> first_block heap then start_block else area_begin heap);
          sub_area_end = prev_size (m start_block);
          end_block = Heap_Block_of_alloc_area sub_area_end (page_size heap)
      in if sub_area_end > extend_area_begin \<and> extend_area_end > sub_area_begin
         then Some (Inl m)
         else let merge_below = (if extend_area_end = sub_area_begin then start_block else merge_below);
                  link_below = (if extend_area_end = sub_area_begin then link_below
                                else if extend_area_end < sub_area_end then start_block else link_below);
                  merge_above = (if sub_area_end = extend_area_begin then end_block else merge_above);
                  link_above = (if sub_area_end = extend_area_begin then link_above
                                else if sub_area_end < extend_area_begin then end_block else link_above);
                  m = (if sub_area_end = extend_area_begin
                       then set_prev_size start_block extend_area_end m else m);
                  start_block = Heap_Block_at end_block (Heap_Block_size m end_block)
              in if start_block \<noteq> first_block heap
                 then Heap_extend_loop heap extend_area_begin extend_area_end start_block
                        merge_below merge_above link_below link_above m
                 else Some (Inr (merge_below, merge_above, link_below, link_above, m)))"

definition Heap_Extend ::
    "Heap_Control \<Rightarrow> uintptr \<Rightarrow> uintptr \<Rightarrow> uintptr \<Rightarrow> hmem \<Rightarrow> (uintptr \<times> Heap_Control \<times> hmem) option" where
  "Heap_Extend heap extend_area_begin extend_area_size unused m =
     (let extend_area_end = extend_area_begin + extend_area_size;
          free_sz = free_size (stats heap)
      in if extend_area_end < extend_area_begin then Some (0, heap, m)
      else case Heap_Get_first_and_last_block extend_area_begin extend_area_size
                  (page_size heap) (min_block_size heap) of
        None \<Rightarrow> Some (0, heap, m)
      | Some (extend_first_block, extend_last_block) \<Rightarrow>
      (case Heap_extend_loop heap extend_area_begin extend_area_end (first_block heap) 0 0 0 0 m of
        None \<Rightarrow> None
      | Some (Inl m) \<Rightarrow> Some (0, heap, m)
      | Some (Inr (merge_below, merge_above, link_below, link_above, m)) \<Rightarrow>
          let heap = (if extend_area_begin < area_begin heap then heap\<lparr>area_begin := extend_area_begin\<rparr>
                      else if area_end heap < extend_area_end then heap\<lparr>area_end := extend_area_end\<rparr>
                      else heap);
              extend_first_block_size = extend_last_block - extend_first_block;
              m = set_prev_size extend_first_block extend_area_end m;
              m = set_size_and_flag extend_first_block (extend_first_block_size OR HEAP_PREV_BLOCK_USED) m;
              m = set_prev_size extend_last_block extend_first_block_size m;
              m = set_size_and_flag extend_last_block 0 m;
              heap = (if extend_first_block < first_block heap then heap\<lparr>first_block := extend_first_block\<rparr>
                      else if extend_last_block > last_block heap then heap\<lparr>last_block := extend_last_block\<rparr>
                      else heap);
              (heap, m) = (if merge_below \<noteq> 0 then Heap_Merge_below heap extend_area_begin merge_below m
                           else if link_below \<noteq> 0 then (heap, Heap_Link_below link_below extend_last_block m)
                           else (heap, m));
              (heap, m) = (if merge_above \<noteq> 0 then Heap_Merge_above heap merge_above extend_area_end m
                           else if link_above \<noteq> 0
                           then (heap, Heap_Link_above link_above extend_first_block extend_last_block m)
                           else (heap, m));
              (heap, m) = (if merge_below = 0 \<and> merge_above = 0
                           then Heap_Free_block heap extend_first_block m else (heap, m));
              m = Heap_Set_last_block_size heap m;
              extended_size = free_size (stats heap) - free_sz;
              heap = upd_stats (\<lambda>s. s\<lparr>stats_size := stats_size s + extended_size\<rparr>) heap
          in Some (extended_size, heap, m)))"

definition Heap_No_extend :: "Heap_Control \<Rightarrow> uintptr \<Rightarrow> uintptr \<Rightarrow> uintptr \<Rightarrow> uintptr" where
  "Heap_No_extend unused_0 unused_1 unused_2 unused_3 = 0"

section \<open>Information\<close>

text \<open>A visitor gets the block, its size, whether it is used, and its argument, which it may update.\<close>

partial_function (option) Heap_Iterate_loop ::
    "(uintptr \<Rightarrow> uintptr \<Rightarrow> bool \<Rightarrow> 'a \<Rightarrow> bool \<times> 'a) \<Rightarrow> hmem \<Rightarrow> uintptr \<Rightarrow> uintptr \<Rightarrow> bool \<Rightarrow> 'a \<Rightarrow> 'a option" where
  "Heap_Iterate_loop visitor m end_block current stop visitor_arg =
     (if \<not> stop \<and> current \<noteq> end_block
      then let sz = Heap_Block_size m current;
               nxt = Heap_Block_at current sz;
               used = Heap_Is_prev_used m nxt;
               (stop, visitor_arg) = visitor current sz used visitor_arg
           in Heap_Iterate_loop visitor m end_block nxt stop visitor_arg
      else Some visitor_arg)"

definition Heap_Iterate ::
    "Heap_Control \<Rightarrow> (uintptr \<Rightarrow> uintptr \<Rightarrow> bool \<Rightarrow> 'a \<Rightarrow> bool \<times> 'a) \<Rightarrow> hmem \<Rightarrow> 'a \<Rightarrow> 'a option" where
  "Heap_Iterate heap visitor m visitor_arg =
     Heap_Iterate_loop visitor m (last_block heap) (first_block heap) False visitor_arg"

definition count_block :: "uintptr \<Rightarrow> Heap_Information \<Rightarrow> Heap_Information" where
  "count_block block_size info =
     \<lparr>number = number info + 1,
      largest = (if largest info < block_size then block_size else largest info),
      total = total info + block_size\<rparr>"

definition Heap_Get_information_visitor ::
    "uintptr \<Rightarrow> uintptr \<Rightarrow> bool \<Rightarrow> Heap_Information_block \<Rightarrow> bool \<times> Heap_Information_block" where
  "Heap_Get_information_visitor block block_size block_is_used info_block =
     (False, if block_is_used
             then info_block\<lparr>Used_info := count_block block_size (Used_info info_block)\<rparr>
             else info_block\<lparr>Free_info := count_block block_size (Free_info info_block)\<rparr>)"

definition zero_info :: Heap_Information where
  "zero_info = \<lparr>number = 0, largest = 0, total = 0\<rparr>"

definition Heap_Get_information :: "Heap_Control \<Rightarrow> hmem \<Rightarrow> Heap_Information_block option" where
  "Heap_Get_information the_heap m =
     (case Heap_Iterate the_heap Heap_Get_information_visitor m
             \<lparr>Free_info = zero_info, Used_info = zero_info, Stats_info = zero_stats\<rparr> of
        None \<Rightarrow> None
      | Some info \<Rightarrow> Some (info\<lparr>Stats_info := stats the_heap\<rparr>))"

text \<open>The block size goes through a variable of type \<^verbatim>\<open>uint32_t\<close> here.\<close>

partial_function (option) Heap_Get_free_information_loop ::
    "hmem \<Rightarrow> uintptr \<Rightarrow> uintptr \<Rightarrow> Heap_Information \<Rightarrow> Heap_Information option" where
  "Heap_Get_free_information_loop m tail the_block info =
     (if the_block \<noteq> tail
      then let the_size = (ucast (Heap_Block_size m the_block) :: uint32)
           in Heap_Get_free_information_loop m tail (nextb (m the_block)) (count_block (ucast the_size) info)
      else Some info)"

definition Heap_Get_free_information :: "Heap_Control \<Rightarrow> hmem \<Rightarrow> Heap_Information option" where
  "Heap_Get_free_information the_heap m =
     Heap_Get_free_information_loop m (Heap_Free_list_tail the_heap) (Heap_Free_list_first the_heap m) zero_info"

section \<open>Greedy allocation\<close>

primrec Heap_Greedy_sizes_loop ::
    "uintptr list \<Rightarrow> Heap_Control \<Rightarrow> uintptr \<Rightarrow> hmem \<Rightarrow> (uintptr \<times> Heap_Control \<times> hmem) option" where
  "Heap_Greedy_sizes_loop [] heap allocated_blocks m = Some (allocated_blocks, heap, m)"
| "Heap_Greedy_sizes_loop (sz # block_sizes) heap allocated_blocks m =
     (case Heap_Allocate heap sz m of
        None \<Rightarrow> None
      | Some (nxt, heap, m) \<Rightarrow>
          if nxt \<noteq> 0
          then let next_block = Heap_Block_of_alloc_area nxt (page_size heap);
                   m = set_nextb next_block allocated_blocks m
               in Heap_Greedy_sizes_loop block_sizes heap next_block m
          else Heap_Greedy_sizes_loop block_sizes heap allocated_blocks m)"

partial_function (option) Heap_Greedy_all_loop ::
    "Heap_Control \<Rightarrow> uintptr \<Rightarrow> hmem \<Rightarrow> (uintptr \<times> Heap_Control \<times> hmem) option" where
  "Heap_Greedy_all_loop heap blocks m =
     (let current = Heap_Free_list_first heap m
      in if current \<noteq> Heap_Free_list_tail heap
         then let (_, heap, m) = Heap_Block_allocate heap current (Heap_Alloc_area_of_block current)
                                   (Heap_Block_size m current - HEAP_BLOCK_HEADER_SIZE) m;
                  m = set_nextb current blocks m
              in Heap_Greedy_all_loop heap current m
         else Some (blocks, heap, m))"

partial_function (option) Heap_Greedy_free :: "Heap_Control \<Rightarrow> uintptr \<Rightarrow> hmem \<Rightarrow> (Heap_Control \<times> hmem) option" where
  "Heap_Greedy_free heap blocks m =
     (if blocks \<noteq> 0
      then let current = blocks;
               blocks = nextb (m current);
               (_, heap, m) = Heap_Free heap (Heap_Alloc_area_of_block current) m
           in Heap_Greedy_free heap blocks m
      else Some (heap, m))"

text \<open>The last loop of \<^verbatim>\<open>_Heap_Greedy_allocate\<close> is the loop of \<^verbatim>\<open>_Heap_Greedy_free\<close>.\<close>

definition Heap_Greedy_allocate ::
    "Heap_Control \<Rightarrow> uintptr list \<Rightarrow> hmem \<Rightarrow> (uintptr \<times> Heap_Control \<times> hmem) option" where
  "Heap_Greedy_allocate heap block_sizes m =
     (case Heap_Greedy_sizes_loop block_sizes heap 0 m of
        None \<Rightarrow> None
      | Some (allocated_blocks, heap, m) \<Rightarrow>
     (case Heap_Greedy_all_loop heap 0 m of
        None \<Rightarrow> None
      | Some (blocks, heap, m) \<Rightarrow>
     (case Heap_Greedy_free heap allocated_blocks m of
        None \<Rightarrow> None
      | Some (heap, m) \<Rightarrow> Some (blocks, heap, m))))"

definition Heap_Greedy_allocate_all_except_largest ::
    "Heap_Control \<Rightarrow> hmem \<Rightarrow> (uintptr \<times> uintptr \<times> Heap_Control \<times> hmem) option" where
  "Heap_Greedy_allocate_all_except_largest heap m =
     (case Heap_Get_free_information heap m of
        None \<Rightarrow> None
      | Some info \<Rightarrow>
          let allocatable_size = (if largest info > 0
                                  then largest info - HEAP_BLOCK_HEADER_SIZE + HEAP_ALLOC_BONUS else 0)
          in case Heap_Greedy_allocate heap [allocatable_size] m of
               None \<Rightarrow> None
             | Some (blocks, heap, m) \<Rightarrow> Some (blocks, allocatable_size, heap, m))"

section \<open>The consistency check\<close>

text \<open>
  The checks of \<^verbatim>\<open>_Heap_Walk\<close>; the messages for the printer are left out. The system state must be
  up for the walk to look at the heap; its value is an argument.
\<close>

partial_function (option) Heap_Walk_check_free_list_loop ::
    "Heap_Control \<Rightarrow> hmem \<Rightarrow> uintptr \<Rightarrow> uintptr \<Rightarrow> bool option" where
  "Heap_Walk_check_free_list_loop heap m prev_block free_block =
     (if free_block \<noteq> Heap_Free_list_tail heap
      then if \<not> Heap_Is_block_in_heap heap free_block then Some False
      else if \<not> Heap_Is_aligned (Heap_Alloc_area_of_block free_block) (page_size heap) then Some False
      else if Heap_Is_used m free_block then Some False
      else if prevb (m free_block) \<noteq> prev_block then Some False
      else Heap_Walk_check_free_list_loop heap m free_block (nextb (m free_block))
      else Some True)"

definition Heap_Walk_check_free_list :: "Heap_Control \<Rightarrow> hmem \<Rightarrow> bool option" where
  "Heap_Walk_check_free_list heap m =
     Heap_Walk_check_free_list_loop heap m (Heap_Free_list_tail heap) (Heap_Free_list_first heap m)"

partial_function (option) Heap_Walk_is_in_free_list_loop ::
    "hmem \<Rightarrow> uintptr \<Rightarrow> uintptr \<Rightarrow> uintptr \<Rightarrow> bool option" where
  "Heap_Walk_is_in_free_list_loop m free_list_tail block free_block =
     (if free_block \<noteq> free_list_tail
      then if free_block = block then Some True
           else Heap_Walk_is_in_free_list_loop m free_list_tail block (nextb (m free_block))
      else Some False)"

definition Heap_Walk_is_in_free_list :: "Heap_Control \<Rightarrow> uintptr \<Rightarrow> hmem \<Rightarrow> bool option" where
  "Heap_Walk_is_in_free_list heap block m =
     Heap_Walk_is_in_free_list_loop m (Heap_Free_list_tail heap) block (Heap_Free_list_first heap m)"

definition Heap_Walk_check_control :: "Heap_Control \<Rightarrow> hmem \<Rightarrow> bool option" where
  "Heap_Walk_check_control heap m =
     (if page_size heap = 0 then Some False
      else if \<not> Heap_Is_aligned (page_size heap) CPU_ALIGNMENT then Some False
      else if \<not> Heap_Is_aligned (min_block_size heap) (page_size heap) then Some False
      else if \<not> Heap_Is_aligned (Heap_Alloc_area_of_block (first_block heap)) (page_size heap) then Some False
      else if \<not> Heap_Is_prev_used m (first_block heap) then Some False
      else if Heap_Is_free m (last_block heap) then Some False
      else if Heap_Block_at (last_block heap) (Heap_Block_size m (last_block heap)) \<noteq> first_block heap
      then Some False
      else Heap_Walk_check_free_list heap m)"

definition Heap_Walk_check_free_block :: "Heap_Control \<Rightarrow> uintptr \<Rightarrow> hmem \<Rightarrow> bool option" where
  "Heap_Walk_check_free_block heap block m =
     (let prev_used = Heap_Is_prev_used m block;
          block_size = Heap_Block_size m block;
          next_block = Heap_Block_at block block_size
      in if block_size \<noteq> prev_size (m next_block) then Some False
         else if \<not> prev_used then Some False
         else Heap_Walk_is_in_free_list heap block m)"

partial_function (option) Heap_Walk_loop :: "Heap_Control \<Rightarrow> hmem \<Rightarrow> uintptr \<Rightarrow> bool option" where
  "Heap_Walk_loop heap m block =
     (let block_size = Heap_Block_size m block;
          next_block = Heap_Block_at block block_size;
          is_not_last_block = (block \<noteq> last_block heap)
      in if \<not> Heap_Is_block_in_heap heap next_block then Some False
      else if \<not> Heap_Is_aligned block_size (page_size heap) \<and> is_not_last_block then Some False
      else if block_size < min_block_size heap \<and> is_not_last_block then Some False
      else if next_block \<le> block \<and> is_not_last_block then Some False
      else case (if \<not> Heap_Is_prev_used m next_block then Heap_Walk_check_free_block heap block m
                 else Some True) of
             None \<Rightarrow> None
           | Some ok \<Rightarrow>
               if \<not> ok then Some False
               else if next_block \<noteq> first_block heap then Heap_Walk_loop heap m next_block
               else Some True)"

definition Heap_Walk :: "bool \<Rightarrow> Heap_Control \<Rightarrow> hmem \<Rightarrow> bool option" where
  "Heap_Walk system_state_is_up heap m =
     (if \<not> system_state_is_up then Some True
      else case Heap_Walk_check_control heap m of
             None \<Rightarrow> None
           | Some ok \<Rightarrow> if \<not> ok then Some False else Heap_Walk_loop heap m (first_block heap))"

text \<open>The loops are executable by their equations.\<close>

lemmas [code] =
  Heap_boundary_loop.simps
  Heap_search_loop.simps
  Heap_extend_loop.simps
  Heap_Iterate_loop.simps
  Heap_Get_free_information_loop.simps
  Heap_Greedy_all_loop.simps
  Heap_Greedy_free.simps
  Heap_Walk_check_free_list_loop.simps
  Heap_Walk_is_in_free_list_loop.simps
  Heap_Walk_loop.simps

end
