(* ===== verification/Heap_Layout.thy ===== *)
theory Heap_Layout
  imports Heap
begin

text \<open>
  The invariant of the Heap Handler. A heap is laid out as a sequence of blocks, each with its size
  and whether it is used, without gaps from the first block to the last block; \<open>seg\<close> reads this
  sequence off the block headers, \<open>flist\<close> the circular doubly linked list of the free blocks.
  Addresses and sizes are natural numbers here, \<open>of_nat\<close> takes them to the words of the model.
\<close>

section \<open>The memory as four arrays\<close>

definition SF :: "hmem \<Rightarrow> uintptr \<Rightarrow> uintptr" where "SF m x = size_and_flag (m x)"
definition PS :: "hmem \<Rightarrow> uintptr \<Rightarrow> uintptr" where "PS m x = prev_size (m x)"
definition NX :: "hmem \<Rightarrow> uintptr \<Rightarrow> uintptr" where "NX m x = nextb (m x)"
definition PV :: "hmem \<Rightarrow> uintptr \<Rightarrow> uintptr" where "PV m x = prevb (m x)"

named_theorems hfields

lemma SF_fields [hfields]:
  "SF (set_size_and_flag b v m) = (SF m)(b := v)" "SF (set_prev_size b v m) = SF m"
  "SF (set_nextb b v m) = SF m" "SF (set_prevb b v m) = SF m"
  by (auto simp: SF_def set_size_and_flag_def set_prev_size_def set_nextb_def set_prevb_def)

lemma PS_fields [hfields]:
  "PS (set_size_and_flag b v m) = PS m" "PS (set_prev_size b v m) = (PS m)(b := v)"
  "PS (set_nextb b v m) = PS m" "PS (set_prevb b v m) = PS m"
  by (auto simp: PS_def set_size_and_flag_def set_prev_size_def set_nextb_def set_prevb_def)

lemma NX_fields [hfields]:
  "NX (set_size_and_flag b v m) = NX m" "NX (set_prev_size b v m) = NX m"
  "NX (set_nextb b v m) = (NX m)(b := v)" "NX (set_prevb b v m) = NX m"
  by (auto simp: NX_def set_size_and_flag_def set_prev_size_def set_nextb_def set_prevb_def)

lemma PV_fields [hfields]:
  "PV (set_size_and_flag b v m) = PV m" "PV (set_prev_size b v m) = PV m"
  "PV (set_nextb b v m) = PV m" "PV (set_prevb b v m) = (PV m)(b := v)"
  by (auto simp: PV_def set_size_and_flag_def set_prev_size_def set_nextb_def set_prevb_def)

lemma field_reads [hfields]:
  "size_and_flag (m x) = SF m x" "prev_size (m x) = PS m x" "nextb (m x) = NX m x" "prevb (m x) = PV m x"
  by (simp_all add: SF_def PS_def NX_def PV_def)

lemma remove_fields [hfields]:
  "SF (Heap_Free_list_remove b m) = SF m" "PS (Heap_Free_list_remove b m) = PS m"
  "NX (Heap_Free_list_remove b m) = (NX m)(PV m b := NX m b)"
  "PV (Heap_Free_list_remove b m) = (PV m)(NX m b := PV m b)"
  by (simp_all add: Heap_Free_list_remove_def Let_def hfields)

lemma replace_fields [hfields]:
  "SF (Heap_Free_list_replace b n m) = SF m" "PS (Heap_Free_list_replace b n m) = PS m"
  "NX (Heap_Free_list_replace b n m) = (NX m)(n := NX m b, PV m b := n)"
  "PV (Heap_Free_list_replace b n m) = (PV m)(n := PV m b, NX m b := n)"
  by (simp_all add: Heap_Free_list_replace_def Let_def hfields)

lemma insert_after_fields [hfields]:
  "SF (Heap_Free_list_insert_after b n m) = SF m" "PS (Heap_Free_list_insert_after b n m) = PS m"
  "NX (Heap_Free_list_insert_after b n m) = (NX m)(n := NX m b, b := n)"
  "PV (Heap_Free_list_insert_after b n m) = (PV m)(n := b, NX m b := n)"
  by (simp_all add: Heap_Free_list_insert_after_def Let_def hfields)

lemma insert_before_fields [hfields]:
  "SF (Heap_Free_list_insert_before b n m) = SF m" "PS (Heap_Free_list_insert_before b n m) = PS m"
  "NX (Heap_Free_list_insert_before b n m) = (NX m)(n := b, PV m b := n)"
  "PV (Heap_Free_list_insert_before b n m) = (PV m)(n := PV m b, b := n)"
  by (simp_all add: Heap_Free_list_insert_before_def Let_def hfields)

section \<open>The free list\<close>

fun dlinks :: "('a \<Rightarrow> 'a) \<Rightarrow> ('a \<Rightarrow> 'a) \<Rightarrow> 'a list \<Rightarrow> bool" where
  "dlinks N V (x # y # L) \<longleftrightarrow> N x = y \<and> V y = x \<and> dlinks N V (y # L)"
| "dlinks N V _ \<longleftrightarrow> True"

lemma dlinks_append:
  "dlinks N V (A @ p # b # B) \<longleftrightarrow> dlinks N V (A @ [p]) \<and> N p = b \<and> V b = p \<and> dlinks N V (b # B)"
  by (induction N V "A @ [p]" arbitrary: A rule: dlinks.induct)
     (auto simp: append_eq_Cons_conv Cons_eq_append_conv)

lemma dlinks_join: "dlinks N V (A @ p # L) \<longleftrightarrow> dlinks N V (A @ [p]) \<and> dlinks N V (p # L)"
  by (induction N V "A @ [p]" arbitrary: A rule: dlinks.induct)
     (auto simp: append_eq_Cons_conv Cons_eq_append_conv)

lemma dlinks_cong:
  "(\<And>x. x \<in> set (butlast L) \<Longrightarrow> N' x = N x) \<Longrightarrow> (\<And>x. x \<in> set (tl L) \<Longrightarrow> V' x = V x)
   \<Longrightarrow> dlinks N' V' L = dlinks N V L"
proof (induction N V L rule: dlinks.induct)
  case (1 N V x y L)
  have "dlinks N' V' (y # L) = dlinks N V (y # L)"
    using "1.prems" by (intro "1.IH") (auto dest: list.set_sel(2) in_set_butlastD)
  then show ?case using "1.prems" by simp
qed auto

definition flist :: "('a \<Rightarrow> 'a) \<Rightarrow> ('a \<Rightarrow> 'a) \<Rightarrow> 'a \<Rightarrow> 'a list \<Rightarrow> bool" where
  "flist N V fl fs \<longleftrightarrow> dlinks N V (fl # fs @ [fl]) \<and> distinct (fl # fs)"

text \<open>The neighbours of a position of the list.\<close>

lemma flist_neighbours:
  obtains A B where "fl # F1 = A @ [last (fl # F1)]" and "F2 @ [fl] = hd (F2 @ [fl]) # B"
    and "\<And>M. fl # (F1 @ M @ F2) @ [fl] = A @ last (fl # F1) # M @ hd (F2 @ [fl]) # B"
proof -
  obtain A where A: "fl # F1 = A @ [last (fl # F1)]" by (metis append_butlast_last_id list.distinct(1))
  obtain B where B: "F2 @ [fl] = hd (F2 @ [fl]) # B" by (metis list.collapse snoc_eq_iff_butlast)
  have "fl # (F1 @ M @ F2) @ [fl] = A @ last (fl # F1) # M @ hd (F2 @ [fl]) # B" for M
    using A B by (metis append.assoc append_Cons append_Nil)
  then show thesis using that A B by blast
qed

lemma flist_at:
  assumes "flist N V fl (F1 @ x # F2)"
  shows "N x = hd (F2 @ [fl])" and "V x = last (fl # F1)"
proof -
  obtain A B where eq: "\<And>M. fl # (F1 @ M @ F2) @ [fl] = A @ last (fl # F1) # M @ hd (F2 @ [fl]) # B"
    using flist_neighbours [of fl F1 F2] by metis
  have d: "dlinks N V (A @ last (fl # F1) # [x] @ hd (F2 @ [fl]) # B)"
    using assms unfolding flist_def eq [of "[x]", symmetric] by simp
  then have "dlinks N V (A @ last (fl # F1) # x # hd (F2 @ [fl]) # B)" by simp
  then show "V x = last (fl # F1)" unfolding dlinks_append by blast
  have "dlinks N V ((A @ [last (fl # F1)]) @ x # hd (F2 @ [fl]) # B)" using d by simp
  then show "N x = hd (F2 @ [fl])" unfolding dlinks_append by blast
qed

lemma flist_ends:
  assumes "flist N V fl (F1 @ F2)"
  shows "N (last (fl # F1)) = hd (F2 @ [fl])" and "V (hd (F2 @ [fl])) = last (fl # F1)"
proof -
  obtain A B where eq: "\<And>M. fl # (F1 @ M @ F2) @ [fl] = A @ last (fl # F1) # M @ hd (F2 @ [fl]) # B"
    using flist_neighbours [of fl F1 F2] by metis
  have "dlinks N V (A @ last (fl # F1) # [] @ hd (F2 @ [fl]) # B)"
    using assms unfolding flist_def eq [of "[]", symmetric] by simp
  then show "N (last (fl # F1)) = hd (F2 @ [fl])" and "V (hd (F2 @ [fl])) = last (fl # F1)"
    by (simp_all add: dlinks_append del: last.simps)
qed

lemma neighbour_mem: "last (fl # F1) \<in> insert fl (set F1)" "hd (F2 @ [fl]) \<in> insert fl (set F2)"
  by (simp, cases F2, simp_all)

text \<open>
  Putting a list \<open>M'\<close> of at most one node in the place of \<open>M\<close>: all that an operation on the free
  list has to set is the links of the two neighbours and of the new node.
\<close>

lemma flist_put:
  assumes "flist N V fl (F1 @ M @ F2)" and "distinct (fl # F1 @ M' @ F2)"
    and "dlinks N' V' (p # M' @ [b])"
    and pb: "p = last (fl # F1)" "b = hd (F2 @ [fl])"
    and N: "\<And>x. x \<in> insert fl (set (F1 @ F2)) \<Longrightarrow> x \<noteq> p \<Longrightarrow> N' x = N x"
    and V: "\<And>x. x \<in> insert fl (set (F1 @ F2)) \<Longrightarrow> x \<noteq> b \<Longrightarrow> V' x = V x"
  shows "flist N' V' fl (F1 @ M' @ F2)"
proof -
  obtain A B where A: "fl # F1 = A @ [p]" and B: "F2 @ [fl] = b # B"
    and eq: "\<And>M. fl # (F1 @ M @ F2) @ [fl] = A @ p # M @ b # B"
    using flist_neighbours [of fl F1 F2, folded pb] by blast
  have split: "dlinks N V (A @ p # M @ b # B) \<longleftrightarrow>
    dlinks N V (A @ [p]) \<and> dlinks N V (p # M @ [b]) \<and> dlinks N V (b # B)" for N V M
    using dlinks_join [of N V A p "M @ b # B"] dlinks_join [of N V "p # M" b B] by simp
  have old: "dlinks N V (A @ [p])" "dlinks N V (b # B)"
    using assms(1) unfolding flist_def eq split by blast+
  have dist: "distinct (A @ [p])" "distinct (b # B)" unfolding A [symmetric] B [symmetric] using assms(2) by auto
  have "dlinks N' V' (A @ [p])"
  proof (subst dlinks_cong)
    show "dlinks N V (A @ [p])" by (rule old)
  next
    fix x assume "x \<in> set (butlast (A @ [p]))"
    then have "x \<in> set (fl # F1)" "x \<noteq> p" using dist(1) by (auto simp: A)
    then show "N' x = N x" by (intro N) auto
  next
    fix x assume "x \<in> set (tl (A @ [p]))"
    then have "x \<in> set F1" by (metis A list.sel(3))
    moreover have "b \<notin> set F1" using assms(2) neighbour_mem(2) [of F2 fl] unfolding pb by auto
    ultimately show "V' x = V x" by (intro V) auto
  qed
  moreover have "dlinks N' V' (b # B)"
  proof (subst dlinks_cong)
    show "dlinks N V (b # B)" by (rule old)
  next
    fix x assume "x \<in> set (butlast (b # B))"
    then have "x \<in> set F2" by (metis B butlast_snoc)
    moreover have "p \<notin> set F2" using assms(2) neighbour_mem(1) [of fl F1] unfolding pb by (auto simp del: last.simps)
    ultimately show "N' x = N x" by (intro N) auto
  next
    fix x assume x: "x \<in> set (tl (b # B))"
    then have "x \<in> set (F2 @ [fl])" "x \<noteq> b" using dist(2) by (auto simp: B)
    then show "V' x = V x" by (intro V) auto
  qed
  ultimately show ?thesis using assms(2,3) unfolding flist_def eq split by blast
qed

lemma flist_remove:
  assumes "flist N V fl (F1 @ x # F2)"
  shows "flist (N(V x := N x)) (V(N x := V x)) fl (F1 @ F2)"
proof -
  define p b where pb: "p = last (fl # F1)" "b = hd (F2 @ [fl])"
  note at = flist_at [OF assms, folded pb]
  have "flist (N(p := b)) (V(b := p)) fl (F1 @ [] @ F2)"
    using assms by - (rule flist_put [OF _ _ _ pb, of N V "[x]"], auto simp: flist_def)
  then show ?thesis by (simp add: at)
qed

lemma flist_replace:
  assumes "flist N V fl (F1 @ x # F2)" and "n \<noteq> fl" and "n \<notin> set (F1 @ F2)"
  shows "flist (N(n := N x, V x := n)) (V(n := V x, N x := n)) fl (F1 @ n # F2)"
proof -
  define p b where pb: "p = last (fl # F1)" "b = hd (F2 @ [fl])"
  note at = flist_at [OF assms(1), folded pb]
  have "p \<noteq> n" "b \<noteq> n"
    using assms(2,3) neighbour_mem(1) [of fl F1] neighbour_mem(2) [of F2 fl] unfolding pb by auto
  then have "flist (N(n := b, p := n)) (V(n := p, b := n)) fl (F1 @ [n] @ F2)"
    using assms by - (rule flist_put [OF _ _ _ pb, of N V "[x]"], auto simp: flist_def)
  then show ?thesis by (simp add: at)
qed

lemma flist_insert:
  assumes "flist N V fl (F1 @ F2)" and "n \<noteq> fl" and "n \<notin> set (F1 @ F2)"
    and pb: "p = last (fl # F1)" "b = hd (F2 @ [fl])"
  shows "flist (N(n := b, p := n)) (V(n := p, b := n)) fl (F1 @ n # F2)"
proof -
  have "p \<noteq> n" "b \<noteq> n"
    using assms(2,3) neighbour_mem(1) [of fl F1] neighbour_mem(2) [of F2 fl] unfolding pb by auto
  then have "flist (N(n := b, p := n)) (V(n := p, b := n)) fl (F1 @ [n] @ F2)"
    using assms(1-3) by - (rule flist_put [OF _ _ _ pb, of N V "[]"], auto simp: flist_def)
  then show ?thesis by simp
qed

lemma flist_insert_after:
  assumes "flist N V fl (F1 @ F2)" and "n \<noteq> fl" and "n \<notin> set (F1 @ F2)" and "p = last (fl # F1)"
  shows "flist (N(n := N p, p := n)) (V(n := p, N p := n)) fl (F1 @ n # F2)"
  using flist_insert [OF assms(1-4) refl] flist_ends(1) [OF assms(1)] assms(4) by metis

lemma flist_insert_before:
  assumes "flist N V fl fs" and "n \<noteq> fl" and "n \<notin> set fs"
  shows "flist (N(n := fl, V fl := n)) (V(n := V fl, fl := n)) fl (fs @ [n])"
  using flist_insert [of N V fl fs "[]" n, OF _ _ _ refl refl] flist_ends(2) [of N V fl fs "[]"] assms by simp

section \<open>The sequence of blocks\<close>

abbreviation W :: "nat \<Rightarrow> uintptr" where
  "W \<equiv> of_nat"

lemma unat_W: "x < 2 ^ 64 \<Longrightarrow> unat (W x) = x"
  using unat_of_nat_small [of x, where 'a = 64] by simp

lemma W_eq: "x < 2 ^ 64 \<Longrightarrow> y < 2 ^ 64 \<Longrightarrow> W x = W y \<longleftrightarrow> x = y"
  by (metis unat_W)

declare of_nat_add [simp del]

definition flg :: "bool \<Rightarrow> uintptr" where
  "flg u = (if u then 1 else 0)"

type_synonym layout = "(nat \<times> bool) list"

abbreviation szs :: "layout \<Rightarrow> nat" where
  "szs bs \<equiv> sum_list (map fst bs)"

fun lastu :: "bool \<Rightarrow> layout \<Rightarrow> bool" where
  "lastu pu [] = pu"
| "lastu pu ((s, u) # bs) = lastu u bs"

text \<open>
  \<open>seg S P a pu bs\<close>: from address \<open>a\<close> on there are blocks with the sizes and states of \<open>bs\<close>; each
  header holds the size and whether the block before is used, a free block has its size in the
  \<open>prev_size\<close> of its successor, and no two free blocks are adjacent.
\<close>

fun seg :: "(uintptr \<Rightarrow> uintptr) \<Rightarrow> (uintptr \<Rightarrow> uintptr) \<Rightarrow> nat \<Rightarrow> bool \<Rightarrow> layout \<Rightarrow> bool" where
  "seg S P a pu [] \<longleftrightarrow> True"
| "seg S P a pu ((s, u) # bs) \<longleftrightarrow>
     even s \<and> S (W a) = W s OR flg pu \<and> (u \<or> P (W (a + s)) = W s) \<and> (pu \<or> u) \<and> seg S P (a + s) u bs"

fun addrs :: "nat \<Rightarrow> layout \<Rightarrow> nat list" where
  "addrs a [] = []"
| "addrs a ((s, u) # bs) = a # addrs (a + s) bs"

fun faddrs :: "nat \<Rightarrow> layout \<Rightarrow> nat list" where
  "faddrs a [] = []"
| "faddrs a ((s, u) # bs) = (if u then faddrs (a + s) bs else a # faddrs (a + s) bs)"

fun fends :: "nat \<Rightarrow> layout \<Rightarrow> nat list" where
  "fends a [] = []"
| "fends a ((s, u) # bs) = (if u then fends (a + s) bs else (a + s) # fends (a + s) bs)"

lemma lastu_append [simp]: "lastu pu (xs @ ys) = lastu (lastu pu xs) ys"
  by (induction pu xs rule: lastu.induct) auto

lemma seg_append: "seg S P a pu (xs @ ys) \<longleftrightarrow> seg S P a pu xs \<and> seg S P (a + szs xs) (lastu pu xs) ys"
  by (induction S P a pu xs rule: seg.induct) (auto simp: add.assoc)

lemma addrs_append: "addrs a (xs @ ys) = addrs a xs @ addrs (a + szs xs) ys"
  by (induction a xs rule: addrs.induct) (auto simp: add.assoc)

lemma faddrs_append: "faddrs a (xs @ ys) = faddrs a xs @ faddrs (a + szs xs) ys"
  by (induction a xs rule: faddrs.induct) (auto simp: add.assoc)

lemma fends_append: "fends a (xs @ ys) = fends a xs @ fends (a + szs xs) ys"
  by (induction a xs rule: fends.induct) (auto simp: add.assoc)

lemma seg_cong:
  "(\<And>z. z \<in> set (addrs a bs) \<Longrightarrow> S' (W z) = S (W z)) \<Longrightarrow> (\<And>z. z \<in> set (fends a bs) \<Longrightarrow> P' (W z) = P (W z))
   \<Longrightarrow> seg S' P' a pu bs = seg S P a pu bs"
proof (induction S P a pu bs rule: seg.induct)
  case (2 S P a pu s u bs)
  then show ?case by (cases u) auto
qed simp

text \<open>Blocks are not empty: addresses increase.\<close>

definition pos :: "layout \<Rightarrow> bool" where
  "pos bs \<longleftrightarrow> (\<forall>b\<in>set bs. 0 < fst b)"

lemma pos_simps [simp]:
  "pos []" "pos (b # bs) \<longleftrightarrow> 0 < fst b \<and> pos bs" "pos (xs @ ys) \<longleftrightarrow> pos xs \<and> pos ys"
  by (auto simp: pos_def)

lemma addrs_range: "pos bs \<Longrightarrow> z \<in> set (addrs a bs) \<Longrightarrow> a \<le> z \<and> z < a + szs bs"
proof (induction a bs rule: addrs.induct)
  case (2 a s u bs)
  then show ?case by (cases "z = a") auto
qed simp

lemma fends_range: "pos bs \<Longrightarrow> z \<in> set (fends a bs) \<Longrightarrow> a < z \<and> z \<le> a + szs bs"
proof (induction a bs rule: fends.induct)
  case (2 a s u bs)
  then show ?case by (cases "z = a + s") (auto split: if_splits)
qed simp

lemma faddrs_addrs: "set (faddrs a bs) \<subseteq> set (addrs a bs)"
  by (induction a bs rule: faddrs.induct) auto

lemma addrs_distinct: "pos bs \<Longrightarrow> distinct (addrs a bs)"
proof (induction a bs rule: addrs.induct)
  case (2 a s u bs)
  then show ?case using addrs_range [of bs a "a + s"] by auto
qed simp

lemma faddrs_distinct: "pos bs \<Longrightarrow> distinct (faddrs a bs)"
proof (induction a bs rule: faddrs.induct)
  case (2 a s u bs)
  then show ?case using addrs_range [of bs a "a + s"] faddrs_addrs [of "a + s" bs] by auto
qed simp

text \<open>The last block closes the circle: its successor is the first block, so it counts as used.\<close>

definition closed :: "layout \<Rightarrow> layout" where
  "closed bs = bs @ [(2 ^ 64 - szs bs, True)]"

text \<open>
  An operation changes the headers from some block \<open>x\<close> up to the header of the block at \<open>y\<close> after
  the blocks \<open>mid\<close>; if the new headers describe \<open>mid'\<close> in this place, the whole sequence is fine.
\<close>

lemma seg_middle:
  assumes seg: "seg S P a pu (xs @ mid @ (s0, u0) # ys)"
    and sz: "szs mid' = szs mid" and pos: "pos (xs @ mid @ (s0, u0) # ys)"
  defines "x \<equiv> a + szs xs" and "y \<equiv> a + szs xs + szs mid"
  assumes mid: "seg S' P' x (lastu pu xs) mid'"
    and hd: "S' (W y) = W s0 OR flg (lastu (lastu pu xs) mid')" and adj: "lastu (lastu pu xs) mid' \<or> u0"
    and S: "\<And>z. z \<in> set (addrs a xs) \<union> set (addrs (y + s0) ys) \<Longrightarrow> S' (W z) = S (W z)"
    and P: "\<And>z. z \<in> set (fends a xs) \<union> set (fends y ((s0, u0) # ys)) \<Longrightarrow> P' (W z) = P (W z)"
  shows "seg S' P' a pu (xs @ mid' @ (s0, u0) # ys)"
proof -
  have "seg S P a pu xs" and ys: "seg S P (y + s0) u0 ys" "even s0" "u0 \<or> P (W (y + s0)) = W s0"
    using seg unfolding seg_append y_def by (auto simp: add.assoc)
  then have "seg S' P' a pu xs" using S P by (subst seg_cong [of a xs S' S P' P]) auto
  moreover have "seg S' P' (y + s0) u0 ys"
    using ys S P by (subst seg_cong [of "y + s0" ys S' S P' P]) (auto split: if_splits)
  moreover have "u0 \<or> P' (W (y + s0)) = W s0" using ys P by (cases u0) auto
  ultimately show ?thesis
    using mid hd adj ys(2) sz by (simp add: seg_append x_def y_def add.assoc)
qed

section \<open>Header words\<close>

lemma even_W: "even (W s) \<longleftrightarrow> even s"
  by (simp add: even_of_nat_iff) 

lemma hdr_clear: "even s \<Longrightarrow> (W s OR flg u) AND NOT 1 = W s"
  by (rule bit_eqI) (auto simp: bit_simps flg_def bit_0 even_W not_less intro: ccontr)

lemma hdr_flag: "even s \<Longrightarrow> (W s OR flg u) AND 1 = flg u"
  by (rule bit_eqI) (auto simp: bit_simps flg_def bit_0 even_W)

lemma hdr_set: "(W s OR flg u) OR 1 = W s OR flg True"
  by (rule bit_eqI) (auto simp: bit_simps flg_def)

lemma flg_simps [simp]: "W s OR flg False = W s" "flg u = 0 \<longleftrightarrow> \<not> u" "flg True = 1"
  by (auto simp: flg_def)

lemma hdr_plus:
  assumes "even s"
  shows "W s OR 1 = W (s + 1)"
proof -
  have "W s AND 1 = 0" using hdr_flag [OF assms, of False] by simp
  then have "W s + 1 = W s OR 1" by (rule disjunctive_add_eq_or)
  then show ?thesis by (simp add: of_nat_add add.commute)
qed

section \<open>The invariant\<close>

definition free_bytes :: "layout \<Rightarrow> nat" where
  "free_bytes bs = sum_list (map fst (filter (\<lambda>b. \<not> snd b) bs))"

definition free_count :: "layout \<Rightarrow> nat" where
  "free_count bs = length (filter (\<lambda>b. \<not> snd b) bs)"

definition used_count :: "layout \<Rightarrow> nat" where
  "used_count bs = length (filter snd bs)"

lemma free_bytes_simps [simp]:
  "free_bytes [] = 0" "free_bytes ((s, u) # bs) = (if u then 0 else s) + free_bytes bs"
  "free_bytes (xs @ ys) = free_bytes xs + free_bytes ys"
  by (auto simp: free_bytes_def)

lemma free_count_simps [simp]:
  "free_count [] = 0" "free_count ((s, u) # bs) = (if u then 0 else 1) + free_count bs"
  "free_count (xs @ ys) = free_count xs + free_count ys"
  by (auto simp: free_count_def)

lemma used_count_simps [simp]:
  "used_count [] = 0" "used_count ((s, u) # bs) = (if u then 1 else 0) + used_count bs"
  "used_count (xs @ ys) = used_count xs + used_count ys"
  by (auto simp: used_count_def)

text \<open>
  \<open>geom ps ms fl a bs\<close>: the page size \<open>ps\<close> and the minimum block size \<open>ms\<close> are usable, the blocks
  start at \<open>a\<close> page aligned and end, with the header of the last block, within the address
  space, and the list anchor at \<open>fl\<close> lies outside.
\<close>

definition geom :: "nat \<Rightarrow> nat \<Rightarrow> nat \<Rightarrow> nat \<Rightarrow> layout \<Rightarrow> bool" where
  "geom ps ms fl a bs \<longleftrightarrow>
     0 < ps \<and> 8 dvd ps \<and> ps dvd ms \<and> 32 \<le> ms \<and> ms < 2 ^ 63
     \<and> ps dvd a + 16 \<and> a + szs bs + 16 < 2 ^ 64
     \<and> (fl + 32 \<le> a \<or> a + szs bs + 16 \<le> fl) \<and> fl < 2 ^ 64
     \<and> (\<forall>b\<in>set bs. ps dvd fst b \<and> ms \<le> fst b)"

definition stats_ok :: "Heap_Statistics \<Rightarrow> layout \<Rightarrow> bool" where
  "stats_ok st bs \<longleftrightarrow> free_size st = W (free_bytes bs) \<and> stats_size st = W (szs bs)
     \<and> free_blocks st = of_nat (free_count bs) \<and> used_blocks st = of_nat (used_count bs)"

definition heap_rep :: "Heap_Control \<Rightarrow> hmem \<Rightarrow> nat \<Rightarrow> layout \<Rightarrow> uintptr list \<Rightarrow> bool" where
  "heap_rep h m a bs fs \<longleftrightarrow>
     geom (unat (page_size h)) (unat (min_block_size h)) (unat (free_list h)) a bs
     \<and> first_block h = W a \<and> last_block h = W (a + szs bs)
     \<and> seg (SF m) (PS m) a True (closed bs)
     \<and> flist (NX m) (PV m) (free_list h) fs \<and> set fs = W ` set (faddrs a bs)
     \<and> stats_ok (stats h) bs"

lemma heap_repD:
  assumes "heap_rep h m a bs fs"
  shows "geom (unat (page_size h)) (unat (min_block_size h)) (unat (free_list h)) a bs"
    and "first_block h = W a" and "last_block h = W (a + szs bs)"
    and "seg (SF m) (PS m) a True (closed bs)"
    and "flist (NX m) (PV m) (free_list h) fs" and "set fs = W ` set (faddrs a bs)"
    and "stats_ok (stats h) bs"
  using assms by (auto simp: heap_rep_def)

lemma geomD:
  assumes "geom ps ms fl a bs"
  shows "0 < ps" "8 dvd ps" "ps dvd ms" "32 \<le> ms" "ms < 2 ^ 63" "ps dvd a + 16" "a + szs bs + 16 < 2 ^ 64"
    "fl + 32 \<le> a \<or> a + szs bs + 16 \<le> fl" "fl < 2 ^ 64"
    "\<And>b. b \<in> set bs \<Longrightarrow> ps dvd fst b \<and> ms \<le> fst b"
  using assms unfolding geom_def by blast+

lemma geom_pos: "geom ps ms fl a bs \<Longrightarrow> pos bs"
  unfolding pos_def using geomD(4,10) by fastforce

lemma geom_closed_pos: "geom ps ms fl a bs \<Longrightarrow> pos (closed bs)"
  using geom_pos [of ps ms fl a bs] geomD(7) [of ps ms fl a bs] by (simp add: closed_def)

lemma dvd_szs: "(\<And>b. b \<in> set bs \<Longrightarrow> ps dvd fst b) \<Longrightarrow> ps dvd szs bs"
  by (induction bs) auto

lemma geom_pages: "geom ps ms fl a bs \<Longrightarrow> ps dvd szs bs"
  using geomD(10) by (intro dvd_szs) blast

text \<open>Addresses of blocks: where a block of a split layout starts, and that it is apart from the others.\<close>

lemma closed_append: "closed (xs @ ys) = xs @ ys @ [(2 ^ 64 - szs (xs @ ys), True)]"
  by (simp add: closed_def)

lemma seg_at:
  assumes "seg S P a pu (xs @ (s, u) # ys)"
  shows "even s" and "S (W (a + szs xs)) = W s OR flg (lastu pu xs)" and "u \<or> P (W (a + szs xs + s)) = W s"
    and "lastu pu xs \<or> u"
  using assms by (auto simp: seg_append)

lemma seg_next:
  assumes "seg S P a pu (xs @ (s, u) # (t, v) # ys)"
  shows "even t" and "S (W (a + szs xs + s)) = W t OR flg u" and "u \<or> v"
  using seg_at [of S P a pu "xs @ [(s, u)]" t v ys] assms by (auto simp: add.assoc)

lemma hdr_reads:
  assumes "SF m b = W s OR flg u" and "even s"
  shows "Heap_Block_size m b = W s" and "Heap_Is_prev_used m b = u"
  using hdr_clear [OF assms(2), of u] hdr_flag [OF assms(2), of u] assms(1)
  unfolding Heap_Block_size_def Heap_Is_prev_used_def HEAP_PREV_BLOCK_USED_def field_reads by simp_all

text \<open>Where a pointer into the first page of a block's area leads.\<close>

lemma unat_mod_W: "p mod q = W (unat p mod unat q)" for p q :: uintptr
  by (simp flip: unat_mod_distrib)

lemma block_of_alloc:
  assumes "ps = unat pg" and "ps dvd x + 16" and "x + 16 \<le> unat p" and "unat p < x + 16 + ps"
  shows "Heap_Block_of_alloc_area p pg = W x"
proof -
  obtain k where k: "x + 16 = ps * k" using assms(2) by (auto simp: dvd_def)
  have "unat p = ps * k + (unat p - (x + 16))" using assms(3) k by linarith
  then have "unat p mod ps = unat p - (x + 16)" using assms(3,4) by (metis add_diff_inverse_nat
      diff_less_mono2 less_diff_conv2 linorder_not_le mod_less mod_mult_self4 nat_add_left_cancel_less)
  then have "p - p mod pg = W (unat p) - W (unat p - (x + 16))" by (simp add: unat_mod_W assms(1))
  also have "\<dots> = W (x + 16)"
    using of_nat_add [of "x + 16" "unat p - (x + 16)", where 'a = uintptr] assms(3) by simp
  finally show ?thesis
    by (simp add: Heap_Block_of_alloc_area_def Heap_Align_down_def HEAP_BLOCK_HEADER_SIZE_def of_nat_add)
qed

lemma W_le: "x < 2 ^ 64 \<Longrightarrow> y < 2 ^ 64 \<Longrightarrow> W x \<le> W y \<longleftrightarrow> x \<le> y"
  by (simp only: word_le_nat_alt unat_W)

lemma W_less: "x < 2 ^ 64 \<Longrightarrow> y < 2 ^ 64 \<Longrightarrow> W x < W y \<longleftrightarrow> x < y"
  by (simp only: word_less_nat_alt unat_W)

lemma heap_rep_in_heap:
  assumes "heap_rep h m a bs fs" and "a \<le> z" and "z \<le> a + szs bs"
  shows "Heap_Is_block_in_heap h (W z)"
  using heap_repD(2,3) [OF assms(1)] geomD(7) [OF heap_repD(1) [OF assms(1)]] assms(2,3)
  by (simp add: Heap_Is_block_in_heap_def W_le)

lemma heap_rep_seg:
  assumes "heap_rep h m a (xs @ mid @ ys) fs"
  shows "seg (SF m) (PS m) a True (xs @ mid @ ys @ [(2 ^ 64 - szs (xs @ mid @ ys), True)])"
  using heap_repD(4) [OF assms] by (simp add: closed_def)

lemma heap_rep_middle:
  assumes rep: "heap_rep h m a (xs @ mid @ ys) fs"
  defines "x \<equiv> a + szs xs" and "y \<equiv> a + szs xs + szs mid"
  assumes nxt: "ys @ [(2 ^ 64 - szs (xs @ mid @ ys), True)] = (s0, u0) # T"
    and sz: "szs mid' = szs mid"
    and ok: "\<And>b. b \<in> set mid' \<Longrightarrow> unat (page_size h) dvd fst b \<and> unat (min_block_size h) \<le> fst b"
    and mid: "seg (SF m') (PS m') x (lastu True xs) mid'"
    and hd: "SF m' (W y) = W s0 OR flg (lastu (lastu True xs) mid')" and adj: "lastu (lastu True xs) mid' \<or> u0"
    and S: "\<And>z. z < 2 ^ 64 \<Longrightarrow> z < x \<or> y < z \<Longrightarrow> SF m' (W z) = SF m (W z)"
    and P: "\<And>z. z < 2 ^ 64 \<Longrightarrow> z \<le> x \<or> y < z \<Longrightarrow> PS m' (W z) = PS m (W z)"
    and fl: "flist (NX m') (PV m') (free_list h) fs'" and fs: "set fs' = W ` set (faddrs a (xs @ mid' @ ys))"
    and h: "h' = h\<lparr>stats := st\<rparr>" and st: "stats_ok st (xs @ mid' @ ys)"
  shows "heap_rep h' m' a (xs @ mid' @ ys) fs'"
proof -
  note g = heap_repD(1) [OF rep]
  have pos: "pos (xs @ mid @ ys)" by (rule geom_pos [OF g])
  let ?r = "2 ^ 64 - szs (xs @ mid @ ys)"
  have seg: "seg (SF m) (PS m) a True (xs @ mid @ (s0, u0) # T)"
    using heap_rep_seg [OF rep] nxt by simp
  have bound: "a + szs (xs @ mid @ ys) < 2 ^ 64" using geomD(7) [OF g] by simp
  have posT: "pos (xs @ mid @ (s0, u0) # T)" using pos bound by (auto simp flip: nxt)
  have aT: "z < 2 ^ 64 \<and> y < z" if z: "z \<in> set (addrs (y + s0) T)" for z
  proof -
    have "addrs y ys @ [a + szs (xs @ mid @ ys)] = y # addrs (y + s0) T"
      using arg_cong [OF nxt, of "addrs y"] by (simp add: addrs_append y_def add.assoc)
    then have "z \<in> set (addrs y ys) \<or> z = a + szs (xs @ mid @ ys)" using z
      by (metis UnE list.set_intros(2) set_append set_ConsD empty_iff empty_set)
    then have "z < 2 ^ 64" using addrs_range [of ys z y] pos bound by (auto simp: y_def)
    moreover have "y < z" using addrs_range [of T z "y + s0"] posT z by auto
    ultimately show ?thesis by simp
  qed
  have fT: "z < 2 ^ 64 \<and> y < z" if z: "z \<in> set (fends y ((s0, u0) # T))" for z
  proof -
    have "z \<in> set (fends y ys)" using z by (simp add: fends_append flip: nxt)
    then show ?thesis using fends_range [of ys z y] pos bound by (auto simp: y_def)
  qed
  have "seg (SF m') (PS m') a True (xs @ mid' @ (s0, u0) # T)"
  proof (rule seg_middle [OF seg sz posT])
    show "seg (SF m') (PS m') (a + szs xs) (lastu True xs) mid'" using mid by (simp add: x_def)
    show "SF m' (W (a + szs xs + szs mid)) = W s0 OR flg (lastu (lastu True xs) mid')" using hd by (simp add: y_def)
    show "lastu (lastu True xs) mid' \<or> u0" by (rule adj)
  next
    fix z assume "z \<in> set (addrs a xs) \<union> set (addrs (a + szs xs + szs mid + s0) T)"
    then show "SF m' (W z) = SF m (W z)"
      using aT [of z] addrs_range [of xs z a] pos bound by (intro S) (auto simp: x_def y_def)
  next
    fix z assume "z \<in> set (fends a xs) \<union> set (fends (a + szs xs + szs mid) ((s0, u0) # T))"
    then show "PS m' (W z) = PS m (W z)"
      using fT [of z] fends_range [of xs z a] pos bound by (intro P) (auto simp: x_def y_def simp del: fends.simps)
  qed
  moreover have "xs @ mid' @ (s0, u0) # T = closed (xs @ mid' @ ys)"
    using sz by (simp add: closed_def flip: nxt)
  moreover have "geom (unat (page_size h)) (unat (min_block_size h)) (unat (free_list h)) a (xs @ mid' @ ys)"
    using g sz ok by (auto simp: geom_def)
  ultimately show ?thesis
    using rep fl fs st sz by (simp add: heap_rep_def h)
qed

end
