(* ===== verification/Heap_Ops.thy ===== *)
theory Heap_Ops
  imports Heap_Layout
begin

text \<open>
  The operations of the Heap Handler keep the invariant of \<^verbatim>\<open>Heap_Layout\<close>, and what they do to
  the sequence of blocks.
\<close>

section \<open>Reading a block of the sequence\<close>

lemma Heap_Block_at_W [simp]: "Heap_Block_at (W x) (W s) = W (x + s)"
  by (simp add: Heap_Block_at_def of_nat_add)

lemma closed_tail:
  obtains s0 u0 T where "ys @ [(r, True)] = (s0, u0) # T" and "ys = [] \<longrightarrow> s0 = r \<and> u0"
    and "ys \<noteq> [] \<longrightarrow> hd ys = (s0, u0)"
  by (cases ys) auto

lemma block_reads:
  assumes "heap_rep h m a (xs @ (s, u) # ys) fs"
  shows "even s" "Heap_Block_size m (W (a + szs xs)) = W s"
    "Heap_Is_prev_used m (W (a + szs xs)) = lastu True xs" "Heap_Is_prev_used m (W (a + szs xs + s)) = u"
    "0 < s" "a + szs xs + s \<le> a + szs (xs @ (s, u) # ys)" "a + szs (xs @ (s, u) # ys) + 16 < 2 ^ 64"
    "lastu True xs \<or> u" "u \<or> PS m (W (a + szs xs + s)) = W s"
proof -
  let ?r = "2 ^ 64 - szs (xs @ [(s, u)] @ ys)"
  have seg: "seg (SF m) (PS m) a True (xs @ (s, u) # ys @ [(?r, True)])"
    using heap_rep_seg [of h m a xs "[(s, u)]" ys fs] assms by simp
  note at = seg_at [OF seg]
  show "even s" "lastu True xs \<or> u" "u \<or> PS m (W (a + szs xs + s)) = W s" by (rule at)+
  show "Heap_Block_size m (W (a + szs xs)) = W s" "Heap_Is_prev_used m (W (a + szs xs)) = lastu True xs"
    using hdr_reads [OF at(2,1)] by auto
  obtain s0 u0 T where T: "ys @ [(?r, True)] = (s0, u0) # T" by (rule closed_tail)
  have seg2: "seg (SF m) (PS m) a True (xs @ (s, u) # (s0, u0) # T)" using seg T by simp
  show "Heap_Is_prev_used m (W (a + szs xs + s)) = u" using hdr_reads [OF seg_next(2,1) [OF seg2]] by auto
  show "0 < s" using geom_pos [OF heap_repD(1) [OF assms]] by simp
  show "a + szs xs + s \<le> a + szs (xs @ (s, u) # ys)" "a + szs (xs @ (s, u) # ys) + 16 < 2 ^ 64"
    using geomD(7) [OF heap_repD(1) [OF assms]] by auto
qed

lemma last_reads:
  assumes "heap_rep h m a bs fs"
  shows "even (2 ^ 64 - szs bs)" "Heap_Block_size m (W (a + szs bs)) = W (2 ^ 64 - szs bs)"
    "Heap_Is_prev_used m (W (a + szs bs)) = lastu True bs" "W (a + szs bs + (2 ^ 64 - szs bs)) = W a"
    "SF m (W (a + szs bs)) = W (2 ^ 64 - szs bs) OR flg (lastu True bs)"
proof -
  have seg: "seg (SF m) (PS m) a True (bs @ (2 ^ 64 - szs bs, True) # [])"
    using heap_repD(4) [OF assms] by (simp add: closed_def)
  note at = seg_at [OF seg]
  show "even (2 ^ 64 - szs bs)" "SF m (W (a + szs bs)) = W (2 ^ 64 - szs bs) OR flg (lastu True bs)" by (rule at)+
  show "Heap_Block_size m (W (a + szs bs)) = W (2 ^ 64 - szs bs)"
    "Heap_Is_prev_used m (W (a + szs bs)) = lastu True bs"
    using hdr_reads [OF at(2,1)] by auto
  have "a + szs bs + (2 ^ 64 - szs bs) = a + 2 ^ 64" using geomD(7) [OF heap_repD(1) [OF assms]] by simp
  moreover have "W (2 ^ 64) = 0" by simp
  ultimately show "W (a + szs bs + (2 ^ 64 - szs bs)) = W a" by (simp only: of_nat_add add_0_right)
qed

lemma first_prev_used:
  assumes "heap_rep h m a bs fs"
  shows "Heap_Is_prev_used m (W a)"
  using block_reads(3) [of h m a "[]" _ _ _ fs] last_reads(3) [OF assms] assms by (cases bs) auto

text \<open>Whether the block after a block is free, as \<^verbatim>\<open>_Heap_Free\<close> and \<^verbatim>\<open>_Heap_Is_used\<close> find out.\<close>

lemma next_used:
  assumes "heap_rep h m a (xs @ (s, u) # ys) fs"
  shows "Heap_Is_used m (W (a + szs xs + s)) \<longleftrightarrow> (ys = [] \<or> snd (hd ys))"
proof (cases ys)
  case Nil
  then show ?thesis using last_reads(2,4) [OF assms] first_prev_used [OF assms]
    by (simp add: Heap_Is_used_def add.assoc)
next
  case (Cons b zs)
  obtain t v where "b = (t, v)" by (cases b)
  then show ?thesis using Cons block_reads [of h m a "xs @ [(s, u)]" t v zs fs] assms
    by (simp add: Heap_Is_used_def add.assoc)
qed

lemma next_is_free:
  assumes "heap_rep h m a (xs @ (s, u) # ys) fs"
  shows "(W (a + szs xs + s) \<noteq> last_block h
          \<and> \<not> Heap_Is_prev_used m (Heap_Block_at (W (a + szs xs + s)) (Heap_Block_size m (W (a + szs xs + s)))))
         \<longleftrightarrow> (ys \<noteq> [] \<and> \<not> snd (hd ys))"
proof (cases ys)
  case Nil
  then show ?thesis using heap_repD(3) [OF assms] by (simp add: add.assoc)
next
  case (Cons b zs)
  obtain t v where "b = (t, v)" by (cases b)
  with Cons have rep: "heap_rep h m a ((xs @ [(s, u)]) @ (t, v) # zs) fs" using assms by simp
  have "W (a + szs xs + s) \<noteq> last_block h"
    using block_reads(5,6,7) [OF rep] heap_repD(3) [OF rep] by (simp add: W_eq add.assoc)
  then show ?thesis using next_used [OF assms] by (simp add: Heap_Is_used_def Let_def Cons)
qed

lemma next_size:
  assumes "heap_rep h m a (xs @ (s, u) # (t, v) # zs) fs"
  shows "Heap_Block_size m (W (a + szs xs + s)) = W t"
  using block_reads(2) [of h m a "xs @ [(s, u)]" t v zs fs] assms by (simp add: add.assoc)

lemma faddrs_range: "pos bs \<Longrightarrow> z \<in> set (faddrs a bs) \<Longrightarrow> a \<le> z \<and> z < a + szs bs"
  using faddrs_addrs addrs_range by blast

lemma fl_apart:
  assumes "heap_rep h m a bs fs" and "a \<le> z" and "z \<le> a + szs bs"
  shows "W z \<noteq> free_list h"
proof -
  note g = heap_repD(1) [OF assms(1)]
  have "unat (W z) = z" using geomD(7) [OF g] assms(3) by (intro unat_W) simp
  then show ?thesis using geomD(8) [OF g] assms(2,3) by auto
qed

lemma not_in_fs:
  assumes "heap_rep h m a bs fs" and "z \<notin> set (faddrs a bs)" and "z < 2 ^ 64"
  shows "W z \<notin> set fs"
proof
  assume "W z \<in> set fs"
  then obtain y where y: "y \<in> set (faddrs a bs)" "W z = W y" using heap_repD(6) [OF assms(1)] by auto
  have "y < a + szs bs" using faddrs_range [OF geom_pos [OF heap_repD(1) [OF assms(1)]] y(1)] by simp
  then have "y < 2 ^ 64" using geomD(7) [OF heap_repD(1) [OF assms(1)]] by simp
  then show False using y assms(2,3) by (simp add: W_eq)
qed

lemma middle_not_free:
  assumes "pos (xs @ (s, u) # ys)" and "a + szs xs \<le> z" and "z < a + szs xs + s" and "u \<or> z \<noteq> a + szs xs"
  shows "z \<notin> set (faddrs a (xs @ (s, u) # ys))"
  using assms faddrs_range [of xs z a] faddrs_range [of ys z "a + szs xs + s"]
  by (auto simp: faddrs_append)

lemma alloc_ptr:
  assumes rep: "heap_rep h m a (xs @ (s, u) # ys) fs"
    and ptr: "a + szs xs + 16 \<le> unat p" "unat p < a + szs xs + 16 + unat (page_size h)"
  shows "p \<noteq> 0" and "Heap_Block_of_alloc_area p (page_size h) = W (a + szs xs)"
proof -
  show "p \<noteq> 0" using ptr(1) by auto
  note g = heap_repD(1) [OF rep]
  have "unat (page_size h) dvd szs xs" using geomD(10) [OF g] by (intro dvd_szs) auto
  then have "unat (page_size h) dvd a + szs xs + 16" using geomD(6) [OF g] by (metis add.assoc add.commute dvd_add)
  then show "Heap_Block_of_alloc_area p (page_size h) = W (a + szs xs)"
    using ptr by (intro block_of_alloc) auto
qed

lemma prev_block:
  assumes rep: "heap_rep h m a ((zs @ [(p, False)]) @ (s, u) # ys) fs"
  shows "PS m (W (a + szs zs + p)) = W p" and "W (a + szs zs + p) + - W p = W (a + szs zs)"
    and "Heap_Is_prev_used m (W (a + szs zs))" and "lastu True zs"
  using block_reads [of h m a zs p False "(s, u) # ys" fs] rep by (auto simp: of_nat_add)

section \<open>Deallocation\<close>

text \<open>The four cases of \<^verbatim>\<open>_Heap_Free\<close>: which neighbours of the freed block are free.\<close>

lemmas free_unfold = Heap_Free_def Let_def HEAP_PREV_BLOCK_USED_def upd_stats_def

text \<open>Whatever is merged, the result is one free block in place of the merged ones.\<close>

lemma free_result:
  assumes rep: "heap_rep h m a (xs @ mid @ ys) fs"
    and T: "ys @ [(2 ^ 64 - szs (xs @ mid @ ys), True)] = (s0, u0) # T"
    and t: "t = szs mid" "mid \<noteq> []" and prv: "lastu True xs" and u0: u0
    and SF: "SF m' = (SF m)(W (a + szs xs) := W t OR 1, W (a + szs xs + t) := W s0)"
    and PS: "PS m' = (PS m)(W (a + szs xs + t) := W t)"
    and fl: "flist (NX m') (PV m') (free_list h) fs'"
    and fs: "set fs' = W ` set (faddrs a xs) \<union> {W (a + szs xs)} \<union> W ` set (faddrs (a + szs xs + t) ys)"
    and st: "stats_ok st (xs @ [(t, False)] @ ys)"
  shows "heap_rep (h\<lparr>stats := st\<rparr>) m' a (xs @ [(t, False)] @ ys) fs'"
proof (rule heap_rep_middle [OF rep T _ _ _ _ _ _ _ fl _ refl st])
  note g = heap_repD(1) [OF rep]
  have bound: "a + szs xs + t < 2 ^ 64" using geomD(7) [OF g] t by simp
  have "unat (page_size h) dvd szs mid" using geomD(10) [OF g] by (intro dvd_szs) auto
  then have ok: "unat (page_size h) dvd t \<and> unat (min_block_size h) \<le> t"
    unfolding t(1) using geomD(10) [OF g, of "hd mid"] t(2) by (cases mid) (auto simp: trans_le_add1)
  then have pos: "0 < t" "even t"
    using geomD(2,4) [OF g] by (auto intro: dvd_trans [of 2 8 t] dvd_trans [of 8 "unat (page_size h)" t])
  show "szs [(t, False)] = szs mid" using t by simp
  show "unat (page_size h) dvd fst b \<and> unat (min_block_size h) \<le> fst b" if "b \<in> set [(t, False)]" for b
    using ok that by simp
  show "seg (SF m') (PS m') (a + szs xs) (lastu True xs) [(t, False)]"
    using pos bound prv by (simp add: SF PS W_eq)
  show "SF m' (W (a + szs xs + szs mid)) = W s0 OR flg (lastu (lastu True xs) [(t, False)])"
    by (simp add: SF t)
  show "lastu (lastu True xs) [(t, False)] \<or> u0" using u0 by simp
  show "SF m' (W z) = SF m (W z)" if "z < 2 ^ 64" "z < a + szs xs \<or> a + szs xs + szs mid < z" for z
    using that bound by (auto simp: SF W_eq t)
  show "PS m' (W z) = PS m (W z)" if "z < 2 ^ 64" "z \<le> a + szs xs \<or> a + szs xs + szs mid < z" for z
    using that bound pos by (auto simp: PS W_eq t)
  show "set fs' = W ` set (faddrs a (xs @ [(t, False)] @ ys))" using fs by (simp add: faddrs_append image_Un)
qed

text \<open>The statistics after a block of \<open>s\<close> bytes is freed: \<open>f\<close> is what is done to \<open>free_blocks\<close>.\<close>

definition freed_stats :: "(Heap_Statistics \<Rightarrow> Heap_Statistics) \<Rightarrow> nat \<Rightarrow> Heap_Statistics \<Rightarrow> Heap_Statistics" where
  "freed_stats f s st = (f st)\<lparr>used_blocks := used_blocks (f st) - 1, frees := frees (f st) + 1,
     free_size := free_size (f st) + W s, lifetime_freed := lifetime_freed (f st) + W s\<rparr>"

definition inc_free_blocks :: "Heap_Statistics \<Rightarrow> Heap_Statistics" where
  "inc_free_blocks st = (let st = st\<lparr>free_blocks := free_blocks st + 1\<rparr>
     in if max_free_blocks st < free_blocks st then st\<lparr>max_free_blocks := free_blocks st\<rparr> else st)"

lemmas freed_stats_defs = freed_stats_def inc_free_blocks_def stats_ok_def Let_def

lemma used_block_tail:
  assumes "heap_rep h m a (xs @ (s, u) # ys) fs"
  obtains s0 u0 T where "ys @ [(2 ^ 64 - szs (xs @ [(s, u)] @ ys), True)] = (s0, u0) # T"
    and "u0 \<longleftrightarrow> ys = [] \<or> snd (hd ys)" and "SF m (W (a + szs xs + s)) = W s0 OR flg u" and "even s0"
    and "u \<or> u0"
proof -
  let ?r = "2 ^ 64 - szs (xs @ [(s, u)] @ ys)"
  obtain s0 u0 T where T: "ys @ [(?r, True)] = (s0, u0) # T"
    and T': "ys = [] \<longrightarrow> s0 = ?r \<and> u0" "ys \<noteq> [] \<longrightarrow> hd ys = (s0, u0)" by (rule closed_tail)
  have "seg (SF m) (PS m) a True (xs @ (s, u) # (s0, u0) # T)"
    using heap_rep_seg [of h m a xs "[(s, u)]" ys fs] assms T by simp
  note nx = seg_next [OF this]
  show thesis by (rule that [OF T _ nx(2,1,3)]) (use T' in auto)
qed

lemma Heap_Free_no_coalesce:
  assumes rep: "heap_rep h m a (xs @ (s, True) # ys) fs"
    and ptr: "a + szs xs + 16 \<le> unat p" "unat p < a + szs xs + 16 + unat (page_size h)"
    and prv: "lastu True xs" and nxt: "ys = [] \<or> snd (hd ys)"
  shows "\<exists>h' m' fs'. Heap_Free h p m = (True, h', m') \<and> heap_rep h' m' a (xs @ [(s, False)] @ ys) fs'"
proof -
  let ?x = "a + szs xs"
  note rd = block_reads [OF rep] and ap = alloc_ptr [OF rep ptr] and g = heap_repD(1) [OF rep]
  have xb: "?x + s < 2 ^ 64" using rd(6,7) by simp
  obtain s0 u0 T where T: "ys @ [(2 ^ 64 - szs (xs @ [(s, True)] @ ys), True)] = (s0, u0) # T"
    and u0: "u0 \<longleftrightarrow> ys = [] \<or> snd (hd ys)" and hd: "SF m (W (?x + s)) = W s0 OR flg True" "even s0"
    using used_block_tail [OF rep] by blast
  let ?m1 = "Heap_Free_list_insert_after (free_list h) (W ?x) m"
  let ?m2 = "set_size_and_flag (W ?x) (W s OR 1) ?m1"
  let ?m3 = "set_size_and_flag (W (?x + s)) (SF ?m2 (W (?x + s)) AND NOT 1) ?m2"
  let ?m' = "set_prev_size (W (?x + s)) (W s) ?m3"
  let ?st = "freed_stats inc_free_blocks s (stats h)"
  have "Heap_Free h p m = (True, h\<lparr>stats := ?st\<rparr>, ?m')"
    using ap rd next_is_free [OF rep] nxt prv heap_rep_in_heap [OF rep, of ?x] heap_rep_in_heap [OF rep, of "?x + s"]
    by (auto simp: free_unfold freed_stats_defs Heap_Free_list_head_def field_reads)
  moreover have "heap_rep (h\<lparr>stats := ?st\<rparr>) ?m' a (xs @ [(s, False)] @ ys) (W ?x # fs)"
  proof (rule free_result [OF _ T])
    show "heap_rep h m a (xs @ [(s, True)] @ ys) fs" using rep by simp
    show "SF ?m' = (SF m)(W ?x := W s OR 1, W (?x + s) := W s0)"
      using hdr_clear [OF hd(2), of True] hd(1) rd(5) xb by (simp add: hfields W_eq)
    show "flist (NX ?m') (PV ?m') (free_list h) (W ?x # fs)"
      using flist_insert_after [of "NX m" "PV m" "free_list h" "[]" fs "W ?x" "free_list h"] heap_repD(5) [OF rep]
        fl_apart [OF rep, of ?x] not_in_fs [OF rep middle_not_free [OF geom_pos [OF g]], of ?x] rd(5) xb
      by (simp add: hfields)
    show "set (W ?x # fs) = W ` set (faddrs a xs) \<union> {W ?x} \<union> W ` set (faddrs (?x + s) ys)"
      using heap_repD(6) [OF rep] by (auto simp: faddrs_append)
    show "stats_ok ?st (xs @ [(s, False)] @ ys)"
      using heap_repD(7) [OF rep] by (auto simp: freed_stats_defs of_nat_add)
    show u0 using u0 nxt by simp
  qed (simp_all add: hfields prv)
  ultimately show ?thesis by blast
qed

lemma fs_split:
  assumes rep: "heap_rep h m a (xs @ (n, False) # ys) fs"
  obtains F1 F2 where "fs = F1 @ W (a + szs xs) # F2"
    and "set (F1 @ F2) = W ` set (faddrs a xs) \<union> W ` set (faddrs (a + szs xs + n) ys)"
proof -
  let ?x = "a + szs xs" and ?R = "set (faddrs a xs) \<union> set (faddrs (a + szs xs + n) ys)"
  note g = heap_repD(1) [OF rep]
  have pos: "pos (xs @ (n, False) # ys)" by (rule geom_pos [OF g])
  have set: "set fs = insert (W ?x) (W ` ?R)" using heap_repD(6) [OF rep] by (simp add: faddrs_append)
  then obtain F1 F2 where F: "fs = F1 @ W ?x # F2" using split_list [of "W ?x" fs] by auto
  have "z < 2 ^ 64 \<and> z \<noteq> ?x" if "z \<in> ?R" for z
    using that pos geomD(7) [OF g] faddrs_range [of xs z a] faddrs_range [of ys z "?x + n"] by auto
  then have "W ?x \<notin> W ` ?R" using geomD(7) [OF g] by (auto simp: W_eq) blast+
  moreover have "W ?x \<notin> set (F1 @ F2)" using heap_repD(5) [OF rep] F by (auto simp: flist_def)
  moreover have "insert (W ?x) (set (F1 @ F2)) = insert (W ?x) (W ` ?R)" using set F by auto
  ultimately have "set (F1 @ F2) = W ` ?R" using insert_ident by metis
  then show thesis using that F by (simp add: image_Un)
qed

lemma Heap_Free_coalesce_next:
  assumes rep: "heap_rep h m a (xs @ (s, True) # (n, False) # ys) fs"
    and ptr: "a + szs xs + 16 \<le> unat p" "unat p < a + szs xs + 16 + unat (page_size h)"
    and prv: "lastu True xs"
  shows "\<exists>h' m' fs'. Heap_Free h p m = (True, h', m') \<and> heap_rep h' m' a (xs @ [(s + n, False)] @ ys) fs'"
proof -
  let ?x = "a + szs xs"
  note rd = block_reads [OF rep] and ap = alloc_ptr [OF rep ptr] and g = heap_repD(1) [OF rep]
  have rep2: "heap_rep h m a ((xs @ [(s, True)]) @ (n, False) # ys) fs" using rep by simp
  note rd2 = block_reads [OF rep2]
  have xb: "?x + s + n < 2 ^ 64" using rd2(6,7) by simp
  obtain s0 u0 T where T: "ys @ [(2 ^ 64 - szs ((xs @ [(s, True)]) @ [(n, False)] @ ys), True)] = (s0, u0) # T"
    and hd: "SF m (W (a + szs (xs @ [(s, True)]) + n)) = W s0 OR flg False" and u0: "False \<or> u0"
    using used_block_tail [OF rep2] by blast
  obtain F1 F2 where fs: "fs = F1 @ W (a + szs (xs @ [(s, True)])) # F2"
    and F: "set (F1 @ F2) = W ` set (faddrs a (xs @ [(s, True)])) \<union> W ` set (faddrs (a + szs (xs @ [(s, True)]) + n) ys)"
    by (rule fs_split [OF rep2])
  let ?m1 = "Heap_Free_list_replace (W (?x + s)) (W ?x) m"
  let ?m2 = "set_size_and_flag (W ?x) (W (s + n) OR 1) ?m1"
  let ?m' = "set_prev_size (W (?x + (s + n))) (W (s + n)) ?m2"
  let ?st = "freed_stats id s (stats h)"
  have "Heap_Free h p m = (True, h\<lparr>stats := ?st\<rparr>, ?m')"
    using ap rd next_is_free [OF rep] next_size [OF rep] prv heap_rep_in_heap [OF rep, of ?x]
      heap_rep_in_heap [OF rep, of "?x + s"]
    by (auto simp: free_unfold freed_stats_defs field_reads simp flip: of_nat_add)
  moreover have "heap_rep (h\<lparr>stats := ?st\<rparr>) ?m' a (xs @ [(s + n, False)] @ ys) (F1 @ W ?x # F2)"
  proof (rule free_result)
    show "heap_rep h m a (xs @ [(s, True), (n, False)] @ ys) fs" using rep by simp
    show "ys @ [(2 ^ 64 - szs (xs @ [(s, True), (n, False)] @ ys), True)] = (s0, u0) # T" using T by simp
    show "SF ?m' = (SF m)(W ?x := W (s + n) OR 1, W (?x + (s + n)) := W s0)"
      using hd rd(5) rd2(5) xb by (auto simp: hfields W_eq fun_eq_iff add.assoc)
    show "flist (NX ?m') (PV ?m') (free_list h) (F1 @ W ?x # F2)"
      using flist_replace [of "NX m" "PV m" "free_list h" F1 "W (?x + s)" F2 "W ?x"] heap_repD(5) [OF rep]
        fl_apart [OF rep, of ?x] not_in_fs [OF rep middle_not_free [OF geom_pos [OF g]], of ?x] rd(5) xb fs
      by (simp add: hfields add.assoc)
    show "set (F1 @ W ?x # F2) = W ` set (faddrs a xs) \<union> {W ?x} \<union> W ` set (faddrs (?x + (s + n)) ys)"
      using F by (auto simp: faddrs_append add.assoc)
    show "stats_ok ?st (xs @ [(s + n, False)] @ ys)"
      using heap_repD(7) [OF rep] by (auto simp: freed_stats_defs of_nat_add)
    show u0 using u0 by simp
  qed (simp_all add: hfields prv)
  ultimately show ?thesis by blast
qed

lemma Heap_Free_coalesce_prev:
  assumes rep: "heap_rep h m a (zs @ (q, False) # (s, True) # ys) fs"
    and ptr: "a + szs zs + q + 16 \<le> unat p" "unat p < a + szs zs + q + 16 + unat (page_size h)"
    and nxt: "ys = [] \<or> snd (hd ys)"
  shows "\<exists>h' m' fs'. Heap_Free h p m = (True, h', m') \<and> heap_rep h' m' a (zs @ [(q + s, False)] @ ys) fs'"
proof -
  let ?z = "a + szs zs"
  have rep2: "heap_rep h m a ((zs @ [(q, False)]) @ (s, True) # ys) fs" using rep by simp
  note rd = block_reads [OF rep2] and g = heap_repD(1) [OF rep] and pb = prev_block [OF rep2]
  note ap = alloc_ptr [OF rep2, of p] and rd1 = block_reads [OF rep]
  have xb: "?z + q + s < 2 ^ 64" using rd(6,7) by simp
  obtain s0 u0 T where T: "ys @ [(2 ^ 64 - szs ((zs @ [(q, False)]) @ [(s, True)] @ ys), True)] = (s0, u0) # T"
    and u0: "u0 \<longleftrightarrow> ys = [] \<or> snd (hd ys)"
    and hd: "SF m (W (a + szs (zs @ [(q, False)]) + s)) = W s0 OR flg True" "even s0"
    using used_block_tail [OF rep2] by blast
  let ?m1 = "set_size_and_flag (W ?z) (W (q + s) OR 1) m"
  let ?m2 = "set_size_and_flag (W (?z + (q + s))) (SF ?m1 (W (?z + (q + s))) AND NOT 1) ?m1"
  let ?m' = "set_prev_size (W (?z + (q + s))) (W (q + s)) ?m2"
  let ?st = "freed_stats id s (stats h)"
  have nz: "W s + W q = W (q + s)" by (simp add: of_nat_add)
  have "Heap_Free h p m = (True, h\<lparr>stats := ?st\<rparr>, ?m')"
    using ap rd next_is_free [OF rep2] nxt ptr pb heap_rep_in_heap [OF rep, of ?z]
      heap_rep_in_heap [OF rep, of "?z + q"] heap_rep_in_heap [OF rep, of "?z + q + s"]
    by (auto simp: free_unfold freed_stats_defs field_reads Heap_Block_at_def [of _ "- _"] nz add.assoc)
  moreover have "heap_rep (h\<lparr>stats := ?st\<rparr>) ?m' a (zs @ [(q + s, False)] @ ys) fs"
  proof (rule free_result)
    show "heap_rep h m a (zs @ [(q, False), (s, True)] @ ys) fs" using rep by simp
    show "ys @ [(2 ^ 64 - szs (zs @ [(q, False), (s, True)] @ ys), True)] = (s0, u0) # T" using T by simp
    show "SF ?m' = (SF m)(W ?z := W (q + s) OR 1, W (?z + (q + s)) := W s0)"
      using hdr_clear [OF hd(2), of True] hd(1) rd(5) rd1(5) xb by (simp add: hfields W_eq add.assoc)
    show "flist (NX ?m') (PV ?m') (free_list h) fs" using heap_repD(5) [OF rep] by (simp add: hfields)
    show "set fs = W ` set (faddrs a zs) \<union> {W ?z} \<union> W ` set (faddrs (?z + (q + s)) ys)"
      using heap_repD(6) [OF rep] by (auto simp: faddrs_append add.assoc)
    show "stats_ok ?st (zs @ [(q + s, False)] @ ys)"
      using heap_repD(7) [OF rep] by (auto simp: freed_stats_defs of_nat_add)
    show u0 using u0 nxt by simp
  qed (simp_all add: hfields pb)
  ultimately show ?thesis by blast
qed

lemma Heap_Free_coalesce_both:
  assumes rep: "heap_rep h m a (zs @ (q, False) # (s, True) # (n, False) # ys) fs"
    and ptr: "a + szs zs + q + 16 \<le> unat p" "unat p < a + szs zs + q + 16 + unat (page_size h)"
  shows "\<exists>h' m' fs'. Heap_Free h p m = (True, h', m') \<and> heap_rep h' m' a (zs @ [(q + s + n, False)] @ ys) fs'"
proof -
  let ?z = "a + szs zs"
  have rep2: "heap_rep h m a ((zs @ [(q, False)]) @ (s, True) # (n, False) # ys) fs" using rep by simp
  have rep3: "heap_rep h m a ((zs @ [(q, False), (s, True)]) @ (n, False) # ys) fs" using rep by simp
  note rd1 = block_reads [OF rep] and rd = block_reads [OF rep2] and rd3 = block_reads [OF rep3]
  note g = heap_repD(1) [OF rep] and pb = prev_block [OF rep2] and ap = alloc_ptr [OF rep2, of p]
  have xb: "?z + q + s + n < 2 ^ 64" using rd3(6,7) by simp
  obtain s0 u0 T where T: "ys @ [(2 ^ 64 - szs ((zs @ [(q, False), (s, True)]) @ [(n, False)] @ ys), True)] = (s0, u0) # T"
    and hd: "SF m (W (a + szs (zs @ [(q, False), (s, True)]) + n)) = W s0 OR flg False" and u0: "False \<or> u0"
    using used_block_tail [OF rep3] by blast
  obtain F1 F2 where fs: "fs = F1 @ W (a + szs (zs @ [(q, False), (s, True)])) # F2"
    and F: "set (F1 @ F2) = W ` set (faddrs a (zs @ [(q, False), (s, True)]))
      \<union> W ` set (faddrs (a + szs (zs @ [(q, False), (s, True)]) + n) ys)"
    by (rule fs_split [OF rep3])
  let ?t = "q + s + n"
  let ?m1 = "Heap_Free_list_remove (W (?z + q + s)) m"
  let ?m2 = "set_size_and_flag (W ?z) (W ?t OR 1) ?m1"
  let ?m' = "set_prev_size (W (?z + ?t)) (W ?t) ?m2"
  let ?st = "freed_stats (\<lambda>st. st\<lparr>free_blocks := free_blocks st - 1\<rparr>) s (stats h)"
  have nz: "W s + (W q + W n) = W (q + (s + n))" by (simp add: of_nat_add)
  have "Heap_Free h p m = (True, h\<lparr>stats := ?st\<rparr>, ?m')"
    using ap rd next_is_free [OF rep2] next_size [OF rep2] ptr pb heap_rep_in_heap [OF rep, of ?z]
      heap_rep_in_heap [OF rep, of "?z + q"] heap_rep_in_heap [OF rep, of "?z + q + s"]
    by (auto simp: free_unfold freed_stats_defs field_reads Heap_Block_at_def [of _ "- _"] nz add.assoc)
  moreover have "heap_rep (h\<lparr>stats := ?st\<rparr>) ?m' a (zs @ [(?t, False)] @ ys) (F1 @ F2)"
  proof (rule free_result)
    show "heap_rep h m a (zs @ [(q, False), (s, True), (n, False)] @ ys) fs" using rep by simp
    show "ys @ [(2 ^ 64 - szs (zs @ [(q, False), (s, True), (n, False)] @ ys), True)] = (s0, u0) # T"
      using T by simp
    show "SF ?m' = (SF m)(W ?z := W ?t OR 1, W (?z + ?t) := W s0)"
      using hd rd(5) rd1(5) rd3(5) xb by (auto simp: hfields W_eq fun_eq_iff add.assoc)
    show "flist (NX ?m') (PV ?m') (free_list h) (F1 @ F2)"
      using flist_remove [of "NX m" "PV m" "free_list h" F1 "W (?z + q + s)" F2] heap_repD(5) [OF rep] fs
      by (simp add: hfields add.assoc)
    show "set (F1 @ F2) = W ` set (faddrs a zs) \<union> {W ?z} \<union> W ` set (faddrs (?z + ?t) ys)"
      using F by (auto simp: faddrs_append add.assoc)
    show "stats_ok ?st (zs @ [(?t, False)] @ ys)"
      using heap_repD(7) [OF rep] by (auto simp: freed_stats_defs of_nat_add)
    show u0 using u0 by simp
  qed (simp_all add: hfields pb)
  ultimately show ?thesis by blast
qed

text \<open>What freeing does to the sequence of blocks: the block and its free neighbours become one.\<close>

definition free_layout :: "layout \<Rightarrow> nat \<Rightarrow> layout \<Rightarrow> layout" where
  "free_layout xs s ys =
     (let (xs, q) = (if lastu True xs then (xs, 0) else (butlast xs, fst (last xs)));
          (n, ys) = (case ys of (n, False) # zs \<Rightarrow> (n, zs) | _ \<Rightarrow> (0, ys))
      in xs @ [(q + s + n, False)] @ ys)"

lemma Heap_Free_rep:
  assumes rep: "heap_rep h m a (xs @ (s, True) # ys) fs"
    and ptr: "a + szs xs + 16 \<le> unat p" "unat p < a + szs xs + 16 + unat (page_size h)"
  shows "\<exists>h' m' fs'. Heap_Free h p m = (True, h', m') \<and> heap_rep h' m' a (free_layout xs s ys) fs'"
proof (cases "lastu True xs")
  case True
  show ?thesis
  proof (cases "ys = [] \<or> snd (hd ys)")
    case nxt: True
    then have "free_layout xs s ys = xs @ [(s, False)] @ ys"
      using True by (auto simp: free_layout_def split: list.split)
    then show ?thesis using Heap_Free_no_coalesce [OF rep ptr True nxt] by simp
  next
    case False
    then obtain n zs where ys: "ys = (n, False) # zs" by (cases ys) auto
    then have "free_layout xs s ys = xs @ [(s + n, False)] @ zs" using True by (simp add: free_layout_def)
    then show ?thesis using Heap_Free_coalesce_next [of h m a xs s n zs fs p] rep ptr True ys by simp
  qed
next
  case False
  then obtain zs q where xs: "xs = zs @ [(q, False)]" by (cases xs rule: rev_cases) auto
  show ?thesis
  proof (cases "ys = [] \<or> snd (hd ys)")
    case nxt: True
    then have "free_layout xs s ys = zs @ [(q + s, False)] @ ys"
      using xs by (auto simp: free_layout_def split: list.split)
    then show ?thesis using Heap_Free_coalesce_prev [of h m a zs q s ys fs p] rep ptr nxt xs by (simp add: add.assoc)
  next
    case False
    then obtain n vs where ys: "ys = (n, False) # vs" by (cases ys) auto
    then have "free_layout xs s ys = zs @ [(q + s + n, False)] @ vs" using xs by (simp add: free_layout_def)
    then show ?thesis using Heap_Free_coalesce_both [of h m a zs q s n vs fs p] rep ptr xs ys by (simp add: add.assoc)
  qed
qed

text \<open>Pointers that do not lead to a used block are refused, and nothing changes.\<close>

lemma Heap_Free_refuses_free:
  assumes rep: "heap_rep h m a (xs @ (s, False) # ys) fs"
    and ptr: "a + szs xs + 16 \<le> unat p" "unat p < a + szs xs + 16 + unat (page_size h)"
  shows "Heap_Free h p m = (False, h, m)"
  using alloc_ptr [OF rep ptr] block_reads [OF rep] by (simp add: Heap_Free_def Let_def)

lemma Heap_Free_refuses_outside:
  assumes "p \<noteq> 0" and "\<not> Heap_Is_block_in_heap h (Heap_Block_of_alloc_area p (page_size h))"
  shows "Heap_Free h p m = (False, h, m)"
  using assms by (simp add: Heap_Free_def Let_def)

end
