(* ===== verification/Heap_Alloc.thy ===== *)
theory Heap_Alloc
  imports Heap_Ops
begin

text \<open>
  Allocation in the Heap Handler: splitting a block, searching the free list with alignment and
  boundary constraints, and resizing.
\<close>

section \<open>Alignment\<close>

definition align_up :: "nat \<Rightarrow> nat \<Rightarrow> nat" where
  "align_up v k = (if v mod k = 0 then v else v - v mod k + k)"

lemma align_up_props:
  assumes "0 < k"
  shows "k dvd align_up v k" and "v \<le> align_up v k" and "align_up v k < v + k"
proof -
  have "k dvd v - v mod k" by (rule dvd_minus_mod)
  then have "k dvd v - v mod k + k" by (rule dvd_add) simp
  then show "k dvd align_up v k" unfolding align_up_def by (auto simp del: Nat.diff_add_assoc2)
  have "v mod k < k" "v mod k \<le> v" using assms by auto
  then have "v \<le> v - v mod k + k" "v mod k \<noteq> 0 \<longrightarrow> v - v mod k + k < v + k" by linarith+
  then show "v \<le> align_up v k" "align_up v k < v + k"
    using assms by (auto simp: align_up_def simp del: Nat.diff_add_assoc2)
qed

lemma Heap_Align_up_W:
  assumes "v < 2 ^ 64"
  shows "Heap_Align_up (W v) pg = W (align_up v (unat pg))"
proof -
  have "W v mod pg = W (v mod unat pg)" using unat_W [OF assms] by (simp add: unat_mod_W)
  moreover have "W (v mod unat pg) = 0 \<longleftrightarrow> v mod unat pg = 0"
    using W_eq [of "v mod unat pg" 0] assms le_less_trans [OF mod_less_eq_dividend assms] by simp
  moreover have "W v - W (v mod unat pg) + pg = W (v - v mod unat pg + unat pg)"
    unfolding of_nat_add by (subst of_nat_diff) auto
  ultimately show ?thesis by (simp add: Heap_Align_up_def align_up_def Let_def)
qed

lemma Heap_Align_down_unat: "unat (Heap_Align_down v k) = unat v - unat v mod unat k"
  by (simp add: Heap_Align_down_def unat_sub unat_mod_distrib word_le_nat_alt)

section \<open>Splitting\<close>

text \<open>
  The bytes of a block an allocation of \<open>A\<close> bytes needs, header included and bonus excluded,
  rounded up to pages; and the blocks a block of \<open>s\<close> bytes becomes.
\<close>

definition need :: "Heap_Control \<Rightarrow> nat \<Rightarrow> nat" where
  "need h A = max A (unat (min_block_size h) - 16) + 16"

definition used_part :: "Heap_Control \<Rightarrow> nat \<Rightarrow> nat" where
  "used_part h A = align_up (need h A) (unat (page_size h))"

definition splits :: "Heap_Control \<Rightarrow> nat \<Rightarrow> nat \<Rightarrow> bool" where
  "splits h A s \<longleftrightarrow> need h A + unat (min_block_size h) \<le> s"

definition split_layout :: "Heap_Control \<Rightarrow> nat \<Rightarrow> nat \<Rightarrow> layout" where
  "split_layout h A s =
     (if splits h A s then [(used_part h A, True), (s - used_part h A, False)] else [(s, True)])"

lemma splits_props:
  assumes g: "geom (unat (page_size h)) (unat (min_block_size h)) fl a bs" and "splits h A s"
    and "unat (page_size h) dvd s"
  shows "unat (page_size h) dvd used_part h A" "unat (min_block_size h) \<le> used_part h A"
    "used_part h A + unat (min_block_size h) \<le> s" "need h A \<le> used_part h A"
    "unat (page_size h) dvd s - used_part h A"
proof -
  let ?ps = "unat (page_size h)" and ?ms = "unat (min_block_size h)" and ?B = "used_part h A"
  note ps = geomD(1) [OF g]
  show B: "?ps dvd ?B" and need: "need h A \<le> ?B" using align_up_props [OF ps] by (auto simp: used_part_def)
  have lt: "?B < need h A + ?ps" using align_up_props [OF ps] by (auto simp: used_part_def)
  show "?ms \<le> ?B" using need geomD(4) [OF g] by (simp add: need_def)
  obtain i j k where ijk: "s = ?ps * i" "?ms = ?ps * j" "?B = ?ps * k"
    using assms(3) geomD(3) [OF g] B by (auto simp: dvd_def)
  have "?ps * k + ?ps * j < ?ps * i + ?ps" using lt assms(2) ijk by (simp add: splits_def)
  then have "?ps * (k + j) < ?ps * (i + 1)" unfolding distrib_left by simp
  then have "k + j \<le> i" using mult_less_cancel1 [of ?ps "k + j" "i + 1"] by simp
  then have "?ps * (k + j) \<le> ?ps * i" by (rule mult_le_mono2)
  then show "?B + ?ms \<le> s" using ijk by (simp add: algebra_simps)
  show "?ps dvd s - ?B" using assms(3) B by (rule dvd_diff_nat)
qed

lemma Heap_Is_prev_used_set_size:
  "even t \<Longrightarrow> Heap_Is_prev_used (Heap_Block_set_size b (W t) m) c = Heap_Is_prev_used m c"
  by (cases "Heap_Is_prev_used m b")
     (auto simp: Heap_Is_prev_used_def Heap_Block_set_size_def HEAP_PREV_BLOCK_USED_def Let_def hfields
       and_one_eq mod_2_eq_odd even_or_iff even_W)

lemma Heap_Max_W: "x < 2 ^ 64 \<Longrightarrow> y < 2 ^ 64 \<Longrightarrow> Heap_Max (W x) (W y) = W (max x y)"
  by (auto simp: Heap_Max_def W_less max_def)

lemma used_size_W:
  assumes "16 \<le> unat (min_block_size h)"
  shows "Heap_Max asz (min_block_size h - HEAP_BLOCK_HEADER_SIZE) + HEAP_BLOCK_HEADER_SIZE = W (need h (unat asz))"
proof -
  have "min_block_size h - HEAP_BLOCK_HEADER_SIZE = W (unat (min_block_size h) - 16)"
    using assms by (simp add: HEAP_BLOCK_HEADER_SIZE_def of_nat_diff)
  moreover have "unat asz < 2 ^ 64" "unat (min_block_size h) - 16 < 2 ^ 64"
    using unat_lt2p [of asz] unat_lt2p [of "min_block_size h"] by auto
  ultimately have "Heap_Max asz (min_block_size h - HEAP_BLOCK_HEADER_SIZE)
      = W (max (unat asz) (unat (min_block_size h) - 16))"
    using Heap_Max_W [of "unat asz" "unat (min_block_size h) - 16"] by simp
  then show ?thesis by (simp add: need_def HEAP_BLOCK_HEADER_SIZE_def of_nat_add)
qed

lemma split_condition:
  assumes "need h A \<le> s + 8" and "s + 8 < 2 ^ 64" and "unat (min_block_size h) < 2 ^ 63"
  shows "(W s + HEAP_ALLOC_BONUS - W (need h A) \<ge> min_block_size h + HEAP_ALLOC_BONUS) \<longleftrightarrow> splits h A s"
proof -
  let ?ms = "unat (min_block_size h)"
  have "W s + HEAP_ALLOC_BONUS - W (need h A) = W (s + 8 - need h A)"
    using assms(1) by (simp add: HEAP_ALLOC_BONUS_def of_nat_add of_nat_diff)
  moreover have "min_block_size h + HEAP_ALLOC_BONUS = W (?ms + 8)"
    by (simp add: HEAP_ALLOC_BONUS_def of_nat_add)
  moreover have "W (?ms + 8) \<le> W (s + 8 - need h A) \<longleftrightarrow> ?ms + 8 \<le> s + 8 - need h A"
    using assms by (intro W_le) auto
  ultimately show ?thesis using assms(1) by (auto simp: splits_def)
qed

definition split_stats :: "nat \<Rightarrow> Heap_Statistics \<Rightarrow> Heap_Statistics" where
  "split_stats r st = st\<lparr>free_size := free_size st + W r, free_blocks := free_blocks st + 1\<rparr>"

lemma Heap_Block_set_size_hdr:
  assumes "SF m b = W s OR flg pu" and "even s"
  shows "Heap_Block_set_size b t m = set_size_and_flag b (t OR flg pu) m"
  using hdr_flag [OF assms(2), of pu] assms(1)
  by (simp add: Heap_Block_set_size_def HEAP_PREV_BLOCK_USED_def Let_def field_reads)

lemma Heap_Block_split_yes:
  assumes g: "geom (unat (page_size h)) (unat (min_block_size h)) fl a bs"
    and hdr: "SF m (W x) = W s OR flg pu" "even s" and bnd: "x + s + 16 < 2 ^ 64"
    and dvd: "unat (page_size h) dvd s" and used: "Heap_Is_used m (W (x + s))" and sp: "splits h (unat asz) s"
  defines "B \<equiv> used_part h (unat asz)"
  shows "\<exists>m'. Heap_Block_split h (W x) anchor asz m = (h\<lparr>stats := split_stats (s - B) (stats h)\<rparr>, m')
     \<and> SF m' = (SF m)(W x := W B OR flg pu, W (x + B) := W (s - B) OR 1, W (x + s) := SF m (W (x + s)) AND NOT 1)
     \<and> PS m' = (PS m)(W (x + s) := W (s - B))
     \<and> NX m' = (NX m)(W (x + B) := NX m anchor, anchor := W (x + B))
     \<and> PV m' = (PV m)(W (x + B) := anchor, NX m anchor := W (x + B))"
proof -
  note pr = splits_props [OF g sp dvd, folded B_def]
  have B: "even B" "0 < B" "B < s"
    using pr(1,2,3) geomD(2,4) [OF g] by (auto intro: dvd_trans [of 2 8 B] dvd_trans [of 8 "unat (page_size h)" B])
  have need: "need h (unat asz) \<le> s + 8" "need h (unat asz) < 2 ^ 64" using sp bnd by (auto simp: splits_def)
  let ?m1 = "set_size_and_flag (W x) (W B OR flg pu) m"
  have m1: "Heap_Block_set_size (W x) (W B) m = ?m1" by (rule Heap_Block_set_size_hdr [OF hdr])
  have sz: "Heap_Block_size m (W x) = W s" using hdr_reads [OF hdr] by simp
  have "Heap_Block_size ?m1 (W (x + s)) = Heap_Block_size m (W (x + s))"
    using B bnd by (simp add: Heap_Block_size_def hfields W_eq)
  then have used1: "Heap_Is_used ?m1 (W (x + s))"
    using used Heap_Is_prev_used_set_size [OF B(1), of "W x" m] by (simp add: Heap_Is_used_def m1 Let_def)
  have up: "Heap_Align_up (W (need h (unat asz))) (page_size h) = W B"
    using Heap_Align_up_W [OF need(2)] by (simp add: B_def used_part_def)
  have diff: "W s - W B = W (s - B)" using B by (simp add: of_nat_diff)
  have neq: "W (x + B) \<noteq> W (x + s)" "W (x + s) \<noteq> W (x + B)" "W x \<noteq> W (x + s)" "W (x + s) \<noteq> W x"
    using B bnd by (auto simp: W_eq)
  have c: "W s + HEAP_ALLOC_BONUS - W (need h (unat asz)) \<ge> min_block_size h + HEAP_ALLOC_BONUS"
    using split_condition [OF need(1)] sp bnd geomD(5) [OF g] by simp
  have ms: "16 \<le> unat (min_block_size h)" using geomD(4) [OF g] by simp
  let ?m2 = "Heap_Free_list_insert_after anchor (W (x + B)) ?m1"
  let ?m3 = "set_prev_size (W (x + s)) (W (s - B)) (set_size_and_flag (W (x + B)) (W (s - B) OR 1) ?m2)"
  let ?m4 = "set_size_and_flag (W (x + s)) (SF ?m3 (W (x + s)) AND NOT 1) ?m3"
  have "Heap_Block_split h (W x) anchor asz m = (h\<lparr>stats := split_stats (s - B) (stats h)\<rparr>, ?m4)"
    using c used1 up diff
    by (simp only: Heap_Block_split_def Let_def sz used_size_W [OF ms] m1 if_True split_conv Heap_Block_at_W
        HEAP_PREV_BLOCK_USED_def field_reads) (simp add: upd_stats_def split_stats_def)
  moreover have "SF ?m4 = (SF m)(W x := W B OR flg pu, W (x + B) := W (s - B) OR 1, W (x + s) := SF m (W (x + s)) AND NOT 1)"
    using neq by (simp add: hfields)
  ultimately show ?thesis by (auto simp: hfields)
qed

lemma Heap_Block_split_no:
  assumes g: "geom (unat (page_size h)) (unat (min_block_size h)) fl a bs"
    and hdr: "SF m (W x) = W s OR flg pu" "even s" and bnd: "x + s + 16 < 2 ^ 64"
    and fit: "need h (unat asz) \<le> s + 8" and sp: "\<not> splits h (unat asz) s"
  shows "Heap_Block_split h (W x) anchor asz m
     = (h, set_size_and_flag (W (x + s)) (SF m (W (x + s)) OR 1) m)"
proof -
  have sz: "Heap_Block_size m (W x) = W s" using hdr_reads [OF hdr] by simp
  have c: "\<not> W s + HEAP_ALLOC_BONUS - W (need h (unat asz)) \<ge> min_block_size h + HEAP_ALLOC_BONUS"
    using split_condition [OF fit] sp bnd geomD(5) [OF g] by simp
  have ms: "16 \<le> unat (min_block_size h)" using geomD(4) [OF g] by simp
  show ?thesis
    using c by (simp only: Heap_Block_split_def Let_def sz used_size_W [OF ms] if_False Heap_Block_at_W
        HEAP_PREV_BLOCK_USED_def field_reads)
qed

lemma control_simps [simp]:
  "need (h\<lparr>stats := st\<rparr>) A = need h A" "used_part (h\<lparr>stats := st\<rparr>) A = used_part h A"
  "splits (h\<lparr>stats := st\<rparr>) A s = splits h A s" "split_layout (h\<lparr>stats := st\<rparr>) A s = split_layout h A s"
  by (simp_all add: need_def used_part_def splits_def split_layout_def)

lemma split_layout_props:
  assumes g: "geom (unat (page_size h)) (unat (min_block_size h)) fl a bs"
    and "unat (page_size h) dvd s" and "unat (min_block_size h) \<le> s"
  shows "szs (split_layout h A s) = s"
    and "\<And>b. b \<in> set (split_layout h A s) \<Longrightarrow> unat (page_size h) dvd fst b \<and> unat (min_block_size h) \<le> fst b"
proof -
  note pr = splits_props [OF g _ assms(2), of A]
  show "szs (split_layout h A s) = s" using pr by (auto simp: split_layout_def)
  fix b assume "b \<in> set (split_layout h A s)"
  then show "unat (page_size h) dvd fst b \<and> unat (min_block_size h) \<le> fst b"
    using pr assms(2,3) by (auto simp: split_layout_def split: if_splits)
qed

text \<open>
  A block of \<open>s\<close> bytes that is not in the free list is split. The blocks \<open>pre\<close> in front of it, none
  or one, were cut off the block it comes from, which was used if \<open>u\<close>; \<open>m\<close> is the memory with this
  original block, \<open>m1\<close> the memory when the split starts. The block after it is used.
\<close>

definition to_split :: "Heap_Control \<Rightarrow> hmem \<Rightarrow> hmem \<Rightarrow> nat \<Rightarrow> layout \<Rightarrow> layout \<Rightarrow> nat \<Rightarrow> bool \<Rightarrow> layout \<Rightarrow> bool" where
  "to_split h m m1 a xs pre s u ys \<longleftrightarrow>
     (\<exists>fs. heap_rep h m a (xs @ [(szs pre + s, u)] @ ys) fs)
     \<and> (pre = [] \<or> (\<exists>k. pre = [(k, False)]))
     \<and> (\<forall>b\<in>set pre. unat (page_size h) dvd fst b \<and> unat (min_block_size h) \<le> fst b)
     \<and> (ys = [] \<or> snd (hd ys)) \<and> unat (page_size h) dvd s \<and> unat (min_block_size h) \<le> s
     \<and> SF m1 (W (a + szs xs + szs pre)) = W s OR flg (lastu (lastu True xs) pre)
     \<and> seg (SF m1) (PS m1) (a + szs xs) (lastu True xs) pre
     \<and> (\<forall>z. z < 2 ^ 64 \<longrightarrow> z < a + szs xs \<or> a + szs xs + szs pre < z \<longrightarrow> SF m1 (W z) = SF m (W z))
     \<and> (\<forall>z. z < 2 ^ 64 \<longrightarrow> z \<le> a + szs xs \<or> a + szs xs + szs pre < z \<longrightarrow> PS m1 (W z) = PS m (W z))"

lemma to_splitD:
  assumes "to_split h m m1 a xs pre s u ys"
  shows "\<exists>fs. heap_rep h m a (xs @ [(szs pre + s, u)] @ ys) fs"
    and "pre = [] \<or> (\<exists>k. pre = [(k, False)])"
    and "\<And>b. b \<in> set pre \<Longrightarrow> unat (page_size h) dvd fst b \<and> unat (min_block_size h) \<le> fst b"
    and "unat (page_size h) dvd s" "unat (min_block_size h) \<le> s"
    and "SF m1 (W (a + szs xs + szs pre)) = W s OR flg (lastu (lastu True xs) pre)"
    and "seg (SF m1) (PS m1) (a + szs xs) (lastu True xs) pre"
    and "\<And>z. z < 2 ^ 64 \<Longrightarrow> z < a + szs xs \<or> a + szs xs + szs pre < z \<Longrightarrow> SF m1 (W z) = SF m (W z)"
    and "\<And>z. z < 2 ^ 64 \<Longrightarrow> z \<le> a + szs xs \<or> a + szs xs + szs pre < z \<Longrightarrow> PS m1 (W z) = PS m (W z)"
    and "ys = [] \<or> snd (hd ys)"
  using assms unfolding to_split_def by blast+

lemma to_split_bounds:
  assumes sp: "to_split h m m1 a xs pre s u ys" and rep: "heap_rep h m a (xs @ [(szs pre + s, u)] @ ys) fs"
  shows "a + szs xs + szs pre + s + 16 < 2 ^ 64" "0 < s" "even s"
proof -
  note g = heap_repD(1) [OF rep]
  show "a + szs xs + szs pre + s + 16 < 2 ^ 64" using geomD(7) [OF g] by simp
  show "0 < s" using geomD(4) [OF g] to_splitD(5) [OF sp] by simp
  show "even s" using to_splitD(4) [OF sp] geomD(2) [OF g] by (meson dvd_trans even_numeral)
qed

lemma to_split_next_hdr:
  assumes sp: "to_split h m m1 a xs pre s u ys" and rep: "heap_rep h m a (xs @ [(szs pre + s, u)] @ ys) fs"
  obtains s0 u0 T where "ys @ [(2 ^ 64 - szs (xs @ [(szs pre + s, u)] @ ys), True)] = (s0, u0) # T" and u0
    and "SF m1 (W (a + szs xs + szs pre + s)) = W s0 OR flg u" and "even s0"
proof -
  let ?S = "szs pre + s"
  have r: "heap_rep h m a (xs @ (?S, u) # ys) fs" using rep by simp
  obtain s0 u0 T where T: "ys @ [(2 ^ 64 - szs (xs @ [(?S, u)] @ ys), True)] = (s0, u0) # T"
    and "u0 \<longleftrightarrow> ys = [] \<or> snd (hd ys)" and "SF m (W (a + szs xs + ?S)) = W s0 OR flg u" "even s0"
    using used_block_tail [OF r] by blast
  moreover have "SF m1 (W (a + szs xs + szs pre + s)) = SF m (W (a + szs xs + szs pre + s))"
    using to_split_bounds [OF sp rep] by (intro to_splitD(8) [OF sp]) auto
  ultimately show thesis using that to_splitD(10) [OF sp] by (simp add: add.assoc)
qed

lemma to_split_first_prev_used:
  assumes sp: "to_split h m m1 a xs pre s u ys" and rep: "heap_rep h m a (xs @ [(szs pre + s, u)] @ ys) fs"
  shows "Heap_Is_prev_used m1 (W a)"
proof (cases "xs = []")
  case True
  note b = to_split_bounds [OF sp rep]
  show ?thesis
  proof (cases "pre = []")
    case p: True
    then show ?thesis using to_splitD(6) [OF sp] True hdr_reads(2) [of m1 "W a" s True] b(3) by simp
  next
    case False
    then obtain k where k: "pre = [(k, False)]" using to_splitD(2) [OF sp] by blast
    then show ?thesis using to_splitD(7) [OF sp] True hdr_reads(2) [of m1 "W a" k True] by simp
  qed
next
  case False
  then have "0 < szs xs" using geom_pos [OF heap_repD(1) [OF rep]] by (cases xs) auto
  then have "SF m1 (W a) = SF m (W a)"
    using to_split_bounds(1) [OF sp rep] by (intro to_splitD(8) [OF sp]) auto
  then show ?thesis using first_prev_used [OF rep] by (simp add: Heap_Is_prev_used_def field_reads)
qed

lemma to_split_next_used:
  assumes sp: "to_split h m m1 a xs pre s u ys" and rep: "heap_rep h m a (xs @ [(szs pre + s, u)] @ ys) fs"
  shows "Heap_Is_used m1 (W (a + szs xs + szs pre + s))"
proof -
  let ?S = "szs pre + s"
  note b = to_split_bounds [OF sp rep]
  have r: "heap_rep h m a (xs @ (?S, u) # ys) fs" using rep by simp
  have used: "Heap_Is_used m (W (a + szs xs + ?S))" using next_used [OF r] to_splitD(10) [OF sp] by simp
  have same: "SF m1 (W (a + szs xs + szs pre + s)) = SF m (W (a + szs xs + szs pre + s))"
    using b by (intro to_splitD(8) [OF sp]) auto
  show ?thesis
  proof (cases ys)
    case Nil
    then show ?thesis using last_reads(2,4) [OF rep] same to_split_first_prev_used [OF sp rep]
      by (simp add: Heap_Is_used_def Heap_Block_size_def field_reads add.assoc)
  next
    case (Cons b zs)
    obtain t v where b: "b = (t, v)" by (cases b)
    then have r2: "heap_rep h m a ((xs @ [(?S, u)]) @ (t, v) # zs) fs" using rep Cons by simp
    note rd = block_reads [OF r2]
    have "SF m1 (W (a + szs xs + szs pre + s + t)) = SF m (W (a + szs xs + szs pre + s + t))"
      using rd(5,6,7) by (intro to_splitD(8) [OF sp]) auto
    then show ?thesis using used same rd(2)
      by (simp add: Heap_Is_used_def Heap_Is_prev_used_def Heap_Block_size_def field_reads add.assoc)
  qed
qed

lemma to_split_seg_pre:
  assumes sp: "to_split h m m1 a xs pre s u ys" and rep: "heap_rep h m a (xs @ [(szs pre + s, u)] @ ys) fs"
    and SF: "\<And>z. z < a + szs xs + szs pre \<Longrightarrow> SF m' (W z) = SF m1 (W z)"
    and PS: "\<And>z. z \<le> a + szs xs + szs pre \<Longrightarrow> PS m' (W z) = PS m1 (W z)"
  shows "seg (SF m') (PS m') (a + szs xs) (lastu True xs) pre"
proof (cases "pre = []")
  case False
  then obtain k where k: "pre = [(k, False)]" using to_splitD(2) [OF sp] by blast
  have "0 < k" using to_splitD(3) [OF sp] k geomD(4) [OF heap_repD(1) [OF rep]] by auto
  then show ?thesis using to_splitD(7) [OF sp] k SF [of "a + szs xs"] PS [of "a + szs xs + k"] by simp
qed simp

lemma to_split_fresh:
  assumes sp: "to_split h m m1 a xs pre s u ys" and rep: "heap_rep h m a (xs @ [(szs pre + s, u)] @ ys) fs"
    and z: "a + szs xs + szs pre < z" "z < a + szs xs + szs pre + s"
    and G: "set G = W ` set (faddrs a (xs @ pre)) \<union> W ` set (faddrs (a + szs xs + szs pre + s) ys)"
  shows "W z \<noteq> free_list h" "W z \<notin> set G"
proof -
  have r: "heap_rep h m a (xs @ (szs pre + s, u) # ys) fs" using rep by simp
  note pos = geom_pos [OF heap_repD(1) [OF rep]] and g = heap_repD(1) [OF rep]
  show "W z \<noteq> free_list h" using z by (intro fl_apart [OF rep]) auto
  have p: "pos pre" using to_splitD(3) [OF sp] geomD(4) [OF g] by (fastforce simp: pos_def)
  have "w < 2 ^ 64 \<and> w \<noteq> z" if "w \<in> set (faddrs a (xs @ pre)) \<union> set (faddrs (a + szs xs + szs pre + s) ys)" for w
    using that z pos p geomD(7) [OF g] faddrs_range [of "xs @ pre" w a]
      faddrs_range [of ys w "a + szs xs + szs pre + s"] by auto
  moreover have "z < 2 ^ 64" using z geomD(7) [OF g] by simp
  ultimately show "W z \<notin> set G" unfolding G by (auto simp: W_eq) blast+
qed

lemma to_split_finish:
  assumes sp: "to_split h m m1 a xs pre s u ys" and rep: "heap_rep h m a (xs @ [(szs pre + s, u)] @ ys) fs"
    and T: "ys @ [(2 ^ 64 - szs (xs @ [(szs pre + s, u)] @ ys), True)] = (s0, u0) # T" and u0: u0
    and new: "new = split_layout h A s"
    and seg: "seg (SF m') (PS m') (a + szs xs + szs pre) (lastu (lastu True xs) pre) new"
    and hd: "SF m' (W (a + szs xs + szs pre + s)) = W s0 OR flg (lastu (lastu (lastu True xs) pre) new)"
    and S: "\<And>z. z < 2 ^ 64 \<Longrightarrow> z < a + szs xs + szs pre \<or> a + szs xs + szs pre + s < z \<Longrightarrow> SF m' (W z) = SF m1 (W z)"
    and P: "\<And>z. z < 2 ^ 64 \<Longrightarrow> z \<le> a + szs xs + szs pre \<or> a + szs xs + szs pre + s < z \<Longrightarrow> PS m' (W z) = PS m1 (W z)"
    and fl: "flist (NX m') (PV m') (free_list h) fs'"
    and fs: "set fs' = W ` set (faddrs a (xs @ (pre @ new) @ ys))" and st: "stats_ok st' (xs @ (pre @ new) @ ys)"
  shows "heap_rep (h\<lparr>stats := st'\<rparr>) m' a (xs @ (pre @ new) @ ys) fs'"
proof (rule heap_rep_middle [OF rep T _ _ _ _ _ _ _ fl fs refl st])
  note b = to_split_bounds [OF sp rep] and lay = split_layout_props [OF heap_repD(1) [OF rep] to_splitD(4,5) [OF sp], where A = A]
  show "szs (pre @ new) = szs [(szs pre + s, u)]" using lay(1) new by simp
  show "unat (page_size h) dvd fst c \<and> unat (min_block_size h) \<le> fst c" if "c \<in> set (pre @ new)" for c
    using that lay(2) [of c] to_splitD(3) [OF sp, of c] new by auto
  have "seg (SF m') (PS m') (a + szs xs) (lastu True xs) pre"
    using b S P by (intro to_split_seg_pre [OF sp rep]) auto
  then show "seg (SF m') (PS m') (a + szs xs) (lastu True xs) (pre @ new)"
    using seg by (simp add: seg_append)
  show "SF m' (W (a + szs xs + szs [(szs pre + s, u)])) = W s0 OR flg (lastu (lastu True xs) (pre @ new))"
    using hd by (simp add: add.assoc)
  show "lastu (lastu True xs) (pre @ new) \<or> u0" using u0 by simp
  show "SF m' (W z) = SF m (W z)"
    if "z < 2 ^ 64" "z < a + szs xs \<or> a + szs xs + szs [(szs pre + s, u)] < z" for z
    using that S [of z] to_splitD(8) [OF sp, of z] by auto
  show "PS m' (W z) = PS m (W z)"
    if "z < 2 ^ 64" "z \<le> a + szs xs \<or> a + szs xs + szs [(szs pre + s, u)] < z" for z
    using that P [of z] to_splitD(9) [OF sp, of z] by auto
qed

lemma to_split_result_yes:
  assumes sp: "to_split h m m1 a xs pre s u ys" and rep: "heap_rep h m a (xs @ [(szs pre + s, u)] @ ys) fs"
    and yes: "splits h (unat asz) s"
    and fl1: "flist (NX m1) (PV m1) (free_list h) (G1 @ G2)" and anchor: "anchor = last (free_list h # G1)"
    and G: "set (G1 @ G2) = W ` set (faddrs a (xs @ pre)) \<union> W ` set (faddrs (a + szs xs + szs pre + s) ys)"
    and st: "stats_ok st (xs @ pre @ [(s, True)] @ ys)"
  shows "\<exists>st' m' fs'. Heap_Block_split (h\<lparr>stats := st\<rparr>) (W (a + szs xs + szs pre)) anchor asz m1
        = (h\<lparr>stats := st'\<rparr>, m')
     \<and> heap_rep (h\<lparr>stats := st'\<rparr>) m' a (xs @ (pre @ split_layout h (unat asz) s) @ ys) fs'"
proof -
  let ?y = "a + szs xs + szs pre" and ?B = "used_part h (unat asz)"
  note b = to_split_bounds [OF sp rep] and g = heap_repD(1) [OF rep]
  have g': "geom (unat (page_size (h\<lparr>stats := st\<rparr>))) (unat (min_block_size (h\<lparr>stats := st\<rparr>))) (unat (free_list h)) a
      (xs @ [(szs pre + s, u)] @ ys)" using g by simp
  obtain s0 u0 T where T: "ys @ [(2 ^ 64 - szs (xs @ [(szs pre + s, u)] @ ys), True)] = (s0, u0) # T"
    and u0: u0 and hd: "SF m1 (W (?y + s)) = W s0 OR flg u" "even s0" by (rule to_split_next_hdr [OF sp rep])
  note pr = splits_props [OF g yes to_splitD(4) [OF sp]]
  have B: "0 < ?B" "?B < s" "even ?B" "even (s - ?B)"
    using pr geomD(2,4) [OF g] b(3) by (auto intro: dvd_trans [of 2 8 ?B] dvd_trans [of 8 "unat (page_size h)" ?B])
  obtain m' where e: "Heap_Block_split (h\<lparr>stats := st\<rparr>) (W ?y) anchor asz m1
      = (h\<lparr>stats := split_stats (s - ?B) st\<rparr>, m')"
    and SF: "SF m' = (SF m1)(W ?y := W ?B OR flg (lastu (lastu True xs) pre), W (?y + ?B) := W (s - ?B) OR 1, W (?y + s) := W s0)"
    and PS: "PS m' = (PS m1)(W (?y + s) := W (s - ?B))"
    and NP: "NX m' = (NX m1)(W (?y + ?B) := NX m1 anchor, anchor := W (?y + ?B))"
      "PV m' = (PV m1)(W (?y + ?B) := anchor, NX m1 anchor := W (?y + ?B))"
    using Heap_Block_split_yes [OF g' to_splitD(6) [OF sp] b(3,1) _ to_split_next_used [OF sp rep], of asz anchor]
      yes to_splitD(4) [OF sp] hdr_clear [OF hd(2), of u] hd(1) by auto
  have "heap_rep (h\<lparr>stats := split_stats (s - ?B) st\<rparr>) m' a
      (xs @ (pre @ split_layout h (unat asz) s) @ ys) (G1 @ W (?y + ?B) # G2)"
  proof (rule to_split_finish [OF sp rep T u0 refl])
    show "seg (SF m') (PS m') ?y (lastu (lastu True xs) pre) (split_layout h (unat asz) s)"
      using yes b B by (simp add: split_layout_def SF PS W_eq add.assoc [symmetric])
    show "flist (NX m') (PV m') (free_list h) (G1 @ W (?y + ?B) # G2)"
      unfolding NP using to_split_fresh [OF sp rep _ _ G] B anchor by (intro flist_insert_after fl1) auto
    show "set (G1 @ W (?y + ?B) # G2) = W ` set (faddrs a (xs @ (pre @ split_layout h (unat asz) s) @ ys))"
      using G yes B by (auto simp: faddrs_append split_layout_def add.assoc)
    show "stats_ok (split_stats (s - ?B) st) (xs @ (pre @ split_layout h (unat asz) s) @ ys)"
      using st yes B by (auto simp: stats_ok_def split_stats_def split_layout_def of_nat_add)
  qed (use yes b B in \<open>auto simp: split_layout_def SF PS W_eq\<close>)
  then show ?thesis using e by blast
qed

lemma to_split_result_no:
  assumes sp: "to_split h m m1 a xs pre s u ys" and rep: "heap_rep h m a (xs @ [(szs pre + s, u)] @ ys) fs"
    and fit: "need h (unat asz) \<le> s + 8" and no: "\<not> splits h (unat asz) s"
    and fl1: "flist (NX m1) (PV m1) (free_list h) G"
    and G: "set G = W ` set (faddrs a (xs @ pre)) \<union> W ` set (faddrs (a + szs xs + szs pre + s) ys)"
    and st: "stats_ok st (xs @ pre @ [(s, True)] @ ys)"
  shows "\<exists>st' m' fs'. Heap_Block_split (h\<lparr>stats := st\<rparr>) (W (a + szs xs + szs pre)) anchor asz m1
        = (h\<lparr>stats := st'\<rparr>, m')
     \<and> heap_rep (h\<lparr>stats := st'\<rparr>) m' a (xs @ (pre @ split_layout h (unat asz) s) @ ys) fs'"
proof -
  let ?y = "a + szs xs + szs pre"
  note b = to_split_bounds [OF sp rep] and g = heap_repD(1) [OF rep]
  have g': "geom (unat (page_size (h\<lparr>stats := st\<rparr>))) (unat (min_block_size (h\<lparr>stats := st\<rparr>))) (unat (free_list h)) a
      (xs @ [(szs pre + s, u)] @ ys)" using g by simp
  obtain s0 u0 T where T: "ys @ [(2 ^ 64 - szs (xs @ [(szs pre + s, u)] @ ys), True)] = (s0, u0) # T"
    and u0: u0 and hd: "SF m1 (W (?y + s)) = W s0 OR flg u" "even s0" by (rule to_split_next_hdr [OF sp rep])
  define m' where "m' = set_size_and_flag (W (?y + s)) (SF m1 (W (?y + s)) OR 1) m1"
  have e: "Heap_Block_split (h\<lparr>stats := st\<rparr>) (W ?y) anchor asz m1 = (h\<lparr>stats := st\<rparr>, m')"
    using Heap_Block_split_no [OF g' to_splitD(6) [OF sp] b(3,1)] fit no by (simp add: m'_def)
  have SF: "SF m' = (SF m1)(W (?y + s) := W s0 OR 1)" and R: "PS m' = PS m1" "NX m' = NX m1" "PV m' = PV m1"
    using hd(1) hdr_set [of s0 u] by (simp_all add: hfields m'_def)
  have "heap_rep (h\<lparr>stats := st\<rparr>) m' a (xs @ (pre @ split_layout h (unat asz) s) @ ys) G"
  proof (rule to_split_finish [OF sp rep T u0 refl])
    show "seg (SF m') (PS m') ?y (lastu (lastu True xs) pre) (split_layout h (unat asz) s)"
      using no b to_splitD(6) [OF sp] by (simp add: split_layout_def SF W_eq)
    show "set G = W ` set (faddrs a (xs @ (pre @ split_layout h (unat asz) s) @ ys))"
      using G no by (auto simp: faddrs_append split_layout_def add.assoc)
  qed (use no b fl1 st in \<open>auto simp: split_layout_def SF R W_eq\<close>)
  then show ?thesis using e by blast
qed

lemma to_split_result:
  assumes "to_split h m m1 a xs pre s u ys" and "heap_rep h m a (xs @ [(szs pre + s, u)] @ ys) fs"
    and "need h (unat asz) \<le> s + 8"
    and "flist (NX m1) (PV m1) (free_list h) (G1 @ G2)" and "anchor = last (free_list h # G1)"
    and "set (G1 @ G2) = W ` set (faddrs a (xs @ pre)) \<union> W ` set (faddrs (a + szs xs + szs pre + s) ys)"
    and "stats_ok st (xs @ pre @ [(s, True)] @ ys)"
  shows "\<exists>st' m' fs'. Heap_Block_split (h\<lparr>stats := st\<rparr>) (W (a + szs xs + szs pre)) anchor asz m1
        = (h\<lparr>stats := st'\<rparr>, m')
     \<and> heap_rep (h\<lparr>stats := st'\<rparr>) m' a (xs @ (pre @ split_layout h (unat asz) s) @ ys) fs'"
  using to_split_result_yes [OF assms(1,2) _ assms(4-7)] to_split_result_no [OF assms(1-3) _ assms(4,6,7)]
  by blast

lemma free_block_next:
  assumes "heap_rep h m a (xs @ (S, False) # ys) fs"
  shows "ys = [] \<or> snd (hd ys)"
  using used_block_tail [OF assms] by metis

section \<open>Allocating a free block\<close>

lemma heap_rep_stats:
  "heap_rep h m a bs fs \<Longrightarrow> stats_ok st bs \<Longrightarrow> heap_rep (h\<lparr>stats := st\<rparr>) m a bs fs"
  by (simp add: heap_rep_def)

definition taken_stats :: "nat \<Rightarrow> Heap_Statistics \<Rightarrow> Heap_Statistics" where
  "taken_stats S st = st\<lparr>free_blocks := free_blocks st - 1, used_blocks := used_blocks st + 1,
     free_size := free_size st - W S\<rparr>"

definition min_stats :: "Heap_Statistics \<Rightarrow> Heap_Statistics" where
  "min_stats st = (if min_free_size st > free_size st then st\<lparr>min_free_size := free_size st\<rparr> else st)"

lemma min_stats_ok [simp]: "stats_ok (min_stats st) bs = stats_ok st bs"
  by (simp add: min_stats_def stats_ok_def)

text \<open>A free block leaves the free list; its predecessor there becomes the anchor.\<close>

lemma Heap_Block_allocate_free:
  assumes rep: "heap_rep h m a (xs @ (S, False) # ys) fs"
  defines "m1 \<equiv> Heap_Free_list_remove (W (a + szs xs)) m"
    and "h1 \<equiv> h\<lparr>stats := taken_stats S (stats h)\<rparr>" and "anchor \<equiv> PV m (W (a + szs xs))"
  shows "Heap_Block_allocate h (W (a + szs xs)) p asz m =
    (let offset = p - Heap_Alloc_area_of_block (W (a + szs xs));
         (block, h', m') = (if offset < page_size h
            then Heap_Block_allocate_from_begin h1 (W (a + szs xs)) anchor (asz + offset) m1
            else Heap_Block_allocate_from_end h1 (W (a + szs xs)) anchor p asz m1)
     in (block, h'\<lparr>stats := min_stats (stats h')\<rparr>, m'))"
proof -
  note rd = block_reads [OF rep]
  have "Heap_Is_free m (W (a + szs xs))" using rd by (simp add: Heap_Is_free_def Heap_Is_used_def)
  then show ?thesis
    using rd(2) by (simp add: Heap_Block_allocate_def Let_def m1_def h1_def anchor_def field_reads upd_stats_def
        taken_stats_def min_stats_def)
qed

lemma offset_lt_page:
  assumes "x + 16 < 2 ^ 64" and "x + 16 \<le> unat p"
  shows "unat (p - Heap_Alloc_area_of_block (W x)) = unat p - (x + 16)"
proof -
  have e: "Heap_Alloc_area_of_block (W x) = W (x + 16)"
    by (simp add: Heap_Alloc_area_of_block_def HEAP_BLOCK_HEADER_SIZE_def of_nat_add)
  moreover have "unat (W (x + 16)) = x + 16" using assms(1) by (rule unat_W)
  ultimately show ?thesis using assms(2) by (metis unat_sub word_le_nat_alt)
qed

lemma Heap_Block_allocate_begin:
  assumes rep: "heap_rep h m a (xs @ (S, False) # ys) fs"
    and ptr: "a + szs xs + 16 \<le> unat p" "unat p < a + szs xs + 16 + unat (page_size h)"
    and A_def: "A = unat asz + (unat p - (a + szs xs + 16))" and fit: "A + 16 \<le> S + 8"
  shows "\<exists>st' m' fs'. Heap_Block_allocate h (W (a + szs xs)) p asz m = (W (a + szs xs), h\<lparr>stats := st'\<rparr>, m')
     \<and> heap_rep (h\<lparr>stats := st'\<rparr>) m' a (xs @ split_layout h A S @ ys) fs'"
proof -
  let ?x = "a + szs xs" and ?off = "p - Heap_Alloc_area_of_block (W (a + szs xs))"
  let ?m1 = "Heap_Free_list_remove (W ?x) m"
  note rd = block_reads [OF rep] and g = heap_repD(1) [OF rep]
  obtain F1 F2 where fs: "fs = F1 @ W ?x # F2"
    and F: "set (F1 @ F2) = W ` set (faddrs a xs) \<union> W ` set (faddrs (?x + S) ys)" by (rule fs_split [OF rep])
  have fl: "flist (NX m) (PV m) (free_list h) (F1 @ W ?x # F2)" using heap_repD(5) [OF rep] fs by simp
  have off: "unat ?off = unat p - (?x + 16)" using rd(5,6,7) ptr by (intro offset_lt_page) auto
  then have lt: "?off < page_size h" using ptr by (simp add: word_less_nat_alt)
  have asz: "unat (asz + ?off) = A"
    using fit rd(5,6,7) off by (subst unat_plus_no_wrap) (auto simp: A_def)
  have ok: "unat (page_size h) dvd S" "unat (min_block_size h) \<le> S" using geomD(10) [OF g, of "(S, False)"] by auto
  have rep': "heap_rep h m a (xs @ [(szs [] + S, False)] @ ys) fs" using rep by simp
  have hdr: "SF m (W ?x) = W S OR flg True"
    using seg_at(2) [of "SF m" "PS m" a True xs S False] heap_rep_seg [of h m a xs "[(S, False)]" ys fs] rep rd(8) by simp
  have sp: "to_split h m ?m1 a xs [] S False ys" using rep' ok hdr rd(8) free_block_next [OF rep] by (auto simp: to_split_def hfields)
  have need: "need h (unat (asz + ?off)) \<le> S + 8" unfolding asz using fit ok by (auto simp: need_def)
  have fl1: "flist (NX ?m1) (PV ?m1) (free_list h) (F1 @ F2)" using flist_remove [OF fl] by (simp add: hfields)
  have st1: "stats_ok (taken_stats S (stats h)) (xs @ [] @ [(S, True)] @ ys)"
    using heap_repD(7) [OF rep] by (auto simp: stats_ok_def taken_stats_def of_nat_add)
  have G: "set (F1 @ F2) = W ` set (faddrs a (xs @ [])) \<union> W ` set (faddrs (?x + szs [] + S) ys)" using F by simp
  obtain st' m' fs' where e: "Heap_Block_split (h\<lparr>stats := taken_stats S (stats h)\<rparr>) (W (?x + szs [])) (PV m (W ?x))
        (asz + ?off) ?m1 = (h\<lparr>stats := st'\<rparr>, m')"
    and r: "heap_rep (h\<lparr>stats := st'\<rparr>) m' a (xs @ ([] @ split_layout h (unat (asz + ?off)) S) @ ys) fs'"
    using to_split_result [OF sp rep' need fl1 flist_at(2) [OF fl] G st1] by blast
  have "Heap_Block_allocate h (W ?x) p asz m = (W ?x, h\<lparr>stats := min_stats st'\<rparr>, m')"
    using e lt by (simp add: Heap_Block_allocate_free [OF rep] Heap_Block_allocate_from_begin_def Let_def)
  moreover have "heap_rep (h\<lparr>stats := min_stats st'\<rparr>) m' a (xs @ split_layout h A S @ ys) fs'"
    using heap_rep_stats [OF r, of "min_stats st'"] heap_repD(7) [OF r] asz by simp
  ultimately show ?thesis by blast
qed

lemma Heap_Block_allocate_end:
  assumes rep: "heap_rep h m a (xs @ (k + s, False) # ys) fs"
    and k: "unat (page_size h) dvd k" "unat (min_block_size h) \<le> k" and s: "unat (min_block_size h) \<le> s"
    and ptr: "a + szs xs + k + 16 \<le> unat p" "unat p < a + szs xs + k + 16 + unat (page_size h)"
    and fit: "unat asz + 16 \<le> s + 8"
  shows "\<exists>st' m' fs'. Heap_Block_allocate h (W (a + szs xs)) p asz m = (W (a + szs xs + k), h\<lparr>stats := st'\<rparr>, m')
     \<and> heap_rep (h\<lparr>stats := st'\<rparr>) m' a (xs @ (k, False) # split_layout h (unat asz) s @ ys) fs'"
proof -
  let ?x = "a + szs xs" and ?y = "a + szs xs + k"
  note rd = block_reads [OF rep] and g = heap_repD(1) [OF rep]
  have S: "unat (page_size h) dvd k + s" using geomD(10) [OF g, of "(k + s, False)"] by auto
  then have sdvd: "unat (page_size h) dvd s" using k(1) by (simp add: dvd_add_right_iff)
  have ks: "0 < k" "even k" "0 < s" "even s" using k s sdvd geomD(2,4) [OF g]
    by (auto intro: dvd_trans [of 2 8] dvd_trans [of 8 "unat (page_size h)"])
  have ydvd: "unat (page_size h) dvd ?y + 16"
  proof -
    have "unat (page_size h) dvd szs xs" using geomD(10) [OF g] by (intro dvd_szs) auto
    then have "unat (page_size h) dvd (a + 16) + (szs xs + k)" 
      by (intro dvd_add [OF geomD(6) [OF g]] dvd_add k(1))
    then show ?thesis by (simp add: add.commute add.left_commute)
  qed
  obtain F1 F2 where fs: "fs = F1 @ W ?x # F2"
    and F: "set (F1 @ F2) = W ` set (faddrs a xs) \<union> W ` set (faddrs (?x + (k + s)) ys)" by (rule fs_split [OF rep])
  have fl: "flist (NX m) (PV m) (free_list h) (F1 @ W ?x # F2)" using heap_repD(5) [OF rep] fs by simp
  define m1 where "m1 = Heap_Free_list_remove (W ?x) m"
  define m5 where "m5 = set_size_and_flag (W ?y) (W s) (set_prev_size (W ?y) (W k)
      (set_size_and_flag (W ?x) (W k OR 1) (Heap_Free_list_insert_after (PV m (W ?x)) (W ?x) m1)))"
  define st where "st = (let s1 = taken_stats (k + s) (stats h)
      in s1\<lparr>free_size := free_size s1 + W k, free_blocks := free_blocks s1 + 1\<rparr>)"
  have bnd: "?x + k + s + 16 < 2 ^ 64" using rd(6,7) by simp
  have rep': "heap_rep h m a (xs @ [(szs [(k, False)] + s, False)] @ ys) fs" using rep by simp
  have SF5: "SF m5 = (SF m)(W ?x := W k OR 1, W ?y := W s)" and PS5: "PS m5 = (PS m)(W ?y := W k)"
    by (simp_all add: m5_def m1_def hfields)
  have sp: "to_split h m m5 a xs [(k, False)] s False ys"
    using rep' k s sdvd ks bnd rd(8) free_block_next [OF rep] by (auto simp: to_split_def SF5 PS5 W_eq)
  have fl1: "flist (NX m1) (PV m1) (free_list h) (F1 @ F2)" using flist_remove [OF fl] by (simp add: m1_def hfields)
  have fresh: "W ?x \<noteq> free_list h" "W ?x \<notin> set (F1 @ F2)" using fl by (auto simp: flist_def)
  have "flist (NX m5) (PV m5) (free_list h) (F1 @ W ?x # F2)"
    using flist_insert_after [OF fl1 fresh flist_at(2) [OF fl]] by (simp only: m5_def hfields)
  then have fl5: "flist (NX m5) (PV m5) (free_list h) ((F1 @ [W ?x]) @ F2)" by simp
  have st5: "stats_ok st (xs @ [(k, False)] @ [(s, True)] @ ys)"
    using heap_repD(7) [OF rep] by (auto simp: stats_ok_def st_def taken_stats_def Let_def of_nat_add)
  have need: "need h (unat asz) \<le> s + 8" using fit s by (auto simp: need_def)
  have G: "set ((F1 @ [W ?x]) @ F2) = W ` set (faddrs a (xs @ [(k, False)])) \<union> W ` set (faddrs (?x + szs [(k, False)] + s) ys)"
    using F by (auto simp: faddrs_append add.assoc)
  obtain st' m' fs' where e: "Heap_Block_split (h\<lparr>stats := st\<rparr>) (W ?y) (W ?x) asz m5 = (h\<lparr>stats := st'\<rparr>, m')"
    and r: "heap_rep (h\<lparr>stats := st'\<rparr>) m' a (xs @ ([(k, False)] @ split_layout h (unat asz) s) @ ys) fs'"
    using to_split_result [OF sp rep' need fl5 _ G st5, of "W ?x"] by auto
  have blk: "Heap_Block_of_alloc_area p (page_size h) = W ?y" by (rule block_of_alloc [OF refl ydvd ptr])
  have "?x + 16 + unat (page_size h) \<le> unat p"
    using ptr(1) k geomD(1,3,4) [OF g] ks(1) by (auto dest: dvd_imp_le)
  moreover have "unat (p - Heap_Alloc_area_of_block (W ?x)) = unat p - (?x + 16)"
    using bnd ptr by (intro offset_lt_page) auto
  ultimately have "\<not> p - Heap_Alloc_area_of_block (W ?x) < page_size h" by (simp add: word_less_nat_alt)
  moreover have "Heap_Block_size m1 (W ?x) = W (k + s)" "Heap_Is_prev_used m1 (W ?x)"
    using rd(2,3,8) by (simp_all add: m1_def Heap_Block_size_def Heap_Is_prev_used_def hfields)
  moreover have "W ?x + W (k + s) - W ?y = W s" "W ?y - W ?x = W k" by (simp_all add: of_nat_add)
  ultimately have "Heap_Block_allocate h (W ?x) p asz m = (W ?y, h\<lparr>stats := min_stats st'\<rparr>, m')"
    using e blk by (simp add: Heap_Block_allocate_free [OF rep] Heap_Block_allocate_from_end_def Let_def
        upd_stats_def m1_def [symmetric] HEAP_PREV_BLOCK_USED_def m5_def st_def)
  moreover have "heap_rep (h\<lparr>stats := min_stats st'\<rparr>) m' a (xs @ (k, False) # split_layout h (unat asz) s @ ys) fs'"
    using heap_rep_stats [OF r, of "min_stats st'"] heap_repD(7) [OF r] by simp
  ultimately show ?thesis by blast
qed

end
