(* ===== verification/Heap_Search.thy ===== *)
theory Heap_Search
  imports Heap_Alloc
begin

text \<open>
  The search of \<^verbatim>\<open>_Heap_Allocate_aligned_with_boundary\<close> for a free block, with the placement of
  an aligned area that crosses no boundary line by \<^verbatim>\<open>_Heap_Check_block\<close>.
\<close>

section \<open>Placement in a block\<close>

text \<open>No boundary line lies strictly inside the area of \<open>n\<close> bytes at \<open>p\<close>; a boundary of zero is none.\<close>

definition crosses :: "nat \<Rightarrow> nat \<Rightarrow> nat \<Rightarrow> bool" where
  "crosses bd p n \<longleftrightarrow> bd \<noteq> 0 \<and> p < (p + n) - (p + n) mod bd \<and> (p + n) - (p + n) mod bd < p + n"

lemma crosses_iff:
  assumes "0 < bd" and "n \<le> bd"
  shows "crosses bd p n \<longleftrightarrow> (\<exists>k. p < k * bd \<and> k * bd < p + n)"
proof
  assume "crosses bd p n"
  moreover have "(p + n) - (p + n) mod bd = (p + n) div bd * bd" by (simp add: minus_mod_eq_div_mult)
  ultimately show "\<exists>k. p < k * bd \<and> k * bd < p + n" by (auto simp: crosses_def)
next
  assume "\<exists>k. p < k * bd \<and> k * bd < p + n"
  then obtain k where k: "p < k * bd" "k * bd < p + n" by blast
  then have "k \<le> (p + n) div bd" using assms(1) by (simp add: less_eq_div_iff_mult_less_eq)
  then have "k * bd \<le> (p + n) div bd * bd" by simp
  moreover have "(p + n) - (p + n) mod bd = (p + n) div bd * bd" by (simp add: minus_mod_eq_div_mult)
  moreover have "(p + n) div bd * bd \<noteq> p + n"
  proof
    assume e: "(p + n) div bd * bd = p + n"
    then have "k < (p + n) div bd" using k(2) assms(1) by (metis mult_less_cancel2)
    then have "k * bd + bd \<le> (p + n) div bd * bd" by (metis Suc_leI mult_Suc mult_le_mono1 add.commute)
    then show False using e k assms(2) by linarith
  qed
  moreover have "(p + n) div bd * bd \<le> p + n" by simp
  ultimately show "crosses bd p n" using k assms(1) unfolding crosses_def by linarith
qed

lemma Heap_boundary_loop_returns:
  assumes "0 < unat al" and "0 < unat bd" and "unat ab + unat asz < 2 ^ 64" and "unat asz \<le> unat flo"
  shows "\<exists>r. Heap_boundary_loop asz al bd flo ab (ab + asz) (Heap_Align_down (ab + asz) bd) = Some r
    \<and> (r = Inl 0 \<or> (\<exists>b. r = Inr b \<and> unat b \<le> unat ab \<and> (b = ab \<or> unat al dvd unat b)
         \<and> \<not> crosses (unat bd) (unat b) (unat asz)))"
  using assms(3)
proof (induction "unat ab" arbitrary: ab rule: less_induct)
  case less
  let ?e = "ab + asz" and ?l = "Heap_Align_down (ab + asz) bd"
  let ?b = "Heap_Align_down (?l - asz) al"
  have e: "unat ?e = unat ab + unat asz" using less.prems by (simp add: unat_plus_no_wrap)
  have l: "unat ?l = unat ?e - unat ?e mod unat bd" by (rule Heap_Align_down_unat)
  have cr: "ab < ?l \<and> ?l < ?e \<longleftrightarrow> crosses (unat bd) (unat ab) (unat asz)"
    using assms(2) by (auto simp: crosses_def word_less_nat_alt l e)
  show ?case
  proof (cases "ab < ?l \<and> ?l < ?e \<and> \<not> ?l < flo")
    case False
    then show ?thesis using cr by (subst Heap_boundary_loop.simps) auto
  next
    case True
    have "asz \<le> ?l" using True assms(4) by (auto simp: word_le_nat_alt word_less_nat_alt)
    then have d: "unat (?l - asz) = unat ?l - unat asz" by (rule unat_minus_no_wrap)
    have b: "unat ?b \<le> unat ?l - unat asz" "unat al dvd unat ?b"
      unfolding Heap_Align_down_unat [of _ al] d by (rule diff_le_self dvd_minus_mod)+
    have lt: "unat ?b < unat ab" using b(1) True e \<open>asz \<le> ?l\<close> by (auto simp: word_less_nat_alt word_le_nat_alt)
    then have "unat ?b + unat asz < 2 ^ 64" using less.prems by simp
    from less.hyps [OF lt this] obtain r where r:
      "Heap_boundary_loop asz al bd flo ?b (?b + asz) (Heap_Align_down (?b + asz) bd) = Some r"
      "r = Inl 0 \<or> (\<exists>c. r = Inr c \<and> unat c \<le> unat ?b \<and> (c = ?b \<or> unat al dvd unat c) \<and> \<not> crosses (unat bd) (unat c) (unat asz))"
      by blast
    moreover have "Heap_boundary_loop asz al bd flo ab ?e ?l = Some r"
      using True r(1) by (subst Heap_boundary_loop.simps) (auto simp: Let_def)
    ultimately show ?thesis using b(2) lt by fastforce
  qed
qed

text \<open>
  What \<^verbatim>\<open>_Heap_Check_block\<close> promises for an area of \<open>A\<close> bytes at \<open>p\<close> in the block of \<open>S\<close> bytes at
  \<open>x\<close>: it is aligned, inside the block with its bonus, crosses no boundary line, and what is cut
  off in front of it and what is left for it are blocks of at least the minimum size.
\<close>

definition placed :: "Heap_Control \<Rightarrow> nat \<Rightarrow> nat \<Rightarrow> nat \<Rightarrow> nat \<Rightarrow> nat \<Rightarrow> nat \<Rightarrow> bool" where
  "placed h x S A al bd p \<longleftrightarrow>
     al dvd p \<and> x + 16 \<le> p \<and> p + A \<le> x + S + 8 \<and> \<not> crosses bd p A
     \<and> (let y = p - p mod unat (page_size h) - 16
        in x \<le> y \<and> y + unat (min_block_size h) \<le> x + S \<and> (y = x \<or> x + unat (min_block_size h) \<le> y))"

lemma align_down_mono: "v \<le> w \<Longrightarrow> v - v mod k \<le> w - w mod (k :: nat)"
  by (simp add: minus_mod_eq_div_mult div_le_mono)

lemma align_down_dvd: "k dvd v \<Longrightarrow> v \<le> w \<Longrightarrow> v \<le> w - w mod (k :: nat)"
  using align_down_mono [of v w k] by (simp add: dvd_imp_mod_0)

lemma dvd_block_address:
  assumes "heap_rep h m a (xs @ ys) fs"
  shows "unat (page_size h) dvd a + szs xs + 16"
proof -
  note g = heap_repD(1) [OF assms]
  have "unat (page_size h) dvd szs xs" using geomD(10) [OF g] by (intro dvd_szs) auto
  then have "unat (page_size h) dvd (a + 16) + szs xs" by (intro dvd_add geomD(6) [OF g])
  then show ?thesis by (simp add: ac_simps)
qed

text \<open>The first candidate: aligned, not above the ceiling, and its end inside the block.\<close>

lemma first_candidate:
  fixes al asz e8 ceil :: uintptr
  assumes "unat asz \<le> unat e8"
  defines "b1 \<equiv> Heap_Align_down (e8 - asz) al"
  defines "b2 \<equiv> (if b1 > ceil then Heap_Align_down ceil al else b1)"
  shows "unat al dvd unat b2" and "unat b2 \<le> unat ceil" and "unat b2 + unat asz \<le> unat e8"
proof -
  have "unat (e8 - asz) = unat e8 - unat asz" using assms(1) by (simp add: unat_sub word_le_nat_alt)
  then have b1: "unat b1 \<le> unat e8 - unat asz" "unat al dvd unat b1"
    by (simp_all add: b1_def Heap_Align_down_unat dvd_minus_mod del: diff_diff_left)
  have c: "unat (Heap_Align_down ceil al) \<le> unat ceil" "unat al dvd unat (Heap_Align_down ceil al)"
    by (simp_all add: Heap_Align_down_unat dvd_minus_mod)
  show "unat al dvd unat b2" "unat b2 \<le> unat ceil" "unat b2 + unat asz \<le> unat e8"
    using b1 c assms(1) by (auto simp: b2_def word_less_nat_alt not_less)
qed

lemma placedI:
  fixes S A :: nat
  defines "ps \<equiv> \<lambda>h. unat (page_size h)" and "ms \<equiv> \<lambda>h. unat (min_block_size h)"
  assumes "al dvd b" and "x + 16 \<le> b" and "b \<le> x + S - ms h + 16 + ps h - 1" and "b + A \<le> x + S + 8"
    and "\<not> crosses bd b A" and "ps h dvd x + 16" and "ps h dvd S" and "ps h dvd ms h" and "ms h \<le> S" and "0 < ps h"
    and "b - b mod ps h - 16 - x \<ge> ms h \<or> b - b mod ps h - 16 - x = 0"
  shows "placed h x S A al bd b"
proof -
  let ?y = "b - b mod ps h - 16"
  have lo: "x + 16 \<le> b - b mod ps h" using assms(8,4) by (rule align_down_dvd)
  have "ps h dvd (x + 16) + (S - ms h)" by (rule dvd_add [OF assms(8) dvd_diff_nat [OF assms(9,10)]])
  then have d: "ps h dvd x + S - ms h + 16" using assms(11) by (simp add: ac_simps)
  have "b - b mod ps h < x + S - ms h + 16 + ps h" using assms(5,12) by (intro le_less_trans [OF diff_le_self]) auto
  moreover have "ps h dvd b - b mod ps h" by (rule dvd_minus_mod)
  ultimately have "b - b mod ps h \<le> x + S - ms h + 16"
    using d by (metis dvd_def mult_Suc_right add.commute less_Suc_eq_le mult_less_cancel1 mult_le_mono2)
  then have "?y + ms h \<le> x + S" using assms(11) by simp
  then show ?thesis using assms lo by (auto simp: placed_def Let_def ps_def ms_def)
qed

lemma block_of_alloc_W:
  assumes "16 \<le> unat b - unat b mod unat pg"
  shows "Heap_Block_of_alloc_area b pg = W (unat b - unat b mod unat pg - 16)"
proof -
  have "Heap_Align_down b pg = W (unat b - unat b mod unat pg)"
    by (subst of_nat_diff) (simp_all add: Heap_Align_down_def unat_mod_W)
  moreover have "W (unat b - unat b mod unat pg - 16) = W (unat b - unat b mod unat pg) - 16"
    using assms by (subst of_nat_diff) simp_all
  ultimately show ?thesis by (simp only: Heap_Block_of_alloc_area_def HEAP_BLOCK_HEADER_SIZE_def)
qed

lemma Heap_Check_block_placed:
  assumes rep: "heap_rep h m a (xs @ (S, False) # ys) fs"
    and fit: "unat asz + 8 \<le> S" and al: "al \<noteq> 0"
  shows "\<exists>r. Heap_Check_block h (W (a + szs xs)) asz al bd m = Some r
    \<and> (r = 0 \<or> placed h (a + szs xs) S (unat asz) (unat al) (unat bd) (unat r))"
proof -
  let ?x = "a + szs xs" and ?ps = "unat (page_size h)" and ?ms = "unat (min_block_size h)"
  note rd = block_reads [OF rep] and g = heap_repD(1) [OF rep]
  have bnd: "?x + S + 16 < 2 ^ 64" using rd(6,7) by simp
  have Sok: "?ps dvd S" "?ms \<le> S" using geomD(10) [OF g, of "(S, False)"] by auto
  have psms: "?ps \<le> ?ms" using geomD(1,3,4) [OF g] by (auto intro: dvd_imp_le)
  define e8 where "e8 = W (?x + S) + HEAP_ALLOC_BONUS"
  define ceil where "ceil = W (?x + S) - min_block_size h + HEAP_BLOCK_HEADER_SIZE + page_size h - 1"
  have e8: "e8 = W (?x + S + 8)" by (simp add: e8_def HEAP_ALLOC_BONUS_def of_nat_add)
  have ue8: "unat e8 = ?x + S + 8" unfolding e8 using bnd by (intro unat_W) simp
  have "ceil = W (?x + S - ?ms + 16 + ?ps - 1)"
  proof -
    have "W (?x + S - ?ms + 16 + ?ps - 1) = W (?x + S - ?ms + 16 + ?ps) - 1"
      using geomD(1) [OF g] by (subst of_nat_diff) auto
    moreover have "W (?x + S - ?ms) = W (?x + S) - min_block_size h" using Sok by (subst of_nat_diff) auto
    ultimately show ?thesis by (simp add: ceil_def HEAP_BLOCK_HEADER_SIZE_def of_nat_add)
  qed
  moreover have "?x + S - ?ms + 16 + ?ps - 1 < 2 ^ 64" using bnd psms Sok by linarith
  ultimately have uceil: "unat ceil = ?x + S - ?ms + 16 + ?ps - 1" using unat_W by simp
  define b1 where "b1 = Heap_Align_down (e8 - asz) al"
  define b2 where "b2 = (if b1 > ceil then Heap_Align_down ceil al else b1)"
  have b2: "unat al dvd unat b2" "unat b2 \<le> unat ceil" "unat b2 + unat asz \<le> unat e8"
    unfolding b2_def b1_def using fit ue8 by (intro first_candidate; simp)+
  define flo where "flo = Heap_Alloc_area_of_block (W ?x) + asz"
  have area: "Heap_Alloc_area_of_block (W ?x) = W (?x + 16)"
    by (simp add: Heap_Alloc_area_of_block_def HEAP_BLOCK_HEADER_SIZE_def of_nat_add)
  have uarea: "unat (W (?x + 16)) = ?x + 16" using bnd rd(5) by (intro unat_W) simp
  have "unat flo = ?x + 16 + unat asz" unfolding flo_def area using bnd fit uarea
    by (subst unat_plus_no_wrap) auto
  define r where "r = (if bd \<noteq> 0 then Heap_boundary_loop asz al bd flo b2 (b2 + asz) (Heap_Align_down (b2 + asz) bd)
      else Some (Inr b2))"
  have "\<exists>v. r = Some v \<and> (v = Inl 0 \<or> (\<exists>b. v = Inr b \<and> unat b \<le> unat b2 \<and> (b = b2 \<or> unat al dvd unat b)
      \<and> \<not> crosses (unat bd) (unat b) (unat asz)))"
    using Heap_boundary_loop_returns [of al bd b2 asz flo] al b2(3) ue8 bnd \<open>unat flo = _\<close>
    by (auto simp: r_def crosses_def unat_gt_0)
  then obtain v where v: "r = Some v" "v = Inl 0 \<or> (\<exists>b. v = Inr b \<and> unat b \<le> unat b2
      \<and> (b = b2 \<or> unat al dvd unat b) \<and> \<not> crosses (unat bd) (unat b) (unat asz))" by blast
  have eq: "Heap_Check_block h (W ?x) asz al bd m = (case r of None \<Rightarrow> None | Some (Inl v) \<Rightarrow> Some v
    | Some (Inr b) \<Rightarrow> if b \<ge> W (?x + 16)
        then let free_sz = Heap_Block_of_alloc_area b (page_size h) - W ?x
             in if free_sz \<ge> min_block_size h \<or> free_sz = 0 then Some b else Some 0
        else Some 0)"
    unfolding Heap_Check_block_def Let_def rd(2) of_nat_add [symmetric] r_def flo_def area b2_def b1_def e8_def ceil_def
    by (rule refl)
  show ?thesis
  proof (cases "\<exists>b. v = Inr b \<and> ?x + 16 \<le> unat b")
    case False
    then show ?thesis using v uarea by (auto simp: eq word_le_nat_alt)
  next
    case True
    then obtain b where b: "v = Inr b" "?x + 16 \<le> unat b" "unat b \<le> unat b2" "unat al dvd unat b"
      "\<not> crosses (unat bd) (unat b) (unat asz)" using v(2) b2(1) by auto
    have pdvd: "?ps dvd ?x + 16" by (rule dvd_block_address [OF rep])
    let ?y = "unat b - unat b mod ?ps - 16"
    have lo: "?x + 16 \<le> unat b - unat b mod ?ps" using pdvd b(2) by (rule align_down_dvd)
    have "W (?y - ?x) = W ?y - W ?x" using lo by (intro of_nat_diff) simp
    then have "Heap_Block_of_alloc_area b (page_size h) - W ?x = W (?y - ?x)"
      using lo block_of_alloc_W [of b "page_size h"] by simp
    moreover have "unat (W (?y - ?x)) = ?y - ?x" using unat_lt2p [of b] by (intro unat_W) auto
    ultimately have "Heap_Check_block h (W ?x) asz al bd m
        = (if ?ms \<le> ?y - ?x \<or> ?y - ?x = 0 then Some b else Some 0)"
      using v(1) b(1,2) uarea by (simp add: eq word_le_nat_alt unat_eq_zero [symmetric])
    moreover have "placed h ?x S (unat asz) (unat al) (unat bd) (unat b)" if "?ms \<le> ?y - ?x \<or> ?y - ?x = 0"
      using that b b2 uceil ue8 pdvd Sok geomD(1,3) [OF g] by (intro placedI) auto
    ultimately show ?thesis by auto
  qed
qed

section \<open>The search\<close>

lemma faddrs_split: "x \<in> set (faddrs a bs) \<Longrightarrow> \<exists>xs S ys. bs = xs @ (S, False) # ys \<and> x = a + szs xs"
proof (induction a bs rule: faddrs.induct)
  case (2 a s u bs)
  show ?case
  proof (cases "x = a \<and> \<not> u")
    case True
    then show ?thesis by (intro exI [of _ "[]"]) auto
  next
    case False
    then obtain xs S ys where "bs = xs @ (S, False) # ys" "x = a + s + szs xs"
      using "2.IH" "2.prems" by (auto split: if_splits)
    then show ?thesis by (intro exI [of _ "(s, u) # xs"]) auto
  qed
qed simp

lemma fs_block:
  assumes "heap_rep h m a bs fs" and "f \<in> set fs"
  obtains xs S ys where "bs = xs @ (S, False) # ys" and "f = W (a + szs xs)"
  using assms heap_repD(6) [OF assms(1)] faddrs_split by blast

lemma free_block_hdr:
  assumes rep: "heap_rep h m a (xs @ (S, False) # ys) fs"
  shows "SF m (W (a + szs xs)) = W (S + 1)" and "S + 1 < 2 ^ 64"
proof -
  note rd = block_reads [OF rep]
  have "SF m (W (a + szs xs)) = W S OR flg True"
    using seg_at(2) [of "SF m" "PS m" a True xs S False] heap_rep_seg [of h m a xs "[(S, False)]" ys fs] rep rd(8) by simp
  then show "SF m (W (a + szs xs)) = W (S + 1)" using hdr_plus [OF rd(1)] by simp
  show "S + 1 < 2 ^ 64" using rd(6,7) by simp
qed

text \<open>With alignment zero the whole area of the block is taken, which is any alignment of one.\<close>

lemma placed_unaligned:
  assumes rep: "heap_rep h m a (xs @ (S, False) # ys) fs" and "A + 8 \<le> S"
  shows "placed h (a + szs xs) S A 1 0 (a + szs xs + 16)"
proof -
  have "unat (page_size h) dvd a + szs xs + 16" by (rule dvd_block_address [OF rep])
  moreover have "unat (min_block_size h) \<le> S" using geomD(10) [OF heap_repD(1) [OF rep], of "(S, False)"] by auto
  ultimately show ?thesis using assms(2) by (simp add: placed_def crosses_def dvd_imp_mod_0)
qed

definition suits :: "Heap_Control \<Rightarrow> nat \<Rightarrow> nat \<Rightarrow> nat \<Rightarrow> uintptr \<Rightarrow> uintptr \<Rightarrow> nat \<Rightarrow> bool" where
  "suits h x S A al bd p \<longleftrightarrow>
     A + 8 \<le> S \<and> placed h x S A (if al = 0 then 1 else unat al) (unat bd) p \<and> (al = 0 \<longrightarrow> p = x + 16)"

lemma try_block:
  assumes rep: "heap_rep h m a (xs @ (S, False) # ys) fs" and floor: "unat floor = unat asz + 8"
    and al: "al = 0 \<longrightarrow> bd = 0"
  shows "\<exists>p. (if size_and_flag (m (W (a + szs xs))) > floor
              then if al = 0 then Some (Heap_Alloc_area_of_block (W (a + szs xs)))
                   else Heap_Check_block h (W (a + szs xs)) asz al bd m
              else Some 0) = Some p
     \<and> (p = 0 \<longrightarrow> al = 0 \<longrightarrow> S < unat asz + 8)
     \<and> (p \<noteq> 0 \<longrightarrow> suits h (a + szs xs) S (unat asz) al bd (unat p))"
proof -
  let ?x = "a + szs xs"
  note hdr = free_block_hdr [OF rep] and rd = block_reads [OF rep]
  have c: "size_and_flag (m (W ?x)) > floor \<longleftrightarrow> unat asz + 8 \<le> S"
    using hdr floor unat_W [OF hdr(2)] by (simp add: field_reads word_less_nat_alt less_Suc_eq_le)
  have area: "Heap_Alloc_area_of_block (W ?x) = W (?x + 16)"
    by (simp add: Heap_Alloc_area_of_block_def HEAP_BLOCK_HEADER_SIZE_def of_nat_add)
  have "unat (W (?x + 16)) = ?x + 16" using rd(5,6,7) by (intro unat_W) simp
  moreover from this have "W (?x + 16) \<noteq> 0" by auto
  ultimately show ?thesis
    using c area al placed_unaligned [OF rep, of "unat asz"] Heap_Check_block_placed [OF rep, of asz al bd]
    by (auto simp: suits_def)
qed

lemma Heap_search_loop_finds:
  assumes rep: "heap_rep h m a bs fs" and floor: "unat floor = unat asz + 8" and al: "al = 0 \<longrightarrow> bd = 0"
  shows "set F \<subseteq> set fs \<Longrightarrow> dlinks (NX m) (PV m) (F @ [free_list h]) \<Longrightarrow> free_list h \<notin> set F \<Longrightarrow>
    \<exists>blk p c. Heap_search_loop h asz floor al bd m (hd (F @ [free_list h])) n = Some (blk, p, c)
     \<and> (p = 0 \<longrightarrow> al = 0 \<longrightarrow> (\<forall>xs S ys. bs = xs @ (S, False) # ys \<longrightarrow> W (a + szs xs) \<in> set F \<longrightarrow> S < unat asz + 8))
     \<and> (p \<noteq> 0 \<longrightarrow> (\<exists>xs S ys. bs = xs @ (S, False) # ys \<and> blk = W (a + szs xs)
                     \<and> suits h (a + szs xs) S (unat asz) al bd (unat p)))"
proof (induction F arbitrary: n)
  case Nil
  then show ?case by (subst Heap_search_loop.simps) (simp add: Heap_Free_list_tail_def)
next
  case (Cons f F)
  obtain xs S ys where bs: "bs = xs @ (S, False) # ys" and f: "f = W (a + szs xs)"
    using fs_block [OF rep, of f] Cons.prems(1) by auto
  have rep': "heap_rep h m a (xs @ (S, False) # ys) fs" using rep bs by simp
  obtain p where p: "(if size_and_flag (m f) > floor
        then if al = 0 then Some (Heap_Alloc_area_of_block f) else Heap_Check_block h f asz al bd m else Some 0) = Some p"
      "p = 0 \<longrightarrow> al = 0 \<longrightarrow> S < unat asz + 8" "p \<noteq> 0 \<longrightarrow> suits h (a + szs xs) S (unat asz) al bd (unat p)"
    using try_block [OF rep' floor al] f by auto
  have ne: "f \<noteq> Heap_Free_list_tail h" using Cons.prems(3) by (auto simp: Heap_Free_list_tail_def)
  have links: "NX m f = hd (F @ [free_list h])" "dlinks (NX m) (PV m) (F @ [free_list h])"
    using Cons.prems(2) by (cases F; simp)+
  have step: "Heap_search_loop h asz floor al bd m f n =
      (if p \<noteq> 0 then Some (f, p, n + 1) else Heap_search_loop h asz floor al bd m (hd (F @ [free_list h])) (n + 1))"
    using ne p(1) links(1) by (subst Heap_search_loop.simps) (simp add: Let_def field_reads)
  have same: "S' = S" if "bs = xs' @ (S', False) # ys'" "W (a + szs xs') = f" for xs' S' ys'
    using free_block_hdr [OF rep'] free_block_hdr [of h m a xs' S' ys' fs] that rep f by (auto simp: W_eq)
  show ?case
  proof (cases "p = 0")
    case False
    then show ?thesis using step p(3) bs f by auto
  next
    case True
    have "set F \<subseteq> set fs" "free_list h \<notin> set F" using Cons.prems(1,3) by auto
    from Cons.IH [OF this(1) links(2) this(2), of "n + 1"] show ?thesis
      using step True p(2) same by (auto 4 4)
  qed
qed

section \<open>Allocation\<close>

text \<open>The start of the block an area at \<open>p\<close> belongs to, and the blocks that replace a free block.\<close>

definition block_start :: "Heap_Control \<Rightarrow> nat \<Rightarrow> nat" where
  "block_start h p = p - p mod unat (page_size h) - 16"

definition alloc_blocks :: "Heap_Control \<Rightarrow> nat \<Rightarrow> nat \<Rightarrow> nat \<Rightarrow> nat \<Rightarrow> layout" where
  "alloc_blocks h x S A p =
     (let y = block_start h p
      in if y = x then split_layout h (A + (p - (x + 16))) S
         else (y - x, False) # split_layout h A (S - (y - x)))"

lemma Heap_Block_allocate_placed:
  assumes rep: "heap_rep h m a (xs @ (S, False) # ys) fs"
    and pl: "placed h (a + szs xs) S (unat asz) al bd (unat p)"
  shows "\<exists>st' m' fs'. Heap_Block_allocate h (W (a + szs xs)) p asz m = (W (block_start h (unat p)), h\<lparr>stats := st'\<rparr>, m')
     \<and> heap_rep (h\<lparr>stats := st'\<rparr>) m' a (xs @ alloc_blocks h (a + szs xs) S (unat asz) (unat p) @ ys) fs'"
proof -
  let ?x = "a + szs xs" and ?ps = "unat (page_size h)" and ?ms = "unat (min_block_size h)" and ?p = "unat p"
  let ?y = "block_start h ?p"
  note g = heap_repD(1) [OF rep]
  have pl': "?x + 16 \<le> ?p" "?p + unat asz \<le> ?x + S + 8" "?x \<le> ?y" "?y + ?ms \<le> ?x + S" "?y = ?x \<or> ?x + ?ms \<le> ?y"
    using pl by (auto simp: placed_def block_start_def Let_def)
  have pd: "?ps dvd ?x + 16" by (rule dvd_block_address [OF rep])
  have "?x + 16 \<le> ?p - ?p mod ?ps" using pd pl'(1) by (rule align_down_dvd)
  then have y16: "?y + 16 = ?p - ?p mod ?ps" by (simp add: block_start_def)
  moreover have m: "?p mod ?ps < ?ps" "?p mod ?ps \<le> ?p" using geomD(1) [OF g] by auto
  ultimately have ptr: "?y + 16 \<le> ?p" "?p < ?y + 16 + ?ps" by linarith+
  show ?thesis
  proof (cases "?y = ?x")
    case True
    then show ?thesis
      using Heap_Block_allocate_begin [OF rep, of p _ asz, OF _ _ refl] ptr pl'(2)
      by (simp add: alloc_blocks_def)
  next
    case False
    define k s where ks: "k = ?y - ?x" "s = S - k"
    have S: "S = k + s" "?x + k = ?y" using ks pl' False by auto
    have "?ps dvd (?y + 16) - (?x + 16)" using pd y16 dvd_minus_mod [of ?ps ?p] by (intro dvd_diff_nat) auto
    then have kd: "?ps dvd k" using ks by simp
    have rep': "heap_rep h m a (xs @ (k + s, False) # ys) fs" using rep S by simp
    have ms: "?ms \<le> k" "?ms \<le> s" and fit: "unat asz + 16 \<le> s + 8" using pl' False S ptr by linarith+
    have ptr': "?x + k + 16 \<le> ?p" "?p < ?x + k + 16 + ?ps" using ptr unfolding S(2) by auto
    have "alloc_blocks h ?x S (unat asz) ?p = (k, False) # split_layout h (unat asz) s"
      using False by (simp add: alloc_blocks_def Let_def ks)
    then show ?thesis using Heap_Block_allocate_end [OF rep' kd ms ptr' fit] unfolding S(2) by simp
  qed
qed

text \<open>The alignment the search uses.\<close>

definition eff_align :: "Heap_Control \<Rightarrow> uintptr \<Rightarrow> uintptr \<Rightarrow> uintptr" where
  "eff_align h al bd = (if bd \<noteq> 0 \<and> al = 0 then page_size h else al)"

lemma size_floor:
  fixes asz :: uintptr
  defines "floor \<equiv> asz + HEAP_BLOCK_HEADER_SIZE - HEAP_ALLOC_BONUS"
  shows "floor < asz \<Longrightarrow> 2 ^ 64 \<le> unat asz + 8" and "\<not> floor < asz \<Longrightarrow> unat floor = unat asz + 8"
proof -
  have fl: "floor = asz + 8" by (simp add: floor_def HEAP_BLOCK_HEADER_SIZE_def HEAP_ALLOC_BONUS_def)
  have small: "unat (asz + 8) = unat asz + 8" if "unat asz + 8 < 2 ^ 64" using that by (subst unat_plus_no_wrap) auto
  then show "floor < asz \<Longrightarrow> 2 ^ 64 \<le> unat asz + 8" by (force simp: fl word_less_nat_alt)
  assume "\<not> floor < asz"
  moreover have "unat (asz + 8) < unat asz" if "2 ^ 64 \<le> unat asz + 8"
    using that unat_lt2p [of asz] by (simp add: unat_word_ariths mod_if)
  ultimately show "unat floor = unat asz + 8" using small by (force simp: fl word_less_nat_alt)
qed

lemma no_block_that_large:
  assumes "heap_rep h m a bs fs" and "2 ^ 64 \<le> n" and "b \<in> set bs"
  shows "fst b < n"
proof -
  have "fst b \<le> szs bs" using assms(3) by (auto intro: member_le_sum_list)
  then show ?thesis using geomD(7) [OF heap_repD(1) [OF assms(1)]] assms(2) by linarith
qed

lemma Heap_search_finds:
  assumes rep: "heap_rep h m a bs fs" and floor: "unat floor = unat asz + 8" and al: "al = 0 \<longrightarrow> bd = 0"
  obtains blk p c where "Heap_search_loop h asz floor al bd m (Heap_Free_list_first h m) 0 = Some (blk, p, c)"
    and "p = 0 \<Longrightarrow> al = 0 \<Longrightarrow> \<forall>b\<in>set bs. snd b \<or> fst b < unat asz + 8"
    and "p \<noteq> 0 \<Longrightarrow> \<exists>xs S ys. bs = xs @ (S, False) # ys \<and> blk = W (a + szs xs)
          \<and> suits h (a + szs xs) S (unat asz) al bd (unat p)"
proof -
  have "dlinks (NX m) (PV m) (free_list h # fs @ [free_list h])" "free_list h \<notin> set fs"
    using heap_repD(5) [OF rep] by (auto simp: flist_def)
  then have first: "Heap_Free_list_first h m = hd (fs @ [free_list h])" "dlinks (NX m) (PV m) (fs @ [free_list h])"
    "free_list h \<notin> set fs"
    by (cases fs; simp add: Heap_Free_list_first_def Heap_Free_list_head_def field_reads)+
  obtain blk p c where r: "Heap_search_loop h asz floor al bd m (Heap_Free_list_first h m) 0 = Some (blk, p, c)"
    "p = 0 \<longrightarrow> al = 0 \<longrightarrow> (\<forall>xs S ys. bs = xs @ (S, False) # ys \<longrightarrow> W (a + szs xs) \<in> set fs \<longrightarrow> S < unat asz + 8)"
    "p \<noteq> 0 \<longrightarrow> (\<exists>xs S ys. bs = xs @ (S, False) # ys \<and> blk = W (a + szs xs)
        \<and> suits h (a + szs xs) S (unat asz) al bd (unat p))"
    using Heap_search_loop_finds [OF rep floor al order_refl first(2,3), of 0] unfolding first(1) by blast
  show thesis
  proof (rule that [OF r(1)])
    assume z: "p = 0" "al = 0"
    show "\<forall>b\<in>set bs. snd b \<or> fst b < unat asz + 8"
    proof
      fix b assume "b \<in> set bs"
      then obtain xs ys where bs: "bs = xs @ b # ys" by (meson split_list)
      obtain S u where b: "b = (S, u)" by (cases b)
      then have "W (a + szs xs) \<in> set fs" if "\<not> u"
        using heap_repD(6) [OF rep] bs that by (auto simp: faddrs_append)
      then show "snd b \<or> fst b < unat asz + 8" using r(2) z bs b by (cases u) auto
    qed
  qed (use r(3) in blast)
qed

text \<open>What the caller gets to know: null, or an area in a block cut out of a free block.\<close>

lemma Heap_Allocate_result:
  assumes rep: "heap_rep h m a bs fs"
  shows "\<exists>p st' m' bs' fs'. Heap_Allocate_aligned_with_boundary h asz al bd m = Some (p, h\<lparr>stats := st'\<rparr>, m')
    \<and> heap_rep (h\<lparr>stats := st'\<rparr>) m' a bs' fs'
    \<and> (p = 0 \<longrightarrow> m' = m \<and> bs' = bs \<and> (al = 0 \<longrightarrow> bd = 0 \<longrightarrow> (\<forall>b\<in>set bs. snd b \<or> fst b < unat asz + 8)))
    \<and> (p \<noteq> 0 \<longrightarrow> (\<exists>xs S ys. bs = xs @ (S, False) # ys
         \<and> suits h (a + szs xs) S (unat asz) (eff_align h al bd) bd (unat p)
         \<and> bs' = xs @ alloc_blocks h (a + szs xs) S (unat asz) (unat p) @ ys))"
proof (cases "asz + HEAP_BLOCK_HEADER_SIZE - HEAP_ALLOC_BONUS < asz \<or> bd \<noteq> 0 \<and> bd < asz")
  case True
  then have "Heap_Allocate_aligned_with_boundary h asz al bd m = Some (0, h\<lparr>stats := stats h\<rparr>, m)"
    by (auto simp: Heap_Allocate_aligned_with_boundary_def Let_def)
  moreover have "heap_rep (h\<lparr>stats := stats h\<rparr>) m a bs fs" using rep by simp
  moreover have "bd = 0 \<Longrightarrow> \<forall>b\<in>set bs. snd b \<or> fst b < unat asz + 8"
    using True size_floor(1) [of asz] no_block_that_large [OF rep] by blast
  ultimately show ?thesis by blast
next
  case False
  let ?floor = "asz + HEAP_BLOCK_HEADER_SIZE - HEAP_ALLOC_BONUS" and ?al = "eff_align h al bd"
  have nf: "\<not> ?floor < asz" "\<not> (bd \<noteq> 0 \<and> bd < asz)" using False by auto
  have floor: "unat ?floor = unat asz + 8" using nf size_floor(2) [of asz] by blast
  have al0: "?al = 0 \<longrightarrow> bd = 0" using geomD(1) [OF heap_repD(1) [OF rep]] by (auto simp: eff_align_def)
  obtain blk p c where loop: "Heap_search_loop h asz ?floor ?al bd m (Heap_Free_list_first h m) 0 = Some (blk, p, c)"
    and none: "p = 0 \<Longrightarrow> ?al = 0 \<Longrightarrow> \<forall>b\<in>set bs. snd b \<or> fst b < unat asz + 8"
    and some: "p \<noteq> 0 \<Longrightarrow> \<exists>xs S ys. bs = xs @ (S, False) # ys \<and> blk = W (a + szs xs)
        \<and> suits h (a + szs xs) S (unat asz) ?al bd (unat p)"
    using Heap_search_finds [OF rep floor al0] by metis
  define fin :: "Heap_Statistics \<Rightarrow> Heap_Statistics" where "fin = (\<lambda>s. if max_search s < c then s\<lparr>max_search := c\<rparr> else s)"
  have fin: "stats_ok (fin st) ls = stats_ok st ls" for st ls by (simp add: fin_def stats_ok_def)
  show ?thesis
  proof (cases "p = 0")
    case True
    let ?st = "fin ((stats h)\<lparr>failed_allocs := failed_allocs (stats h) + 1\<rparr>)"
    have "Heap_Allocate_aligned_with_boundary h asz al bd m = Some (0, h\<lparr>stats := ?st\<rparr>, m)"
      using nf loop True by (auto simp: Heap_Allocate_aligned_with_boundary_def Let_def eff_align_def upd_stats_def fin_def)
    moreover have "heap_rep (h\<lparr>stats := ?st\<rparr>) m a bs fs"
      using heap_repD(7) [OF rep] by (intro heap_rep_stats [OF rep]) (simp add: fin, simp add: stats_ok_def)
    moreover have "al = 0 \<Longrightarrow> bd = 0 \<Longrightarrow> \<forall>b\<in>set bs. snd b \<or> fst b < unat asz + 8"
      using none True by (simp add: eff_align_def)
    ultimately show ?thesis by blast
  next
    case pnz: False
    then obtain xs S ys where bs: "bs = xs @ (S, False) # ys" and blk: "blk = W (a + szs xs)"
      and su: "suits h (a + szs xs) S (unat asz) ?al bd (unat p)" using some by blast
    obtain st' m' fs' where al: "Heap_Block_allocate h blk p asz m = (W (block_start h (unat p)), h\<lparr>stats := st'\<rparr>, m')"
      and r: "heap_rep (h\<lparr>stats := st'\<rparr>) m' a (xs @ alloc_blocks h (a + szs xs) S (unat asz) (unat p) @ ys) fs'"
      using Heap_Block_allocate_placed [of h m a xs S ys fs asz] rep bs blk su unfolding suits_def by blast
    let ?st = "fin (st'\<lparr>allocs := allocs st' + 1, searches := searches st' + c,
        lifetime_allocated := lifetime_allocated st' + Heap_Block_size m' (W (block_start h (unat p)))\<rparr>)"
    have "Heap_Allocate_aligned_with_boundary h asz al bd m = Some (p, h\<lparr>stats := ?st\<rparr>, m')"
      using nf loop pnz al by (auto simp: Heap_Allocate_aligned_with_boundary_def Let_def eff_align_def upd_stats_def fin_def)
    moreover have "heap_rep (h\<lparr>stats := ?st\<rparr>) m' a (xs @ alloc_blocks h (a + szs xs) S (unat asz) (unat p) @ ys) fs'"
      using heap_rep_stats [OF r, of ?st] heap_repD(7) [OF r] by (simp add: fin) (simp add: stats_ok_def)
    ultimately show ?thesis using pnz bs su by blast
  qed
qed

end
