(* ===== verification/Heap_Correct.thy ===== *)
theory Heap_Correct
  imports Heap_Search
begin

text \<open>
  What the Heap Handler promises its clients: allocation, deallocation and resizing keep the
  invariant, the areas handed out do not overlap, writing to them does not damage the heap.
\<close>

section \<open>The used blocks\<close>

fun used_at :: "nat \<Rightarrow> layout \<Rightarrow> (nat \<times> nat) set" where
  "used_at a [] = {}"
| "used_at a ((s, u) # bs) = (if u then insert (a, s) (used_at (a + s) bs) else used_at (a + s) bs)"

lemma used_at_append: "used_at a (xs @ ys) = used_at a xs \<union> used_at (a + szs xs) ys"
  by (induction a xs rule: used_at.induct) (auto simp: add.assoc)

lemma used_at_range: "(x, s) \<in> used_at a bs \<Longrightarrow> a \<le> x \<and> x + s \<le> a + szs bs"
  by (induction a bs rule: used_at.induct) (auto split: if_splits)

lemma used_at_split: "(x, s) \<in> used_at a bs \<longleftrightarrow> (\<exists>xs ys. bs = xs @ (s, True) # ys \<and> x = a + szs xs)"
proof
  show "\<exists>xs ys. bs = xs @ (s, True) # ys \<and> x = a + szs xs" if "(x, s) \<in> used_at a bs"
    using that
  proof (induction a bs rule: used_at.induct)
    case (2 a t u bs)
    show ?case
    proof (cases "u \<and> x = a \<and> s = t")
      case True
      then show ?thesis by - (rule exI [of _ "[]"], auto)
    next
      case False
      then obtain xs ys where "bs = xs @ (s, True) # ys" "x = a + t + szs xs"
        using "2.IH" "2.prems" by (auto split: if_splits)
      then show ?thesis by - (rule exI [of _ "(t, u) # xs"], rule exI [of _ ys], simp)
    qed
  qed simp
qed (auto simp: used_at_append)

lemma used_at_disjoint:
  assumes "(x, s) \<in> used_at a bs" and "(y, t) \<in> used_at a bs"
  shows "(x, s) = (y, t) \<or> x + s \<le> y \<or> y + t \<le> x"
  using assms
proof (induction a bs rule: used_at.induct)
  case (2 a r u bs)
  then show ?case using used_at_range [of x s "a + r" bs] used_at_range [of y t "a + r" bs]
    by (auto split: if_splits)
qed simp

text \<open>The block an allocation cuts out of a free block of \<open>S\<close> bytes at \<open>x\<close>.\<close>

definition own_size :: "Heap_Control \<Rightarrow> nat \<Rightarrow> nat \<Rightarrow> nat \<Rightarrow> nat \<Rightarrow> nat" where
  "own_size h x S A p =
     (let y = block_start h p; B = (if y = x then A + (p - (x + 16)) else A); s = S - (y - x)
      in if splits h B s then used_part h B else s)"

lemma alloc_blocks_used:
  assumes "x \<le> block_start h p"
  shows "used_at x (alloc_blocks h x S A p) = {(block_start h p, own_size h x S A p)}"
  using assms by (auto simp: alloc_blocks_def own_size_def split_layout_def Let_def)

lemma placed_block:
  assumes rep: "heap_rep h m a (xs @ (S, False) # ys) fs" and pl: "placed h (a + szs xs) S A al bd p"
  shows "a + szs xs \<le> block_start h p" "block_start h p + 16 \<le> p" "p < block_start h p + 16 + unat (page_size h)"
    "block_start h p + unat (min_block_size h) \<le> a + szs xs + S" "p - (block_start h p + 16) = p mod unat (page_size h)"
proof -
  let ?x = "a + szs xs" and ?ps = "unat (page_size h)"
  have pl': "?x + 16 \<le> p" "?x \<le> block_start h p" "block_start h p + unat (min_block_size h) \<le> ?x + S"
    using pl by (auto simp: placed_def block_start_def Let_def)
  have "?x + 16 \<le> p - p mod ?ps" using dvd_block_address [OF rep] pl'(1) by (rule align_down_dvd)
  then have "block_start h p + 16 = p - p mod ?ps" by (simp add: block_start_def)
  moreover have "p mod ?ps < ?ps" "p mod ?ps \<le> p" using geomD(1) [OF heap_repD(1) [OF rep]] by auto
  ultimately show "?x \<le> block_start h p" "block_start h p + 16 \<le> p" "p < block_start h p + 16 + ?ps"
    "block_start h p + unat (min_block_size h) \<le> ?x + S" "p - (block_start h p + 16) = p mod ?ps"
    using pl' by linarith+
qed

lemma own_size_holds:
  assumes rep: "heap_rep h m a (xs @ (S, False) # ys) fs" and pl: "placed h (a + szs xs) S A al bd p"
    and page: "unat (page_size h) = 8 \<or> unat (page_size h) dvd p \<or> block_start h p = a + szs xs"
  shows "p + A \<le> block_start h p + own_size h (a + szs xs) S A p + 8"
proof -
  let ?x = "a + szs xs" and ?ps = "unat (page_size h)" and ?y = "block_start h p"
  note b = placed_block [OF rep pl] and ps = geomD(1) [OF heap_repD(1) [OF rep]]
  have e: "p + A \<le> ?x + S + 8" using pl by (simp add: placed_def)
  have need: "n + 16 \<le> used_part h n" for n
    using align_up_props(2) [OF ps, of "need h n"] by (simp add: used_part_def need_def)
  have off: "?ps = 8 \<or> ?ps dvd p \<Longrightarrow> p - (?y + 16) \<le> 8" using b(5) by auto
  show ?thesis
  proof (cases "?y = ?x")
    case True
    then show ?thesis using need [of "A + (p - (?x + 16))"] b(2) e by (auto simp: own_size_def Let_def)
  next
    case False
    then show ?thesis using need [of A] off page b e by (auto simp: own_size_def Let_def)
  qed
qed

section \<open>Allocation\<close>

text \<open>
  Everything a successful allocation promises about the area of \<open>A\<close> bytes at \<open>p\<close>: one used block,
  of \<open>s\<close> bytes at \<open>y\<close>, is new, and it is the block of the area; the area is aligned, by default to
  the page size, and crosses no boundary line.
\<close>

definition granted ::
    "Heap_Control \<Rightarrow> nat \<Rightarrow> layout \<Rightarrow> layout \<Rightarrow> nat \<Rightarrow> nat \<Rightarrow> nat \<Rightarrow> nat \<Rightarrow> nat \<Rightarrow> nat \<Rightarrow> bool" where
  "granted h a bs bs' A al bd p y s \<longleftrightarrow>
     used_at a bs' = insert (y, s) (used_at a bs) \<and> (\<forall>(x, t)\<in>used_at a bs. x + t \<le> y \<or> y + s \<le> x)
     \<and> y + 16 \<le> p \<and> p < y + 16 + unat (page_size h) \<and> 0 < s
     \<and> (if al = 0 then unat (page_size h) else al) dvd p \<and> \<not> crosses bd p A
     \<and> (unat (page_size h) = 8 \<or> unat (page_size h) dvd al \<longrightarrow> p + A \<le> y + s + 8)"

lemma own_size_bounds:
  assumes rep: "heap_rep h m a (xs @ (S, False) # ys) fs" and pl: "placed h (a + szs xs) S A al bd p"
  shows "0 < own_size h (a + szs xs) S A p" "block_start h p + own_size h (a + szs xs) S A p \<le> a + szs xs + S"
    "szs (alloc_blocks h (a + szs xs) S A p) = S"
proof -
  let ?x = "a + szs xs" and ?ps = "unat (page_size h)" and ?y = "block_start h p"
  note b = placed_block [OF rep pl] and g = heap_repD(1) [OF rep]
  have "?ps dvd S" using geomD(10) [OF g, of "(S, False)"] by auto
  moreover have "?ps dvd ?y - ?x"
  proof -
    have "?y + 16 = p - p mod ?ps" using b(2,5) by linarith
    then have "?ps dvd (?y + 16) - (?x + 16)"
      using dvd_minus_mod [of ?ps p] by (intro dvd_diff_nat dvd_block_address [OF rep]) simp
    then show ?thesis by simp
  qed
  ultimately have d: "?ps dvd S - (?y - ?x)" by (rule dvd_diff_nat)
  note pr = splits_props [OF g _ d]
  show "0 < own_size h ?x S A p" "?y + own_size h ?x S A p \<le> ?x + S"
    using b(1,4) geomD(4) [OF g] pr(2,3) by (fastforce simp: own_size_def Let_def)+
  have "unat (min_block_size h) \<le> S - (?y - ?x)" using b(1,4) by linarith
  from split_layout_props(1) [OF g d this] show "szs (alloc_blocks h ?x S A p) = S"
    using b(1,4) by (auto simp: alloc_blocks_def Let_def)
qed

lemma granted_placed:
  assumes rep: "heap_rep h m a (xs @ (S, False) # ys) fs"
    and su: "suits h (a + szs xs) S A (eff_align h al bd) bd p"
  shows "granted h a (xs @ (S, False) # ys) (xs @ alloc_blocks h (a + szs xs) S A p @ ys) A (unat al) (unat bd) p
    (block_start h p) (own_size h (a + szs xs) S A p)"
proof -
  let ?x = "a + szs xs" and ?ps = "unat (page_size h)" and ?y = "block_start h p" and ?s = "own_size h (a + szs xs) S A p"
  let ?e = "eff_align h al bd"
  have pl: "placed h ?x S A (if ?e = 0 then 1 else unat ?e) (unat bd) p" and p0: "?e = 0 \<Longrightarrow> p = ?x + 16"
    using su by (auto simp: suits_def)
  note b = placed_block [OF rep pl] and o = own_size_bounds [OF rep pl] and dx = dvd_block_address [OF rep]
  have "used_at a (xs @ alloc_blocks h ?x S A p @ ys) = insert (?y, ?s) (used_at a (xs @ (S, False) # ys))"
    using alloc_blocks_used [OF b(1)] o(3) by (simp add: used_at_append)
  moreover have "x + t \<le> ?y \<or> ?y + ?s \<le> x" if "(x, t) \<in> used_at a (xs @ (S, False) # ys)" for x t
    using that used_at_range [of x t a xs] used_at_range [of x t "?x + S" ys] b(1) o by (auto simp: used_at_append)
  moreover have al: "(if unat al = 0 then ?ps else unat al) dvd p"
    using pl p0 dx by (auto simp: eff_align_def placed_def unat_eq_zero split: if_splits)
  moreover have "\<not> crosses (unat bd) p A" using pl by (simp add: placed_def)
  moreover have "p + A \<le> ?y + ?s + 8" if "?ps = 8 \<or> ?ps dvd unat al"
  proof (rule own_size_holds [OF rep pl])
    show "?ps = 8 \<or> ?ps dvd p \<or> ?y = ?x" using that al by (auto split: if_splits intro: dvd_trans)
  qed
  ultimately show ?thesis using b o(1) by (auto simp: granted_def)
qed

lemma Heap_Allocate_granted:
  assumes rep: "heap_rep h m a bs fs"
  shows "\<exists>p st' m' bs' fs'. Heap_Allocate_aligned_with_boundary h asz al bd m = Some (p, h\<lparr>stats := st'\<rparr>, m')
    \<and> heap_rep (h\<lparr>stats := st'\<rparr>) m' a bs' fs'
    \<and> (p = 0 \<longrightarrow> m' = m \<and> bs' = bs \<and> (al = 0 \<longrightarrow> bd = 0 \<longrightarrow> (\<forall>b\<in>set bs. snd b \<or> fst b < unat asz + 8)))
    \<and> (p \<noteq> 0 \<longrightarrow> (\<exists>y s. granted h a bs bs' (unat asz) (unat al) (unat bd) (unat p) y s))"
proof -
  obtain p st' m' bs' fs' where 1: "Heap_Allocate_aligned_with_boundary h asz al bd m = Some (p, h\<lparr>stats := st'\<rparr>, m')"
    "heap_rep (h\<lparr>stats := st'\<rparr>) m' a bs' fs'"
    "p = 0 \<longrightarrow> m' = m \<and> bs' = bs \<and> (al = 0 \<longrightarrow> bd = 0 \<longrightarrow> (\<forall>b\<in>set bs. snd b \<or> fst b < unat asz + 8))"
    and 2: "p \<noteq> 0 \<longrightarrow> (\<exists>xs S ys. bs = xs @ (S, False) # ys
         \<and> suits h (a + szs xs) S (unat asz) (eff_align h al bd) bd (unat p)
         \<and> bs' = xs @ alloc_blocks h (a + szs xs) S (unat asz) (unat p) @ ys)"
    using Heap_Allocate_result [OF rep, of asz al bd] by metis
  have "\<exists>y s. granted h a bs bs' (unat asz) (unat al) (unat bd) (unat p) y s" if "p \<noteq> 0"
    using 2 that granted_placed rep by blast
  then show ?thesis using 1 by blast
qed


section \<open>Initialisation\<close>

lemma Heap_Align_down_W:
  assumes "v < 2 ^ 64"
  shows "Heap_Align_down (W v) pg = W (v - v mod unat pg)"
  using unat_W [OF assms] by (subst of_nat_diff) (simp_all add: Heap_Align_down_def unat_mod_W)

text \<open>The page size in use, and the first block and its size in the area of \<open>n\<close> bytes at \<open>b\<close>.\<close>

definition real_page :: "uintptr \<Rightarrow> uintptr" where
  "real_page pg = (if pg = 0 then CPU_ALIGNMENT else Heap_Align_up pg CPU_ALIGNMENT)"

lemma real_page:
  assumes "unat pg \<le> 2 ^ 62"
  shows "8 dvd unat (real_page pg)" "0 < unat (real_page pg)" "unat (real_page pg) \<le> unat pg + 8"
    "pg \<noteq> 0 \<Longrightarrow> \<not> Heap_Align_up pg CPU_ALIGNMENT < CPU_ALIGNMENT"
proof -
  let ?n = "align_up (unat pg) 8"
  have n: "8 dvd ?n" "unat pg \<le> ?n" "?n < unat pg + 8" using align_up_props [of 8 "unat pg"] by auto
  have "Heap_Align_up pg CPU_ALIGNMENT = W ?n"
    using Heap_Align_up_W [of "unat pg" CPU_ALIGNMENT] assms by (simp add: CPU_ALIGNMENT_def)
  moreover have "unat (W ?n) = ?n" using n(3) assms by (intro unat_W) simp
  ultimately have u: "unat (Heap_Align_up pg CPU_ALIGNMENT) = ?n" by simp
  show "8 dvd unat (real_page pg)" "unat (real_page pg) \<le> unat pg + 8"
    using n u by (auto simp: real_page_def CPU_ALIGNMENT_def)
  have "pg \<noteq> 0 \<Longrightarrow> 8 \<le> ?n" using n(1,2) unat_gt_0 [of pg] by (intro dvd_imp_le) auto
  then show "0 < unat (real_page pg)" "pg \<noteq> 0 \<Longrightarrow> \<not> Heap_Align_up pg CPU_ALIGNMENT < CPU_ALIGNMENT"
    using u by (auto simp: real_page_def CPU_ALIGNMENT_def word_less_nat_alt)
qed

lemma first_and_last_block:
  assumes pg: "0 < unat pg" "unat b + 16 + unat pg \<le> 2 ^ 64"
  shows "Heap_Get_first_and_last_block b n pg ms = None \<or>
    (\<exists>a S. Heap_Get_first_and_last_block b n pg ms = Some (W a, W (a + S)) \<and> unat pg dvd a + 16 \<and> unat pg dvd S
       \<and> unat ms \<le> S \<and> unat b \<le> a \<and> a + S + 16 \<le> unat b + unat n \<and> unat b + unat n < 2 ^ 64)"
proof (cases "b + n < b")
  case True
  then show ?thesis by (simp add: Heap_Get_first_and_last_block_def Let_def)
next
  case False
  have e: "unat b + unat n < 2 ^ 64" using False no_olen_add_nat [of b n] by (simp add: not_less)
  define c where "c = align_up (unat b + 16) (unat pg)"
  have c: "unat pg dvd c" "unat b + 16 \<le> c" "c < unat b + 16 + unat pg"
    using align_up_props [OF pg(1), of "unat b + 16"] by (auto simp: c_def)
  have b16: "unat b + 16 < 2 ^ 64" using pg by linarith
  have "Heap_Align_up (b + HEAP_BLOCK_HEADER_SIZE) pg = W c"
    using Heap_Align_up_W [OF b16, of pg] by (simp add: c_def HEAP_BLOCK_HEADER_SIZE_def of_nat_add)
  define a where "a = c - 16"
  have a: "c = a + 16" "unat b \<le> a" "a + 16 < 2 ^ 64" using c pg by (auto simp: a_def)
  have f: "Heap_Align_up (b + HEAP_BLOCK_HEADER_SIZE) pg - HEAP_BLOCK_HEADER_SIZE = W a"
    using \<open>_ = W c\<close> a(1) by (simp add: HEAP_BLOCK_HEADER_SIZE_def of_nat_add)
  have "W (a - unat b) = W a - W (unat b)" using a(2) by (rule of_nat_diff)
  then have o: "HEAP_BLOCK_HEADER_SIZE + (W a - b) = W (16 + (a - unat b))"
    by (simp add: HEAP_BLOCK_HEADER_SIZE_def of_nat_add)
  have uo: "unat (W (16 + (a - unat b))) = 16 + (a - unat b)" using a by (intro unat_W) simp
  define r where "r = unat n - (16 + (a - unat b))"
  define S where "S = r - r mod unat pg"
  have r64: "r < 2 ^ 64" using unat_lt2p [of n] by (simp add: r_def)
  have S: "unat pg dvd S" "S \<le> r" by (simp_all add: S_def dvd_minus_mod)
  have s: "Heap_Align_down (n - W (16 + (a - unat b))) pg = W S" if "\<not> n \<le> W (16 + (a - unat b))"
  proof -
    have "W r = W (unat n) - W (16 + (a - unat b))" unfolding r_def using that uo
      by (intro of_nat_diff) (simp add: word_le_nat_alt)
    then show ?thesis using Heap_Align_down_W [OF r64, of pg] by (simp add: S_def)
  qed
  have eq: "Heap_Get_first_and_last_block b n pg ms =
    (if n \<le> W (16 + (a - unat b)) \<or> Heap_Align_down (n - W (16 + (a - unat b))) pg < ms then None
     else Some (W a, W (a + S)))"
    unfolding Heap_Get_first_and_last_block_def Let_def f o
    using False s by (cases "n \<le> W (16 + (a - unat b))") auto
  show ?thesis
  proof (cases "n \<le> W (16 + (a - unat b)) \<or> Heap_Align_down (n - W (16 + (a - unat b))) pg < ms")
    case False
    have "unat (W S) = S" using S(2) r64 by (intro unat_W) simp
    then have "unat ms \<le> S" using False s by (auto simp: word_less_nat_alt not_less)
    moreover have "a + S + 16 \<le> unat b + unat n" using False S(2) a uo by (auto simp: r_def word_le_nat_alt)
    moreover have "unat pg dvd a + 16" using c(1) a(1) by simp
    ultimately show ?thesis using eq False S(1) a e by auto
  qed (simp add: eq)
qed

lemma Heap_Initialize_rep:
  assumes fl: "unat (free_list h) + 32 \<le> unat b \<or> unat b + unat n \<le> unat (free_list h)"
    and pg: "unat pg \<le> 2 ^ 62" "unat b + unat pg + 24 \<le> 2 ^ 64"
  shows "Heap_Initialize h b n pg m = (0, h, m) \<or>
    (\<exists>a S h' m'. Heap_Initialize h b n pg m = (W S, h', m') \<and> unat b \<le> a \<and> a + S + 16 \<le> unat b + unat n
       \<and> free_list h' = free_list h \<and> page_size h' = real_page pg \<and> heap_rep h' m' a [(S, False)] [W a])"
proof -
  let ?pg = "real_page pg" and ?ms = "Heap_Min_block_size (real_page pg)"
  note rp = real_page [OF pg(1)]
  have ms: "?ms = W (align_up 32 (unat ?pg))"
    using Heap_Align_up_W [of 32 ?pg] by (simp add: Heap_Min_block_size_def sizeof_Heap_Block_def)
  note au = align_up_props [OF rp(2), of 32]
  have ums: "unat ?ms = align_up 32 (unat ?pg)" unfolding ms using au(3) rp(3) pg(1) by (intro unat_W) simp
  have unfold: "Heap_Initialize h b n pg m =
    (case Heap_Get_first_and_last_block b n ?pg ?ms of None \<Rightarrow> (0, h, m)
     | Some (f, l) \<Rightarrow> (let fl = free_list h; s = l - f;
         m1 = m(fl := \<lparr>prev_size = 0, size_and_flag = 0, nextb = 0, prevb = 0\<rparr>);
         m2 = set_prevb f fl (set_nextb f fl (set_size_and_flag f (s OR 1) (set_prev_size f (b + n) m1)));
         m3 = set_size_and_flag l 0 (set_prev_size l s (set_prevb fl f (set_nextb fl f m2)));
         h' = \<lparr>free_list = fl, page_size = ?pg, min_block_size = ?ms, area_begin = b, area_end = b + n,
            first_block = f, last_block = l, stats = zero_stats\<lparr>stats_size := s, free_size := s, min_free_size := s,
            free_blocks := 1, max_free_blocks := 1\<rparr>\<rparr>
       in (s, h', Heap_Block_set_size l (f - l) m3)))"
    using rp(4) by (auto simp: Heap_Initialize_def real_page_def Let_def Heap_Free_list_head_def Heap_Free_list_tail_def
        Heap_Set_last_block_size_def HEAP_PREV_BLOCK_USED_def split: option.split)
  have b: "unat b + 16 + unat ?pg \<le> 2 ^ 64" using rp(3) pg(2) by linarith
  from first_and_last_block [OF rp(2) b, of n ?ms] show ?thesis
  proof (elim disjE exE conjE)
    fix a S assume e: "Heap_Get_first_and_last_block b n ?pg ?ms = Some (W a, W (a + S))"
      and g: "unat ?pg dvd a + 16" "unat ?pg dvd S" "unat ?ms \<le> S" "unat b \<le> a" "a + S + 16 \<le> unat b + unat n"
        "unat b + unat n < 2 ^ 64"
    have s: "W (a + S) - W a = W S" by (simp add: of_nat_add)
    have S: "0 < S" "even S" using g(2,3) ums au(2) rp(1) by (auto intro: dvd_trans [of 2 8] dvd_trans [of 8 "unat ?pg"])
    have bnd: "a + S + 16 < 2 ^ 64" using g(5,6) by linarith
    have ne: "W a \<noteq> free_list h" "W (a + S) \<noteq> free_list h" "W a \<noteq> W (a + S)"
    proof -
      have u: "unat (W a) = a" "unat (W (a + S)) = a + S" using bnd by (auto intro: unat_W)
      moreover have "a \<noteq> unat (free_list h)" "a + S \<noteq> unat (free_list h)" using fl g(4,5) by linarith+
      ultimately show "W a \<noteq> free_list h" "W (a + S) \<noteq> free_list h" by auto
      show "W a \<noteq> W (a + S)" using S bnd by (simp add: W_eq)
    qed
    define st where "st = zero_stats\<lparr>stats_size := W S, free_size := W S, min_free_size := W S, free_blocks := 1, max_free_blocks := 1\<rparr>"
    define h' where "h' = \<lparr>free_list = free_list h, page_size = ?pg, min_block_size = ?ms, area_begin = b,
        area_end = b + n, first_block = W a, last_block = W (a + S), stats = st\<rparr>"
    define m2 where "m2 = set_prevb (W a) (free_list h) (set_nextb (W a) (free_list h) (set_size_and_flag (W a) (W S OR 1)
        (set_prev_size (W a) (b + n) (m(free_list h := \<lparr>prev_size = 0, size_and_flag = 0, nextb = 0, prevb = 0\<rparr>)))))"
    define m' where "m' = Heap_Block_set_size (W (a + S)) (W a - W (a + S)) (set_size_and_flag (W (a + S)) 0
        (set_prev_size (W (a + S)) (W S) (set_prevb (free_list h) (W a) (set_nextb (free_list h) (W a) m2))))"
    have hm: "Heap_Initialize h b n pg m = (W S, h', m')"
      by (simp add: unfold e s Let_def h'_def m'_def m2_def st_def)
    have F: "SF m' (W a) = W S OR 1" "SF m' (W (a + S)) = W a - W (a + S)" "PS m' (W (a + S)) = W S"
        "NX m' (free_list h) = W a" "PV m' (free_list h) = W a" "NX m' (W a) = free_list h" "PV m' (W a) = free_list h"
      using ne by (simp_all add: m'_def m2_def Heap_Block_set_size_def hfields)
    have "W a - W (a + S) = W (2 ^ 64 - S)" using bnd by (subst of_nat_diff) (auto simp: of_nat_add)
    then have seg: "seg (SF m') (PS m') a True (closed [(S, False)])" using F S bnd by (simp add: closed_def flg_def)
    have "geom (unat ?pg) (unat ?ms) (unat (free_list h)) a [(S, False)]"
      unfolding geom_def using g fl rp au ums pg(1) bnd unat_lt2p [of "free_list h"] by auto
    then have "heap_rep h' m' a [(S, False)] [W a]"
      using F(4-) seg ne(1) by (simp add: heap_rep_def h'_def flist_def stats_ok_def st_def zero_stats_def)
    then show ?thesis using hm g(4,5) by (auto simp: h'_def)
  qed (simp add: unfold)
qed


section \<open>Writing to an area\<close>

text \<open>
  Two memories that differ at most in the bytes from \<open>lo\<close> to \<open>hi\<close>: the fields of a header at \<open>z\<close>
  are at the offsets 0, 8, 16 and 24.
\<close>

definition same_outside :: "nat \<Rightarrow> nat \<Rightarrow> hmem \<Rightarrow> hmem \<Rightarrow> bool" where
  "same_outside lo hi m m' \<longleftrightarrow> (\<forall>z<2 ^ 64.
     (z + 8 \<le> lo \<or> hi \<le> z \<longrightarrow> PS m' (W z) = PS m (W z))
     \<and> (z + 16 \<le> lo \<or> hi \<le> z + 8 \<longrightarrow> SF m' (W z) = SF m (W z))
     \<and> (z + 24 \<le> lo \<or> hi \<le> z + 16 \<longrightarrow> NX m' (W z) = NX m (W z))
     \<and> (z + 32 \<le> lo \<or> hi \<le> z + 24 \<longrightarrow> PV m' (W z) = PV m (W z)))"

lemma same_outsideD:
  assumes "same_outside lo hi m m'" and "z < 2 ^ 64"
  shows "z + 8 \<le> lo \<or> hi \<le> z \<Longrightarrow> PS m' (W z) = PS m (W z)"
    and "z + 16 \<le> lo \<or> hi \<le> z + 8 \<Longrightarrow> SF m' (W z) = SF m (W z)"
    and "z + 24 \<le> lo \<or> hi \<le> z + 16 \<Longrightarrow> NX m' (W z) = NX m (W z)"
    and "z + 32 \<le> lo \<or> hi \<le> z + 24 \<Longrightarrow> PV m' (W z) = PV m (W z)"
  using assms unfolding same_outside_def by blast+

lemma faddrs_fends: "z \<in> set (faddrs a bs) \<Longrightarrow> (\<And>b. b \<in> set bs \<Longrightarrow> k \<le> fst b) \<Longrightarrow> z + k \<le> a + szs bs"
proof (induction a bs rule: faddrs.induct)
  case (2 a s u bs)
  then show ?case by (cases "z = a \<and> \<not> u") (fastforce split: if_splits)+
qed simp

lemma heap_rep_user_writes:
  assumes rep: "heap_rep h m a bs fs" and used: "(y, s) \<in> used_at a bs"
    and same: "same_outside (y + 16) (y + s + 8) m m'"
  shows "heap_rep h m' a bs fs"
proof -
  obtain xs ys where bs: "bs = xs @ (s, True) # ys" and y: "y = a + szs xs" using used used_at_split by blast
  note g = heap_repD(1) [OF rep] and so = same_outsideD [OF same]
  have pos: "pos xs" "pos ys" "0 < s" using geom_pos [OF g] bs by auto
  have bnd: "y + s + szs ys + 16 < 2 ^ 64" using geomD(7) [OF g] bs y by (simp add: add.assoc)
  have ms: "32 \<le> fst b" if "b \<in> set bs" for b using geomD(4,10) [OF g] that by (meson le_trans)
  have S: "SF m' (W z) = SF m (W z)" if z: "z \<in> set (addrs a (closed bs))" for z
  proof -
    have "z \<le> y \<and> z < 2 ^ 64 \<or> y + s \<le> z \<and> z < 2 ^ 64"
      using z addrs_range [of xs z a] addrs_range [of ys z "y + s"] pos bnd y
      by (auto simp: closed_def bs addrs_append add.assoc)
    then show ?thesis using so(2) [of z] by auto
  qed
  have P: "PS m' (W z) = PS m (W z)" if z: "z \<in> set (fends a (closed bs))" for z
  proof -
    have "z + 8 \<le> y + 16 \<and> z < 2 ^ 64 \<or> y + s + 8 \<le> z \<and> z < 2 ^ 64"
    proof (cases "z \<in> set (fends a xs)")
      case True
      then show ?thesis using fends_range [OF pos(1)] bnd y by fastforce
    next
      case False
      then have z': "z \<in> set (fends (y + s) ys)" using z y by (simp add: closed_def bs fends_append add.assoc)
      then obtain t u zs where ys: "ys = (t, u) # zs" by (cases ys) auto
      have "y + s + t \<le> z" using z' ys fends_range [of zs z "y + s + t"] pos by (auto split: if_splits)
      moreover have "32 \<le> t" using ms [of "(t, u)"] bs ys by simp
      moreover have "z \<le> y + s + szs ys" using fends_range [OF pos(2) z'] by simp
      ultimately show ?thesis using bnd by simp
    qed
    then show ?thesis using so(1) [of z] by auto
  qed
  have F: "NX m' f = NX m f \<and> PV m' f = PV m f" if f: "f \<in> insert (free_list h) (set fs)" for f
  proof -
    have "\<exists>z<2 ^ 64. f = W z \<and> (z + 32 \<le> y + 16 \<or> y + s + 8 \<le> z + 16)"
    proof (cases "f = free_list h")
      case True
      have "unat (free_list h) + 32 \<le> a \<or> a + szs bs + 16 \<le> unat (free_list h)" "unat (free_list h) < 2 ^ 64"
        using geomD(8,9) [OF g] by auto
      then show ?thesis using True bs y by (intro exI [of _ "unat (free_list h)"]) auto
    next
      case False
      then obtain z where z: "z \<in> set (faddrs a bs)" "f = W z" using f heap_repD(6) [OF rep] by auto
      then have "z + 32 \<le> y \<or> y + s \<le> z" using faddrs_fends [of z a xs 32] ms faddrs_range [OF pos(2), of z "y + s"] bs y
        by (auto simp: faddrs_append add.assoc)
      moreover have "z < 2 ^ 64" using faddrs_range [OF geom_pos [OF g] z(1)] geomD(7) [OF g] by simp
      ultimately show ?thesis using z(2) by auto
    qed
    then obtain z where "z < 2 ^ 64" "f = W z" "z + 32 \<le> y + 16 \<or> y + s + 8 \<le> z + 16" by blast
    then show ?thesis using so(3,4) [of z] by auto
  qed
  have "seg (SF m') (PS m') a True (closed bs)"
    using heap_repD(4) [OF rep] S P by (subst seg_cong [of a "closed bs" "SF m'" "SF m" "PS m'" "PS m"]) auto
  moreover have "flist (NX m') (PV m') (free_list h) fs"
  proof -
    have "dlinks (NX m') (PV m') (free_list h # fs @ [free_list h]) = dlinks (NX m) (PV m) (free_list h # fs @ [free_list h])"
      using F by (intro dlinks_cong) (auto dest!: in_set_butlastD)
    then show ?thesis using heap_repD(5) [OF rep] by (simp add: flist_def)
  qed
  ultimately show ?thesis using rep by (simp add: heap_rep_def)
qed

section \<open>Visiting all blocks\<close>

fun visit :: "(uintptr \<Rightarrow> uintptr \<Rightarrow> bool \<Rightarrow> 'a \<Rightarrow> bool \<times> 'a) \<Rightarrow> nat \<Rightarrow> layout \<Rightarrow> 'a \<Rightarrow> 'a" where
  "visit v a [] x = x"
| "visit v a ((s, u) # bs) x = (let (stop, x) = v (W a) (W s) u x in if stop then x else visit v (a + s) bs x)"

lemma Heap_Iterate_loop_visit:
  assumes "heap_rep h m a (xs @ bs) fs"
  shows "Heap_Iterate_loop v m (last_block h) (W (a + szs xs)) False x = Some (visit v (a + szs xs) bs x)"
  using assms
proof (induction bs arbitrary: xs x)
  case Nil
  then show ?case using heap_repD(3) [OF Nil] by (subst Heap_Iterate_loop.simps) simp
next
  case (Cons b bs)
  obtain s u where b: "b = (s, u)" by (cases b)
  have rep: "heap_rep h m a (xs @ (s, u) # bs) fs" using Cons.prems b by simp
  note rd = block_reads [OF rep]
  have ne: "W (a + szs xs) \<noteq> last_block h" using rd(5,6,7) heap_repD(3) [OF rep] by (simp add: W_eq)
  have IH: "Heap_Iterate_loop v m (last_block h) (W (a + szs xs + s)) False y = Some (visit v (a + szs xs + s) bs y)" for y
    using Cons.IH [of "xs @ [(s, u)]" y] rep by (simp add: add.assoc)
  have stop: "Heap_Iterate_loop v m (last_block h) c True y = Some y" for c y
    by (subst Heap_Iterate_loop.simps) simp
  show ?case
    using ne rd(2,4) IH stop b by (subst Heap_Iterate_loop.simps) (auto simp: Let_def split: prod.split)
qed

lemma Heap_Iterate_visit:
  assumes "heap_rep h m a bs fs"
  shows "Heap_Iterate h v m x = Some (visit v a bs x)"
  using Heap_Iterate_loop_visit [of h m a "[]" bs fs v x] assms heap_repD(2) [OF assms] by (simp add: Heap_Iterate_def)

end
