(* ===== verification/Heap_Info.thy ===== *)
theory Heap_Info
  imports Heap_Correct "HOL-Library.Multiset"
begin

text \<open>
  The routines of the Heap Handler that only look: the information services count exactly the
  blocks of the layout, and the consistency check \<^verbatim>\<open>_Heap_Walk\<close> accepts every heap that satisfies
  the invariant.
\<close>

declare of_nat_add [simp del]

section \<open>Information\<close>

definition summary :: "nat list \<Rightarrow> Heap_Information" where
  "summary ns = \<lparr>number = W (length ns), largest = W (fold max ns 0), total = W (sum_list ns)\<rparr>"

definition add_summary :: "nat list \<Rightarrow> Heap_Information \<Rightarrow> Heap_Information" where
  "add_summary ns i = fold (\<lambda>n. count_block (W n)) ns i"

lemma fold_max: "fold max ns (n :: nat) = max n (fold max ns 0)"
proof (induction ns arbitrary: n)
  case (Cons k ns)
  then show ?case by (metis fold_simps(2) max.assoc max.commute max_0L)
qed simp

lemma count_block_W:
  assumes "n < 2 ^ 64" and "l < 2 ^ 64"
  shows "count_block (W n) \<lparr>number = W k, largest = W l, total = W t\<rparr>
    = \<lparr>number = W (k + 1), largest = W (max n l), total = W (t + n)\<rparr>"
  using assms by (auto simp: count_block_def W_less of_nat_add max_def)

lemma add_summary:
  assumes "\<And>n. n \<in> set ns \<Longrightarrow> n < 2 ^ 64" and "l < 2 ^ 64"
  shows "add_summary ns \<lparr>number = W k, largest = W l, total = W t\<rparr>
    = \<lparr>number = W (k + length ns), largest = W (fold max ns l), total = W (t + sum_list ns)\<rparr>"
  using assms
proof (induction ns arbitrary: k l t)
  case (Cons n ns)
  have "add_summary ns \<lparr>number = W (k + 1), largest = W (max n l), total = W (t + n)\<rparr>
    = \<lparr>number = W (k + 1 + length ns), largest = W (fold max ns (max n l)), total = W (t + n + sum_list ns)\<rparr>"
    using Cons.prems by (intro Cons.IH) auto
  then show ?case using count_block_W [of n l k t] Cons.prems by (simp add: add_summary_def ac_simps)
qed (simp add: add_summary_def)

lemma add_summary_zero:
  assumes "\<And>n. n \<in> set ns \<Longrightarrow> n < 2 ^ 64"
  shows "add_summary ns zero_info = summary ns"
  using add_summary [of ns 0 0 0] assms by (simp add: zero_info_def summary_def)

definition free_sizes :: "layout \<Rightarrow> nat list" where
  "free_sizes bs = map fst (filter (\<lambda>b. \<not> snd b) bs)"

definition used_sizes :: "layout \<Rightarrow> nat list" where
  "used_sizes bs = map fst (filter snd bs)"

lemma visit_information:
  "visit Heap_Get_information_visitor a bs i =
     i\<lparr>Free_info := add_summary (free_sizes bs) (Free_info i), Used_info := add_summary (used_sizes bs) (Used_info i)\<rparr>"
proof (induction bs arbitrary: a i)
  case (Cons b bs)
  obtain s u where "b = (s, u)" by (cases b)
  then show ?case using Cons by (cases u)
      (simp_all add: Heap_Get_information_visitor_def free_sizes_def used_sizes_def add_summary_def)
qed (simp add: free_sizes_def used_sizes_def add_summary_def)

lemma block_size_bound:
  assumes "heap_rep h m a bs fs" and "b \<in> set bs"
  shows "fst b < 2 ^ 64"
  using no_block_that_large [OF assms(1) order_refl assms(2)] .

lemma Heap_Get_information_summary:
  assumes "heap_rep h m a bs fs"
  shows "Heap_Get_information h m =
    Some \<lparr>Free_info = summary (free_sizes bs), Used_info = summary (used_sizes bs), Stats_info = stats h\<rparr>"
proof -
  have "n < 2 ^ 64" if "n \<in> set (free_sizes bs) \<union> set (used_sizes bs)" for n
    using that block_size_bound [OF assms] by (auto simp: free_sizes_def used_sizes_def)
  then show ?thesis
    by (simp add: Heap_Get_information_def Heap_Iterate_visit [OF assms] visit_information add_summary_zero)
qed

text \<open>The sum over the free list in any order.\<close>

lemma summary_mset: "mset ns = mset ns' \<Longrightarrow> summary ns = summary ns'"
proof -
  assume eq: "mset ns = mset ns'"
  have "fold max ns 0 = Max (insert 0 (set ns))" for ns :: "nat list"
    by (simp add: Max.set_eq_fold flip: list.set(2))
  then have "fold max ns 0 = fold max ns' 0" using mset_eq_setD [OF eq] by simp
  then show ?thesis using mset_eq_length [OF eq] arg_cong [OF eq, of sum_mset] by (simp add: summary_def sum_mset_sum_list)
qed

fun size_at :: "nat \<Rightarrow> layout \<Rightarrow> nat \<Rightarrow> nat" where
  "size_at a [] z = 0"
| "size_at a ((s, u) # bs) z = (if z = a then s else size_at (a + s) bs z)"

lemma size_at_split: "pos xs \<Longrightarrow> size_at a (xs @ (s, u) # ys) (a + szs xs) = s"
  by (induction xs arbitrary: a) (auto simp: add.assoc [symmetric])

lemma free_sizes_at: "pos bs \<Longrightarrow> free_sizes bs = map (size_at a bs) (faddrs a bs)"
proof (induction bs arbitrary: a)
  case (Cons b bs)
  obtain s u where b: "b = (s, u)" by (cases b)
  have "map (size_at a (b # bs)) (faddrs (a + s) bs) = map (size_at (a + s) bs) (faddrs (a + s) bs)"
    using Cons.prems faddrs_range [of bs _ "a + s"] b by (intro map_cong) fastforce+
  moreover have "free_sizes bs = map (size_at (a + s) bs) (faddrs (a + s) bs)" using Cons b by simp
  moreover have "free_sizes (b # bs) = (if u then free_sizes bs else s # free_sizes bs)" by (simp add: free_sizes_def b)
  ultimately show ?case by (simp add: b)
qed (simp add: free_sizes_def)

lemma ucast_small: "n < 2 ^ 32 \<Longrightarrow> (ucast (ucast (W n) :: uint32) :: uintptr) = W n"
  by (rule word_unat_eq_iff [THEN iffD2]) (simp add: unsigned_ucast_eq unsigned_take_bit_eq take_bit_nat_eq_self unat_W)

lemma Heap_Get_free_information_loop:
  assumes rep: "heap_rep h m a bs fs" and small: "szs bs < 2 ^ 32"
  shows "set zs \<subseteq> set (faddrs a bs) \<Longrightarrow> dlinks (NX m) (PV m) (map W zs @ [free_list h]) \<Longrightarrow>
    Heap_Get_free_information_loop m (free_list h) (hd (map W zs @ [free_list h])) i = Some (add_summary (map (size_at a bs) zs) i)"
proof (induction zs arbitrary: i)
  case Nil
  then show ?case by (subst Heap_Get_free_information_loop.simps) (simp add: add_summary_def)
next
  case (Cons z zs)
  obtain xs S ys where bs: "bs = xs @ (S, False) # ys" and z: "z = a + szs xs" using Cons.prems(1) faddrs_split [of z a bs] by auto
  have rep': "heap_rep h m a (xs @ (S, False) # ys) fs" using rep bs by simp
  have S: "size_at a bs z = S" "S < 2 ^ 32" using geom_pos [OF heap_repD(1) [OF rep]] small by (auto simp: bs z size_at_split)
  have "W z \<noteq> free_list h" using fl_apart [OF rep'] block_reads(6) [OF rep'] z by simp
  moreover have "NX m (W z) = hd (map W zs @ [free_list h])" using Cons.prems(2) by (cases zs) auto
  moreover have "dlinks (NX m) (PV m) (map W zs @ [free_list h])" using Cons.prems(2) by (cases zs) auto
  ultimately show ?case using Cons block_reads(2) [OF rep'] S z ucast_small [OF S(2)]
    by (subst Heap_Get_free_information_loop.simps) (simp add: Let_def field_reads add_summary_def)
qed

lemma Heap_Get_free_information_summary:
  assumes rep: "heap_rep h m a bs fs" and small: "szs bs < 2 ^ 32"
  shows "Heap_Get_free_information h m = Some (summary (free_sizes bs))"
proof -
  note g = heap_repD(1) [OF rep] and fl = heap_repD(5) [OF rep]
  have b64: "z < 2 ^ 64" if "z \<in> set (faddrs a bs)" for z
    using faddrs_range [OF geom_pos [OF g] that] geomD(7) [OF g] by simp
  define zs where "zs = map unat fs"
  have un: "unat ` set fs = set (faddrs a bs)" using heap_repD(6) [OF rep] b64 by (force simp: unat_W image_image)
  have fs: "fs = map W zs" by (simp add: zs_def comp_def)
  have "distinct zs" using fl by (auto simp: zs_def flist_def distinct_map intro!: inj_onI unsigned_word_eqI)
  moreover have zs: "set zs = set (faddrs a bs)" using un by (simp add: zs_def)
  ultimately have "mset zs = mset (faddrs a bs)"
    using faddrs_distinct [OF geom_pos [OF g]] by (metis set_eq_iff_mset_eq_distinct)
  then have "mset (map (size_at a bs) zs) = mset (free_sizes bs)"
    by (metis free_sizes_at [OF geom_pos [OF g]] mset_map)
  then have s: "summary (map (size_at a bs) zs) = summary (free_sizes bs)" by (rule summary_mset)
  have "dlinks (NX m) (PV m) (fs @ [free_list h])" "Heap_Free_list_first h m = hd (fs @ [free_list h])"
    using fl by (cases fs; simp add: flist_def Heap_Free_list_first_def Heap_Free_list_head_def field_reads)+
  then have "Heap_Get_free_information h m = Some (add_summary (map (size_at a bs) zs) zero_info)"
    using Heap_Get_free_information_loop [OF rep small, of zs zero_info] zs
    by (simp add: Heap_Get_free_information_def Heap_Free_list_tail_def flip: fs)
  moreover have "n < 2 ^ 64" if "n \<in> set (map (size_at a bs) zs)" for n
    using that mset_eq_setD [OF \<open>mset (map (size_at a bs) zs) = _\<close>] block_size_bound [OF rep]
    by (auto simp: free_sizes_def)
  ultimately show ?thesis using s add_summary_zero [of "map (size_at a bs) zs"] by simp
qed

section \<open>The consistency check\<close>

lemma free_block_facts:
  assumes "heap_rep h m a bs fs" and "f \<in> set fs"
  shows "Heap_Is_block_in_heap h f" "Heap_Is_aligned (Heap_Alloc_area_of_block f) (page_size h)" "\<not> Heap_Is_used m f"
proof -
  obtain xs S ys where bs: "bs = xs @ (S, False) # ys" and f: "f = W (a + szs xs)" using fs_block [OF assms] by metis
  have rep: "heap_rep h m a (xs @ (S, False) # ys) fs" using assms(1) bs by simp
  note rd = block_reads [OF rep]
  show "Heap_Is_block_in_heap h f" unfolding f using rd(6) by (intro heap_rep_in_heap [OF rep]) auto
  show "\<not> Heap_Is_used m f" using rd(2,4) f by (simp add: Heap_Is_used_def)
  have "unat (W (a + szs xs + 16)) = a + szs xs + 16" using rd(6,7) by (intro unat_W) simp
  moreover have "unat (page_size h) dvd a + szs xs + 16" by (rule dvd_block_address [OF rep])
  ultimately show "Heap_Is_aligned (Heap_Alloc_area_of_block f) (page_size h)"
    by (simp add: f Heap_Is_aligned_def Heap_Alloc_area_of_block_def HEAP_BLOCK_HEADER_SIZE_def unat_mod_W of_nat_add dvd_imp_mod_0)
qed

lemma Heap_Walk_check_free_list_loop_ok:
  assumes rep: "heap_rep h m a bs fs"
  shows "set F \<subseteq> set fs \<Longrightarrow> dlinks (NX m) (PV m) (p # F @ [free_list h]) \<Longrightarrow> free_list h \<notin> set F \<Longrightarrow>
    Heap_Walk_check_free_list_loop h m p (hd (F @ [free_list h])) = Some True"
proof (induction F arbitrary: p)
  case Nil
  then show ?case by (subst Heap_Walk_check_free_list_loop.simps) (simp add: Heap_Free_list_tail_def)
next
  case (Cons f F)
  have "NX m f = hd (F @ [free_list h])" "PV m f = p" "dlinks (NX m) (PV m) (f # F @ [free_list h])"
    using Cons.prems(2) by (cases F; simp)+
  then show ?case using Cons.IH [of f] Cons.prems free_block_facts [OF rep, of f]
    by (subst Heap_Walk_check_free_list_loop.simps) (auto simp: Heap_Free_list_tail_def field_reads)
qed

lemma Heap_Walk_is_in_free_list_loop_ok:
  assumes "dlinks (NX m) (PV m) (F @ [tail])" and "tail \<notin> set F" and "block \<in> set F"
  shows "Heap_Walk_is_in_free_list_loop m tail block (hd (F @ [tail])) = Some True"
  using assms
proof (induction F)
  case (Cons f F)
  have "NX m f = hd (F @ [tail])" "dlinks (NX m) (PV m) (F @ [tail])" using Cons.prems(1) by (cases F; simp)+
  then show ?case using Cons by (subst Heap_Walk_is_in_free_list_loop.simps) (auto simp: field_reads)
qed simp

lemma free_list_links:
  assumes "heap_rep h m a bs fs"
  shows "dlinks (NX m) (PV m) (free_list h # fs @ [free_list h])" "free_list h \<notin> set fs"
    "Heap_Free_list_first h m = hd (fs @ [free_list h])" "dlinks (NX m) (PV m) (fs @ [free_list h])"
  using heap_repD(5) [OF assms]
  by (cases fs; simp add: flist_def Heap_Free_list_first_def Heap_Free_list_head_def field_reads)+

lemma Heap_Walk_check_control_ok:
  assumes rep: "heap_rep h m a bs fs"
  shows "Heap_Walk_check_control h m = Some True"
proof -
  note g = heap_repD(1) [OF rep] and fl = free_list_links [OF rep]
  have "page_size h \<noteq> 0" using geomD(1) [OF g] by auto
  moreover have "Heap_Is_aligned (page_size h) CPU_ALIGNMENT" "Heap_Is_aligned (min_block_size h) (page_size h)"
    using geomD(2,3) [OF g] by (simp_all add: Heap_Is_aligned_def CPU_ALIGNMENT_def unat_mod_W dvd_imp_mod_0)
  moreover have "Heap_Is_aligned (Heap_Alloc_area_of_block (first_block h)) (page_size h)"
  proof -
    have "unat (W (a + 16)) = a + 16" using geomD(7) [OF g] by (intro unat_W) simp
    then show ?thesis using geomD(6) [OF g] heap_repD(2) [OF rep] by (simp add: Heap_Is_aligned_def
          Heap_Alloc_area_of_block_def HEAP_BLOCK_HEADER_SIZE_def unat_mod_W of_nat_add dvd_imp_mod_0)
  qed
  moreover have "Heap_Is_prev_used m (first_block h)" using first_prev_used [OF rep] heap_repD(2) [OF rep] by simp
  moreover have "Heap_Block_at (last_block h) (Heap_Block_size m (last_block h)) = first_block h"
    using last_reads(2,4) [OF rep] heap_repD(2,3) [OF rep] by simp
  moreover from this have "\<not> Heap_Is_free m (last_block h)"
    using first_prev_used [OF rep] heap_repD(2) [OF rep] by (simp add: Heap_Is_free_def Heap_Is_used_def Let_def)
  moreover have "Heap_Walk_check_free_list h m = Some True"
    using Heap_Walk_check_free_list_loop_ok [OF rep order_refl fl(1,2)] fl(3)
    by (simp add: Heap_Walk_check_free_list_def Heap_Free_list_tail_def)
  ultimately show ?thesis by (simp add: Heap_Walk_check_control_def)
qed

lemma Heap_Walk_loop_ok:
  assumes "heap_rep h m a (xs @ bs) fs"
  shows "Heap_Walk_loop h m (W (a + szs xs)) = Some True"
  using assms
proof (induction bs arbitrary: xs)
  case Nil
  then have rep: "heap_rep h m a xs fs" by simp
  note r = last_reads [OF rep] and D = heap_repD(2,3) [OF rep]
  have "Heap_Is_block_in_heap h (W a)" using heap_rep_in_heap [OF rep, of a] by simp
  then show ?case using r(2,4) D first_prev_used [OF rep] by (subst Heap_Walk_loop.simps) (simp add: Let_def)
next
  case (Cons b bs)
  obtain s u where b: "b = (s, u)" by (cases b)
  have rep: "heap_rep h m a (xs @ (s, u) # bs) fs" using Cons.prems b by simp
  note rd = block_reads [OF rep] and g = heap_repD(1) [OF rep] and fl = free_list_links [OF rep]
  have IH: "Heap_Walk_loop h m (W (a + szs xs + s)) = Some True"
    using Cons.IH [of "xs @ [(s, u)]"] rep by (simp add: add.assoc)
  have sz: "unat (page_size h) dvd s" "unat (min_block_size h) \<le> s" using geomD(10) [OF g, of "(s, u)"] by auto
  have us: "unat (W s) = s" using rd(6,7) by (intro unat_W) simp
  have "Heap_Is_block_in_heap h (W (a + szs xs + s))" using rd(6) by (intro heap_rep_in_heap [OF rep]) auto
  moreover have "Heap_Is_aligned (W s) (page_size h)" using sz us by (simp add: Heap_Is_aligned_def unat_mod_W dvd_imp_mod_0)
  moreover have "\<not> W s < min_block_size h" using sz us by (simp add: word_less_nat_alt)
  moreover have "\<not> W (a + szs xs + s) \<le> W (a + szs xs)" using rd(5,6,7) by (simp add: W_le)
  moreover have "W (a + szs xs + s) \<noteq> first_block h" using rd(5,6,7) heap_repD(2) [OF rep] by (simp add: W_eq)
  moreover have "Heap_Walk_check_free_block h (W (a + szs xs)) m = Some True" if "\<not> u"
  proof -
    have "W (a + szs xs) \<in> set fs" using heap_repD(6) [OF rep] that by (simp add: faddrs_append)
    then have "Heap_Walk_is_in_free_list h (W (a + szs xs)) m = Some True"
      using Heap_Walk_is_in_free_list_loop_ok [OF fl(4,2)] fl(3)
      by (simp add: Heap_Walk_is_in_free_list_def Heap_Free_list_tail_def)
    then show ?thesis using rd(2,3,8,9) that by (simp add: Heap_Walk_check_free_block_def Let_def field_reads)
  qed
  ultimately show ?case using rd(2,4) IH by (subst Heap_Walk_loop.simps) (simp add: Let_def)
qed

lemma Heap_Walk_accepts:
  assumes "heap_rep h m a bs fs"
  shows "Heap_Walk up h m = Some True"
  using Heap_Walk_check_control_ok [OF assms] Heap_Walk_loop_ok [of h m a "[]" bs fs] assms heap_repD(2) [OF assms]
  by (simp add: Heap_Walk_def)

end
