(* ===== verification/Heap_Resize.thy ===== *)
theory Heap_Resize
  imports Heap_Correct
begin

text \<open>
  Resizing a block of the heap in place (\<^verbatim>\<open>_Heap_Resize_block\<close>): a free block behind it is taken
  first, then what is not needed is split off again.
\<close>

lemma Heap_Block_allocate_used:
  assumes rep: "heap_rep h m a (xs @ (S, True) # ys) fs" and nxt: "ys = [] \<or> snd (hd ys)"
    and ptr: "a + szs xs + 16 \<le> unat p" "unat p < a + szs xs + 16 + unat (page_size h)"
    and A_def: "A = unat asz + (unat p - (a + szs xs + 16))" and fit: "A + 16 \<le> S + 8"
  shows "\<exists>st' m' fs'. Heap_Block_allocate h (W (a + szs xs)) p asz m = (W (a + szs xs), h\<lparr>stats := st'\<rparr>, m')
     \<and> heap_rep (h\<lparr>stats := st'\<rparr>) m' a (xs @ split_layout h A S @ ys) fs'"
proof -
  let ?x = "a + szs xs" and ?off = "p - Heap_Alloc_area_of_block (W (a + szs xs))"
  note rd = block_reads [OF rep] and g = heap_repD(1) [OF rep]
  have off: "unat ?off = unat p - (?x + 16)" using rd(5,6,7) ptr by (intro offset_lt_page) auto
  then have lt: "?off < page_size h" using ptr by (simp add: word_less_nat_alt)
  have asz: "unat (asz + ?off) = A"
    using fit rd(5,6,7) off by (subst unat_plus_no_wrap) (auto simp: A_def)
  have ok: "unat (page_size h) dvd S" "unat (min_block_size h) \<le> S" using geomD(10) [OF g, of "(S, True)"] by auto
  have rep': "heap_rep h m a (xs @ [(szs [] + S, True)] @ ys) fs" using rep by simp
  have hdr: "SF m (W ?x) = W S OR flg (lastu True xs)"
    using seg_at(2) [of "SF m" "PS m" a True xs S True] heap_rep_seg [of h m a xs "[(S, True)]" ys fs] rep by simp
  have sp: "to_split h m m a xs [] S True ys" using rep' ok hdr nxt by (auto simp: to_split_def)
  have need: "need h (unat (asz + ?off)) \<le> S + 8" unfolding asz using fit ok by (auto simp: need_def)
  have fl: "flist (NX m) (PV m) (free_list h) ([] @ fs)" using heap_repD(5) [OF rep] by simp
  have st: "stats_ok (stats h) (xs @ [] @ [(S, True)] @ ys)" using heap_repD(7) [OF rep] by simp
  have G: "set ([] @ fs) = W ` set (faddrs a (xs @ [])) \<union> W ` set (faddrs (?x + szs [] + S) ys)"
    using heap_repD(6) [OF rep] by (simp add: faddrs_append image_Un)
  obtain st' m' fs' where e: "Heap_Block_split (h\<lparr>stats := stats h\<rparr>) (W (?x + szs [])) (free_list h)
        (asz + ?off) m = (h\<lparr>stats := st'\<rparr>, m')"
    and r: "heap_rep (h\<lparr>stats := st'\<rparr>) m' a (xs @ ([] @ split_layout h (unat (asz + ?off)) S) @ ys) fs'"
    using to_split_result [OF sp rep' need fl _ G st, of "free_list h"] by auto
  have "\<not> Heap_Is_free m (W ?x)" using rd(2,4) by (simp add: Heap_Is_free_def Heap_Is_used_def)
  then have "Heap_Block_allocate h (W ?x) p asz m = (W ?x, h\<lparr>stats := min_stats st'\<rparr>, m')"
    using e lt by (simp add: Heap_Block_allocate_def Heap_Block_allocate_from_begin_def Let_def
        Heap_Free_list_head_def upd_stats_def min_stats_def)
  moreover have "heap_rep (h\<lparr>stats := min_stats st'\<rparr>) m' a (xs @ split_layout h A S @ ys) fs'"
    using heap_rep_stats [OF r, of "min_stats st'"] heap_repD(7) [OF r] asz by simp
  ultimately show ?thesis by blast
qed

text \<open>Taking the free block behind a used block.\<close>

definition merged :: "Heap_Control \<Rightarrow> nat \<Rightarrow> nat \<Rightarrow> nat \<Rightarrow> hmem \<Rightarrow> Heap_Control \<times> hmem" where
  "merged h x s n m =
     (let m = Heap_Block_set_size (W x) (W (s + n)) m;
          m = Heap_Free_list_remove (W (x + s)) m;
          m = set_size_and_flag (W (x + s + n)) (size_and_flag (m (W (x + s + n))) OR HEAP_PREV_BLOCK_USED) m
      in (h\<lparr>stats := (stats h)\<lparr>free_blocks := free_blocks (stats h) - 1, free_size := free_size (stats h) - W n\<rparr>\<rparr>, m))"

lemma merged_rep:
  assumes rep: "heap_rep h m a (xs @ (s, True) # (n, False) # ys) fs" and mg: "merged h (a + szs xs) s n m = (h', m')"
  shows "\<exists>fs'. heap_rep h' m' a (xs @ [(s + n, True)] @ ys) fs'"
proof -
  let ?x = "a + szs xs"
  have rep2: "heap_rep h m a ((xs @ [(s, True)]) @ (n, False) # ys) fs" using rep by simp
  note rd = block_reads [OF rep] and rd2 = block_reads [OF rep2] and g = heap_repD(1) [OF rep]
  have bnd: "?x + s + n + 16 < 2 ^ 64" using rd2(6,7) by simp
  have nxt: "ys = [] \<or> snd (hd ys)" by (rule free_block_next [OF rep2])
  obtain s0 u0 T where T: "ys @ [(2 ^ 64 - szs ((xs @ [(s, True)]) @ [(n, False)] @ ys), True)] = (s0, u0) # T"
    and u0: "u0 \<longleftrightarrow> ys = [] \<or> snd (hd ys)" and hd: "SF m (W (a + szs (xs @ [(s, True)]) + n)) = W s0 OR flg False" "even s0"
    using used_block_tail [OF rep2] by blast
  obtain F1 F2 where fs: "fs = F1 @ W (a + szs (xs @ [(s, True)])) # F2"
    and F: "set (F1 @ F2) = W ` set (faddrs a (xs @ [(s, True)])) \<union> W ` set (faddrs (a + szs (xs @ [(s, True)]) + n) ys)"
    by (rule fs_split [OF rep2])
  have hdr: "SF m (W ?x) = W s OR flg (lastu True xs)"
    using seg_at(2) [of "SF m" "PS m" a True xs s True] heap_rep_seg [of h m a xs "[(s, True), (n, False)]" ys fs] rep by simp
  have ne: "W ?x \<noteq> W (?x + s + n)" using rd(5) bnd by (simp add: W_eq)
  have m': "SF m' = (SF m)(W ?x := W (s + n) OR flg (lastu True xs), W (?x + s + n) := W s0 OR 1)" "PS m' = PS m"
    "NX m' = (NX m)(PV m (W (?x + s)) := NX m (W (?x + s)))" "PV m' = (PV m)(NX m (W (?x + s)) := PV m (W (?x + s)))"
    using mg hd hdr_flag [OF rd(1), of "lastu True xs"] hdr ne
    by (auto simp: merged_def Let_def hfields Heap_Block_set_size_def HEAP_PREV_BLOCK_USED_def add.assoc)
  define st where "st = (stats h)\<lparr>free_blocks := free_blocks (stats h) - 1, free_size := free_size (stats h) - W n\<rparr>"
  have "heap_rep (h\<lparr>stats := st\<rparr>) m' a (xs @ [(s + n, True)] @ ys) (F1 @ F2)"
  proof (rule heap_rep_middle [OF _ _ _ _ _ _ _ _ _ _ _ refl])
    show "heap_rep h m a (xs @ [(s, True), (n, False)] @ ys) fs" using rep by simp
    show "ys @ [(2 ^ 64 - szs (xs @ [(s, True), (n, False)] @ ys), True)] = (s0, u0) # T" using T by simp
    show "szs [(s + n, True)] = szs [(s, True), (n, False)]" by simp
    show "unat (page_size h) dvd fst b \<and> unat (min_block_size h) \<le> fst b" if "b \<in> set [(s + n, True)]" for b
      using that geomD(10) [OF g, of "(s, True)"] geomD(10) [OF g, of "(n, False)"] by auto
    show "seg (SF m') (PS m') (a + szs xs) (lastu True xs) [(s + n, True)]"
      using rd(1) rd2(1) ne by (simp add: m' add.assoc)
    show "SF m' (W (a + szs xs + szs [(s, True), (n, False)])) = W s0 OR flg (lastu (lastu True xs) [(s + n, True)])"
      by (simp add: m' add.assoc)
    show "lastu (lastu True xs) [(s + n, True)] \<or> u0" by simp
    show "SF m' (W z) = SF m (W z)" if "z < 2 ^ 64" "z < a + szs xs \<or> a + szs xs + szs [(s, True), (n, False)] < z" for z
      using that bnd by (auto simp: m' W_eq)
    show "PS m' (W z) = PS m (W z)" if "z < 2 ^ 64" "z \<le> a + szs xs \<or> a + szs xs + szs [(s, True), (n, False)] < z" for z
      by (simp add: m')
    have "flist (NX m) (PV m) (free_list h) (F1 @ W (?x + s) # F2)" using heap_repD(5) [OF rep] fs by (simp add: add.assoc)
    then show "flist (NX m') (PV m') (free_list h) (F1 @ F2)" unfolding m' by (rule flist_remove)
    show "set (F1 @ F2) = W ` set (faddrs a (xs @ [(s + n, True)] @ ys))" using F by (auto simp: faddrs_append add.assoc)
    show "stats_ok st (xs @ [(s + n, True)] @ ys)"
      using heap_repD(7) [OF rep] by (auto simp: stats_ok_def st_def of_nat_add)
  qed
  then show ?thesis using mg by (auto simp: merged_def Let_def st_def)
qed

text \<open>The bytes of the free block behind a block, and the blocks after it.\<close>

definition next_free :: "layout \<Rightarrow> nat \<times> layout" where
  "next_free ys = (case ys of (n, False) # zs \<Rightarrow> (n, zs) | _ \<Rightarrow> (0, ys))"

definition kept_size :: "Heap_Control \<Rightarrow> nat \<Rightarrow> nat \<Rightarrow> nat" where
  "kept_size h A S = (if splits h A S then used_part h A else S)"

lemma split_layout_kept: "split_layout h A S = (kept_size h A S, True) # tl (split_layout h A S)"
  by (simp add: split_layout_def kept_size_def)

lemma Heap_Resize_checked_eq:
  assumes rep: "heap_rep h m a (xs @ (s, True) # ys) fs" and nf: "next_free ys = (n, zs)"
    and ptr: "unat p \<le> a + szs xs + s + 8"
  defines "x \<equiv> a + szs xs"
  shows "Heap_Resize_block_checked h (W x) p new v m =
    (if x + s + n + 8 < unat p + unat new then (HEAP_RESIZE_UNSATISFIED, W (x + s + 8 - unat p), v, h, m)
     else let (h', m') = (if ys = [] \<or> snd (hd ys) then (h, m) else merged h x s n m);
              (b, h', m') = Heap_Block_allocate h' (W x) p new m'
          in (HEAP_RESIZE_SUCCESSFUL, W (x + s + 8 - unat p), b + Heap_Block_size m' b - p + 8,
              upd_stats (\<lambda>s. s\<lparr>resizes := resizes s + 1\<rparr>) h', m'))"
proof -
  note rd = block_reads [OF rep]
  have free: "Heap_Is_free m (W (x + s)) \<longleftrightarrow> \<not> (ys = [] \<or> snd (hd ys))"
    using next_used [OF rep] by (simp add: Heap_Is_free_def x_def)
  have n: "Heap_Block_size m (W (x + s)) = W n \<and> x + s + n + 16 < 2 ^ 64" if "\<not> (ys = [] \<or> snd (hd ys))"
  proof -
    have ys: "ys = (n, False) # zs" using that nf by (cases ys) (auto simp: next_free_def split: bool.splits)
    then have "heap_rep h m a ((xs @ [(s, True)]) @ (n, False) # zs) fs" using rep by simp
    from block_reads(6,7) [OF this] have "x + s + n + 16 < 2 ^ 64" by (simp add: x_def)
    then show ?thesis using next_size [of h m a xs s True n False zs fs] rep ys by (simp add: x_def)
  qed
  have n0: "n = 0" if "ys = [] \<or> snd (hd ys)" using that nf by (cases ys) (auto simp: next_free_def split: bool.splits)
  have bnd: "x + s + n + 16 < 2 ^ 64" using n n0 rd(6,7) by (cases "ys = [] \<or> snd (hd ys)") (auto simp: x_def)
  have d: "W (x + s + k) - p + HEAP_ALLOC_BONUS = W (x + s + k + 8 - unat p)" for k
    using ptr by (subst of_nat_diff) (auto simp: x_def HEAP_ALLOC_BONUS_def of_nat_add)
  have old: "W x + W s - p + HEAP_ALLOC_BONUS = W (x + s + 8 - unat p)" using d [of 0] by (simp add: of_nat_add)
  have grown: "W (x + s + 8 - unat p) + W n = W (x + s + n + 8 - unat p)"
  proof -
    have "x + s + n + 8 - unat p = (x + s + 8 - unat p) + n" using ptr by (simp add: x_def)
    then show ?thesis by (simp add: of_nat_add)
  qed
  have cmp: "new > W (x + s + n + 8 - unat p) \<longleftrightarrow> x + s + n + 8 < unat p + unat new"
  proof -
    have "unat (W (x + s + n + 8 - unat p)) = x + s + n + 8 - unat p" using bnd by (intro unat_W) simp
    then show ?thesis using ptr by (auto simp: word_less_nat_alt x_def)
  qed
  show ?thesis
  proof (cases "ys = [] \<or> snd (hd ys)")
    case True
    then have f: "\<not> Heap_Is_free m (W (x + s))" and z: "n = 0" using free n0 by auto
    have cmp0: "new > W (x + s + 8 - unat p) \<longleftrightarrow> x + s + n + 8 < unat p + unat new" using cmp z by simp
    show ?thesis
      unfolding Heap_Resize_block_checked_def Let_def rd(2) [folded x_def] Heap_Block_at_W old
      using True f cmp0 by (simp add: old Heap_Block_at_def HEAP_ALLOC_BONUS_def split: prod.split)
  next
    case False
    then have f: "Heap_Is_free m (W (x + s))" and sz: "Heap_Block_size m (W (x + s)) = W n" using free n by auto
    have wsn: "W s + W n = W (s + n)" "W x + W (s + n) = W (x + (s + n))" by (simp_all add: of_nat_add)
    show ?thesis
      unfolding Heap_Resize_block_checked_def Let_def rd(2) [folded x_def] Heap_Block_at_W old sz
      using False f cmp by (simp add: old grown merged_def add.assoc [of x s n] wsn Let_def
          upd_stats_def Heap_Block_at_def [of b for b] HEAP_ALLOC_BONUS_def split: prod.split)
  qed
qed

lemma Heap_Resize_rep:
  assumes rep: "heap_rep h m a (xs @ (s, True) # ys) fs" and nf: "next_free ys = (n, zs)"
    and ptr: "a + szs xs + 16 \<le> unat p" "unat p < a + szs xs + 16 + unat (page_size h)" "unat p \<le> a + szs xs + s + 8"
    and fit: "unat p + unat new \<le> a + szs xs + s + n + 8"
  defines "B \<equiv> kept_size h (unat new + (unat p - (a + szs xs + 16))) (s + n)"
  shows "\<exists>h' m' fs'. Heap_Resize_block h p new m
      = (HEAP_RESIZE_SUCCESSFUL, W (a + szs xs + s + 8 - unat p), W (a + szs xs + B + 8 - unat p), h', m')
    \<and> heap_rep h' m' a (xs @ split_layout h (unat new + (unat p - (a + szs xs + 16))) (s + n) @ zs) fs'
    \<and> unat p + unat new \<le> a + szs xs + B + 8"
proof -
  let ?x = "a + szs xs" and ?A = "unat new + (unat p - (a + szs xs + 16))"
  have "\<exists>h1 m1 fs1. (if ys = [] \<or> snd (hd ys) then (h, m) else merged h ?x s n m) = (h1, m1)
     \<and> heap_rep h1 m1 a (xs @ (s + n, True) # zs) fs1 \<and> (zs = [] \<or> snd (hd zs))
     \<and> page_size h1 = page_size h \<and> min_block_size h1 = min_block_size h"
  proof (cases "ys = [] \<or> snd (hd ys)")
    case True
    then have "n = 0" "zs = ys" using nf by (cases ys; auto simp: next_free_def split: bool.splits)+
    then show ?thesis using rep True by auto
  next
    case False
    then have ys: "ys = (n, False) # zs" using nf by (cases ys) (auto simp: next_free_def split: bool.splits)
    obtain h1 m1 where mg: "merged h ?x s n m = (h1, m1)" by fastforce
    moreover have "zs = [] \<or> snd (hd zs)" using free_block_next [of h m a "xs @ [(s, True)]" n zs fs] rep ys by simp
    moreover have "page_size h1 = page_size h" "min_block_size h1 = min_block_size h" using mg by (auto simp: merged_def Let_def)
    ultimately show ?thesis using False merged_rep [of h m a xs s n zs fs h1 m1] rep ys by auto
  qed
  then obtain h1 m1 fs1 where 1: "(if ys = [] \<or> snd (hd ys) then (h, m) else merged h ?x s n m) = (h1, m1)"
    and r1: "heap_rep h1 m1 a (xs @ (s + n, True) # zs) fs1" and nxt: "zs = [] \<or> snd (hd zs)"
    and same: "page_size h1 = page_size h" "min_block_size h1 = min_block_size h" by blast
  have lay: "split_layout h1 A k = split_layout h A k" for A k
    using same by (simp add: split_layout_def splits_def used_part_def need_def)
  have fit': "?A + 16 \<le> s + n + 8" and ptr': "unat p < ?x + 16 + unat (page_size h1)" using ptr fit same by auto
  obtain st' m' fs' where al: "Heap_Block_allocate h1 (W ?x) p new m1 = (W ?x, h1\<lparr>stats := st'\<rparr>, m')"
    and r: "heap_rep (h1\<lparr>stats := st'\<rparr>) m' a (xs @ split_layout h ?A (s + n) @ zs) fs'"
    using Heap_Block_allocate_used [OF r1 nxt ptr(1) ptr' refl fit'] unfolding lay by blast
  have lb: "split_layout h ?A (s + n) = (B, True) # tl (split_layout h ?A (s + n))" unfolding B_def by (rule split_layout_kept)
  have r': "heap_rep (h1\<lparr>stats := st'\<rparr>) m' a (xs @ (B, True) # tl (split_layout h ?A (s + n)) @ zs) fs'"
    using r lb by (metis append_Cons)
  have big: "unat p + unat new \<le> ?x + B + 8"
    using align_up_props(2) [OF geomD(1) [OF heap_repD(1) [OF rep]], of "need h ?A"] ptr(1) fit
    by (auto simp: B_def kept_size_def used_part_def need_def)
  have "W ?x + W B - p + 8 = W (?x + B + 8 - unat p)" using big by (subst of_nat_diff) (auto simp: of_nat_add)
  then have "Heap_Resize_block_checked h (W ?x) p new 0 m = (HEAP_RESIZE_SUCCESSFUL, W (?x + s + 8 - unat p),
      W (?x + B + 8 - unat p), upd_stats (\<lambda>s. s\<lparr>resizes := resizes s + 1\<rparr>) (h1\<lparr>stats := st'\<rparr>), m')"
    using Heap_Resize_checked_eq [OF rep nf ptr(3), of new 0] fit 1 al block_reads(2) [OF r'] by simp
  moreover have "Heap_Is_block_in_heap h (W ?x)" using block_reads(6) [OF rep] by (intro heap_rep_in_heap [OF rep]) auto
  moreover have "heap_rep (upd_stats (\<lambda>s. s\<lparr>resizes := resizes s + 1\<rparr>) (h1\<lparr>stats := st'\<rparr>)) m' a
      (xs @ split_layout h ?A (s + n) @ zs) fs'"
    using heap_rep_stats [OF r, of "st'\<lparr>resizes := resizes st' + 1\<rparr>"] heap_repD(7) [OF r]
    by (simp add: upd_stats_def stats_ok_def)
  ultimately show ?thesis using alloc_ptr(2) [OF rep ptr(1,2)] big by (auto simp: Heap_Resize_block_def)
qed

lemma Heap_Resize_refused:
  assumes rep: "heap_rep h m a (xs @ (s, True) # ys) fs" and nf: "next_free ys = (n, zs)"
    and ptr: "a + szs xs + 16 \<le> unat p" "unat p < a + szs xs + 16 + unat (page_size h)" "unat p \<le> a + szs xs + s + 8"
    and fit: "a + szs xs + s + n + 8 < unat p + unat new"
  shows "Heap_Resize_block h p new m = (HEAP_RESIZE_UNSATISFIED, W (a + szs xs + s + 8 - unat p), 0, h, m)"
  using Heap_Resize_checked_eq [OF rep nf ptr(3), of new 0] fit alloc_ptr(2) [OF rep ptr(1,2)] block_reads(6) [OF rep]
    heap_rep_in_heap [OF rep, of "a + szs xs"]
  by (simp add: Heap_Resize_block_def)

end
