(* ===== verification/Heap_Client.thy ===== *)
theory Heap_Client
  imports Heap_Info Heap_Resize
begin

text \<open>
  The Heap Handler as an allocator for its clients: the contract as a locale, what any sequence
  of requests of a client does, and that the Heap Handler fulfils the contract. The properties of
  the Heap Handler are stated at the end.
\<close>

section \<open>The contract\<close>

datatype 'r request = Alloc 'r | Free nat

text \<open>A client keeps the pointers it got in a list and frees them by their position in it.\<close>

fun run :: "('r \<Rightarrow> 's \<Rightarrow> (uintptr \<times> 's) option) \<Rightarrow> (uintptr \<Rightarrow> 's \<Rightarrow> bool \<times> 's)
    \<Rightarrow> 'r request list \<Rightarrow> 's \<Rightarrow> uintptr list \<Rightarrow> ('s \<times> uintptr list) option" where
  "run alloc dealloc [] s ps = Some (s, ps)"
| "run alloc dealloc (Alloc r # rs) s ps =
     (case alloc r s of
        None \<Rightarrow> None
      | Some (p, s) \<Rightarrow> run alloc dealloc rs s (if p = 0 then ps else ps @ [p]))"
| "run alloc dealloc (Free i # rs) s ps =
     (if i < length ps
      then let (ok, s) = dealloc (ps ! i) s in run alloc dealloc rs s (take i ps @ drop (Suc i) ps)
      else run alloc dealloc rs s ps)"

locale allocator =
  fixes inv :: "'s \<Rightarrow> bool" and live :: "'s \<Rightarrow> (nat \<times> nat) set" and owns :: "'s \<Rightarrow> uintptr \<Rightarrow> nat \<times> nat \<Rightarrow> bool"
    and alloc :: "'r \<Rightarrow> 's \<Rightarrow> (uintptr \<times> 's) option" and dealloc :: "uintptr \<Rightarrow> 's \<Rightarrow> bool \<times> 's"
  assumes disjoint: "inv s \<Longrightarrow> b \<in> live s \<Longrightarrow> c \<in> live s \<Longrightarrow>
      b = c \<or> fst b + snd b \<le> fst c \<or> fst c + snd c \<le> fst b"
    and alloc_returns: "inv s \<Longrightarrow> \<exists>p s'. alloc r s = Some (p, s')"
    and alloc_inv: "inv s \<Longrightarrow> alloc r s = Some (p, s') \<Longrightarrow> inv s' \<and> owns s' = owns s"
    and alloc_null: "inv s \<Longrightarrow> alloc r s = Some (0, s') \<Longrightarrow> live s' = live s"
    and alloc_live: "inv s \<Longrightarrow> alloc r s = Some (p, s') \<Longrightarrow> p \<noteq> 0 \<Longrightarrow>
      \<exists>b. b \<notin> live s \<and> live s' = insert b (live s) \<and> owns s p b"
    and dealloc_ok: "inv s \<Longrightarrow> b \<in> live s \<Longrightarrow> owns s p b \<Longrightarrow> dealloc p s = (ok, s') \<Longrightarrow>
      ok \<and> inv s' \<and> live s' = live s - {b} \<and> owns s' = owns s"
begin

text \<open>The pointers of the client are those of all live blocks, each once.\<close>

definition held :: "'s \<Rightarrow> uintptr list \<Rightarrow> bool" where
  "held s ps \<longleftrightarrow> (\<exists>bs. list_all2 (owns s) ps bs \<and> distinct bs \<and> set bs = live s)"

lemma held_alloc:
  assumes "inv s" and "held s ps" and "alloc r s = Some (p, s')"
  shows "inv s'" and "held s' (if p = 0 then ps else ps @ [p])"
proof -
  note al = alloc_inv [OF assms(1,3)]
  show "inv s'" using al by simp
  obtain bs where bs: "list_all2 (owns s) ps bs" "distinct bs" "set bs = live s" using assms(2) by (auto simp: held_def)
  show "held s' (if p = 0 then ps else ps @ [p])"
  proof (cases "p = 0")
    case True
    then show ?thesis using alloc_null [OF assms(1)] assms(3) bs al by (auto simp: held_def)
  next
    case False
    then obtain b where "b \<notin> live s" "live s' = insert b (live s)" "owns s p b" using alloc_live [OF assms(1,3)] by blast
    then have "list_all2 (owns s') (ps @ [p]) (bs @ [b])" "distinct (bs @ [b])" "set (bs @ [b]) = live s'"
      using bs al by (auto intro: list_all2_appendI)
    then show ?thesis using False unfolding held_def by auto
  qed
qed

lemma held_dealloc:
  assumes "inv s" and "held s ps" and i: "i < length ps" and "dealloc (ps ! i) s = (ok, s')"
  shows "ok" and "inv s'" and "held s' (take i ps @ drop (Suc i) ps)"
proof -
  obtain bs where bs: "list_all2 (owns s) ps bs" "distinct bs" "set bs = live s" using assms(2) by (auto simp: held_def)
  have len: "i < length bs" using i list_all2_lengthD [OF bs(1)] by simp
  have "bs ! i \<in> live s" "owns s (ps ! i) (bs ! i)"
    using nth_mem [OF len] bs(3) list_all2_nthD [OF bs(1) i] by blast+
  note de = dealloc_ok [OF assms(1) this assms(4)]
  show "ok" "inv s'" using de by auto
  define A B where AB: "A = take i bs" "B = drop (Suc i) bs"
  have e: "A @ bs ! i # B = bs" unfolding AB using len by (rule id_take_nth_drop [symmetric])
  have "distinct (A @ bs ! i # B)" "set (A @ bs ! i # B) = live s" unfolding e by (rule bs(2), rule bs(3))
  then have "distinct (A @ B)" "set (A @ B) = live s'" using de by auto
  moreover have "list_all2 (owns s') (take i ps @ drop (Suc i) ps) (A @ B)"
    using bs(1) de unfolding AB by (intro list_all2_appendI list_all2_takeI list_all2_dropI) auto
  ultimately show "held s' (take i ps @ drop (Suc i) ps)" unfolding held_def by blast
qed

lemma run_ok:
  assumes "inv s" and "held s ps"
  shows "\<exists>s' ps'. run alloc dealloc rs s ps = Some (s', ps') \<and> inv s' \<and> held s' ps'"
  using assms
proof (induction rs arbitrary: s ps)
  case (Cons r rs)
  show ?case
  proof (cases r)
    case (Alloc n)
    obtain p s' where p: "alloc n s = Some (p, s')" using alloc_returns [OF Cons.prems(1)] by blast
    then show ?thesis using Cons.IH [OF held_alloc [OF Cons.prems p]] Alloc by simp
  next
    case (Free i)
    obtain ok s' where f: "dealloc (ps ! i) s = (ok, s')" by fastforce
    then show ?thesis
      using Cons.IH [OF held_dealloc(2,3) [OF Cons.prems _ f]] Cons.IH [OF Cons.prems] Free by auto
  qed
qed auto

text \<open>A client that frees all it holds leaves no live block.\<close>

lemma run_free_all:
  assumes "inv s" and "held s ps"
  shows "\<exists>s'. run alloc dealloc (replicate (length ps) (Free 0)) s ps = Some (s', []) \<and> inv s' \<and> live s' = {}"
  using assms
proof (induction ps arbitrary: s)
  case Nil
  then show ?case by (auto simp: held_def)
next
  case (Cons p ps)
  obtain ok s' where f: "dealloc ((p # ps) ! 0) s = (ok, s')" by fastforce
  have "inv s'" "held s' ps" using held_dealloc(2,3) [OF Cons.prems _ f] by auto
  then show ?case using Cons.IH [of s'] f by auto
qed

lemma held_empty: "live s = {} \<Longrightarrow> held s []"
  by (simp add: held_def)

end

lemma run_append:
  "run alloc dealloc (rs @ qs) s ps = (case run alloc dealloc rs s ps of None \<Rightarrow> None | Some (s, ps) \<Rightarrow> run alloc dealloc qs s ps)"
  by (induction alloc dealloc rs s ps rule: run.induct) (auto split: option.split prod.split)

section \<open>The Heap Handler fulfils the contract\<close>

type_synonym heap_state = "Heap_Control \<times> hmem"

definition heap_inv :: "nat \<Rightarrow> nat \<Rightarrow> heap_state \<Rightarrow> bool" where
  "heap_inv a n s \<longleftrightarrow> (\<exists>bs fs. heap_rep (fst s) (snd s) a bs fs \<and> szs bs = n)"

definition collect_used :: "uintptr \<Rightarrow> uintptr \<Rightarrow> bool \<Rightarrow> (nat \<times> nat) set \<Rightarrow> bool \<times> (nat \<times> nat) set" where
  "collect_used block block_size used A = (False, if used then insert (unat block, unat block_size) A else A)"

text \<open>The live blocks are those \<^verbatim>\<open>_Heap_Iterate\<close> reports as used.\<close>

definition heap_live :: "heap_state \<Rightarrow> (nat \<times> nat) set" where
  "heap_live s = (case Heap_Iterate (fst s) collect_used (snd s) {} of None \<Rightarrow> {} | Some A \<Rightarrow> A)"

definition heap_owns :: "heap_state \<Rightarrow> uintptr \<Rightarrow> nat \<times> nat \<Rightarrow> bool" where
  "heap_owns s p b \<longleftrightarrow> fst b + 16 \<le> unat p \<and> unat p < fst b + 16 + unat (page_size (fst s))"

text \<open>A request gives the size, the alignment and the boundary.\<close>

definition heap_alloc :: "uintptr \<times> uintptr \<times> uintptr \<Rightarrow> heap_state \<Rightarrow> (uintptr \<times> heap_state) option" where
  "heap_alloc r s = (case r of (sz, al, bd) \<Rightarrow> Heap_Allocate_aligned_with_boundary (fst s) sz al bd (snd s))"

definition heap_dealloc :: "uintptr \<Rightarrow> heap_state \<Rightarrow> bool \<times> heap_state" where
  "heap_dealloc p s = Heap_Free (fst s) p (snd s)"

lemma visit_collect_used:
  "a + szs bs < 2 ^ 64 \<Longrightarrow> visit collect_used a bs A = A \<union> used_at a bs"
proof (induction bs arbitrary: a A)
  case (Cons b bs)
  obtain s u where "b = (s, u)" by (cases b)
  then show ?case using Cons.IH [of "a + s"] Cons.prems by (auto simp: collect_used_def unat_W add.assoc)
qed simp

lemma heap_live_used_at:
  assumes "heap_rep h m a bs fs"
  shows "heap_live (h, m) = used_at a bs"
  using visit_collect_used [of a bs "{}"] geomD(7) [OF heap_repD(1) [OF assms]]
  by (simp add: heap_live_def Heap_Iterate_visit [OF assms])

lemma Heap_Free_control:
  "Heap_Free h p m = (ok, h', m') \<Longrightarrow> page_size h' = page_size h \<and> last_block h' = last_block h"
  by (auto simp: Heap_Free_def Let_def upd_stats_def split: if_splits)

lemma free_layout_used: "used_at a (free_layout xs s ys) = used_at a xs \<union> used_at (a + szs xs + s) ys"
proof -
  obtain n zs where nf: "(case ys of (n, False) # zs \<Rightarrow> (n, zs) | _ \<Rightarrow> (0, ys)) = (n, zs)" by fastforce
  then have ys: "used_at z ys = used_at (z + n) zs" for z
    by (cases ys) (auto split: bool.splits prod.splits)
  show ?thesis
  proof (cases "lastu True xs")
    case True
    then show ?thesis using nf ys [of "a + szs xs + s"] by (simp add: free_layout_def used_at_append add.assoc)
  next
    case False
    then obtain vs q where "xs = vs @ [(q, False)]" by (cases xs rule: rev_cases) auto
    then show ?thesis using nf ys [of "a + szs xs + s"] by (simp add: free_layout_def used_at_append add.assoc)
  qed
qed

lemma heap_dealloc_live:
  assumes rep: "heap_rep h m a bs fs" and b: "(x, s) \<in> used_at a bs" and own: "heap_owns (h, m) p (x, s)"
  shows "\<exists>h' m' bs' fs'. Heap_Free h p m = (True, h', m') \<and> heap_rep h' m' a bs' fs'
    \<and> used_at a bs' = used_at a bs - {(x, s)} \<and> page_size h' = page_size h \<and> last_block h' = last_block h"
proof -
  obtain xs ys where bs: "bs = xs @ (s, True) # ys" and x: "x = a + szs xs" using b used_at_split by blast
  have rep': "heap_rep h m a (xs @ (s, True) # ys) fs" using rep bs by simp
  obtain h' m' fs' where r: "Heap_Free h p m = (True, h', m')" "heap_rep h' m' a (free_layout xs s ys) fs'"
    using Heap_Free_rep [OF rep', of p] own x by (auto simp: heap_owns_def)
  have "0 < s" by (rule block_reads(5) [OF rep'])
  then have "(x, s) \<notin> used_at a xs \<union> used_at (a + szs xs + s) ys"
    using used_at_range [of x s a xs] used_at_range [of x s "a + szs xs + s" ys] x by auto
  then have "used_at a (free_layout xs s ys) = used_at a bs - {(x, s)}"
    using x by (auto simp: free_layout_used bs used_at_append)
  then show ?thesis using r Heap_Free_control [OF r(1)] by blast
qed

text \<open>Two layouts with the same first and last block have the same size.\<close>

lemma heap_rep_same_size:
  assumes "heap_rep h m a bs fs" and "heap_rep h' m' a bs' fs'" and "last_block h' = last_block h"
  shows "szs bs' = szs bs"
proof -
  have "a + szs bs < 2 ^ 64" "a + szs bs' < 2 ^ 64"
    using geomD(7) [OF heap_repD(1) [OF assms(1)]] geomD(7) [OF heap_repD(1) [OF assms(2)]] by auto
  then show ?thesis using heap_repD(3) [OF assms(1)] heap_repD(3) [OF assms(2)] assms(3) by (simp add: W_eq)
qed

interpretation heap_allocator: allocator "heap_inv a n" heap_live heap_owns heap_alloc heap_dealloc
proof unfold_locales
  fix s b c
  assume "heap_inv a n s" "b \<in> heap_live s" "c \<in> heap_live s"
  then show "b = c \<or> fst b + snd b \<le> fst c \<or> fst c + snd c \<le> fst b"
    using heap_live_used_at used_at_disjoint by (cases s, cases b, cases c) (fastforce simp: heap_inv_def)
next
  fix s :: heap_state and r :: "uintptr \<times> uintptr \<times> uintptr" assume i: "heap_inv a n s"
  obtain h m sz al bd where [simp]: "s = (h, m)" "r = (sz, al, bd)" by (metis prod_cases3 surj_pair)
  obtain bs fs where rep: "heap_rep h m a bs fs" and n: "szs bs = n" using i by (auto simp: heap_inv_def)
  obtain p st' m' bs' fs' where e: "Heap_Allocate_aligned_with_boundary h sz al bd m = Some (p, h\<lparr>stats := st'\<rparr>, m')"
    and r: "heap_rep (h\<lparr>stats := st'\<rparr>) m' a bs' fs'" "p = 0 \<longrightarrow> bs' = bs"
      "p \<noteq> 0 \<longrightarrow> (\<exists>y s. granted h a bs bs' (unat sz) (unat al) (unat bd) (unat p) y s)"
    using Heap_Allocate_granted [OF rep, of sz al bd] by metis
  show "\<exists>p s'. heap_alloc r s = Some (p, s')" using e by (simp add: heap_alloc_def)
  have live: "heap_live s = used_at a bs" "heap_live (h\<lparr>stats := st'\<rparr>, m') = used_at a bs'"
    using heap_live_used_at rep r(1) by auto
  have "szs bs' = n" using heap_rep_same_size [OF rep r(1)] n by simp
  then have "heap_inv a n (h\<lparr>stats := st'\<rparr>, m')" unfolding heap_inv_def fst_conv snd_conv using r(1) by blast
  then show "heap_inv a n s' \<and> heap_owns s' = heap_owns s" if "heap_alloc r s = Some (q, s')" for q s'
    using that e by (auto simp: heap_alloc_def heap_owns_def fun_eq_iff)
  show "heap_live s' = heap_live s" if "heap_alloc r s = Some (0, s')" for s'
    using that e r(2) live by (auto simp: heap_alloc_def)
  show "\<exists>b. b \<notin> heap_live s \<and> heap_live s' = insert b (heap_live s) \<and> heap_owns s q b"
    if al: "heap_alloc r s = Some (q, s')" and nz: "q \<noteq> 0" for q s'
  proof -
    have q: "q = p" "s' = (h\<lparr>stats := st'\<rparr>, m')" using al e by (auto simp: heap_alloc_def)
    then obtain y t where g: "granted h a bs bs' (unat sz) (unat al) (unat bd) (unat p) y t" using r(3) nz by blast
    then have "(y, t) \<notin> used_at a bs" by (fastforce simp: granted_def)
    then show ?thesis using g q live by (intro exI [of _ "(y, t)"]) (simp add: granted_def heap_owns_def)
  qed
next
  fix s b p ok s'
  assume i: "heap_inv a n s" and b: "b \<in> heap_live s" and own: "heap_owns s p b" and f: "heap_dealloc p s = (ok, s')"
  obtain h m x t where [simp]: "s = (h, m)" "b = (x, t)" by (metis surj_pair)
  obtain bs fs where rep: "heap_rep h m a bs fs" and n: "szs bs = n" using i by (auto simp: heap_inv_def)
  have live: "heap_live (h, m) = used_at a bs" by (rule heap_live_used_at [OF rep])
  obtain h' m' bs' fs' where e: "Heap_Free h p m = (True, h', m')" and r: "heap_rep h' m' a bs' fs'"
    and u: "used_at a bs' = used_at a bs - {(x, t)}" "page_size h' = page_size h" "last_block h' = last_block h"
    using heap_dealloc_live [OF rep, of x t p] b own live by auto
  have sz: "szs bs' = n" using heap_rep_same_size [OF rep r u(3)] n by simp
  have "ok" "s' = (h', m')" using f e by (auto simp: heap_dealloc_def)
  moreover have "heap_inv a n (h', m')" unfolding heap_inv_def fst_conv snd_conv using r sz by blast
  moreover have "heap_live (h', m') = heap_live s - {b}" using heap_live_used_at [OF r] live u(1) by simp
  ultimately show "ok \<and> heap_inv a n s' \<and> heap_live s' = heap_live s - {b} \<and> heap_owns s' = heap_owns s"
    using u(2) by (simp add: heap_owns_def fun_eq_iff)
qed

end
