(* ===== verification/Heap_Props.thy ===== *)
theory Heap_Props
  imports Heap_Client
begin

text \<open>The properties of the Heap Handler, each with a concrete heap it applies to.\<close>

section \<open>A concrete heap\<close>

definition ex_control :: Heap_Control where
  "ex_control = \<lparr>free_list = 64, page_size = 0, min_block_size = 0, area_begin = 0, area_end = 0, first_block = 0,
     last_block = 0, stats = zero_stats\<rparr>"

definition ex_memory :: hmem where
  "ex_memory = (\<lambda>_. \<lparr>prev_size = 0, size_and_flag = 0, nextb = 0, prevb = 0\<rparr>)"

definition ex_init :: "uintptr \<times> Heap_Control \<times> hmem" where
  "ex_init = Heap_Initialize ex_control 1000 1000 8 ex_memory"

lemma ex_init_values: "fst ex_init = 984 \<and> first_block (fst (snd ex_init)) = 1000 \<and> page_size (fst (snd ex_init)) = 8
   \<and> min_block_size (fst (snd ex_init)) = 32"
  by code_simp

lemma ex_area: "unat (free_list ex_control) + 32 \<le> unat (1000 :: uintptr)
    \<or> unat (1000 :: uintptr) + unat (1000 :: uintptr) \<le> unat (free_list ex_control)"
  by (simp add: ex_control_def)

lemma ex_init_rep: "heap_rep (fst (snd ex_init)) (snd (snd ex_init)) 1000 [(984, False)] [1000]"
proof -
  obtain a S where r: "fst ex_init = W S" "heap_rep (fst (snd ex_init)) (snd (snd ex_init)) a [(S, False)] [W a]"
    using Heap_Initialize_rep [OF ex_area, of 8 ex_memory] ex_init_values by (auto simp: ex_init_def)
  have "a + S < 2 ^ 64" using geomD(7) [OF heap_repD(1) [OF r(2)]] by simp
  moreover have "W a = W 1000" "W S = W 984" using r(1) heap_repD(2) [OF r(2)] ex_init_values by auto
  ultimately have "a = 1000" "S = 984" by (auto simp: W_eq simp del: of_nat_numeral)
  then show ?thesis using r(2) by simp
qed

text \<open>The same heap after an allocation of 100 bytes.\<close>

definition ex_used :: "uintptr \<times> Heap_Control \<times> hmem" where
  "ex_used = the (Heap_Allocate (fst (snd ex_init)) 100 (snd (snd ex_init)))"

lemma ex_used_rep:
  "\<exists>fs. heap_rep (fst (snd ex_used)) (snd (snd ex_used)) 1000 [(120, True), (864, False)] fs"
  "fst ex_used = 1016" "page_size (fst (snd ex_used)) = 8" "min_block_size (fst (snd ex_used)) = 32"
proof -
  let ?h = "fst (snd ex_init)" and ?m = "snd (snd ex_init)"
  obtain p st' m' bs' fs' where e: "Heap_Allocate_aligned_with_boundary ?h 100 0 0 ?m = Some (p, ?h\<lparr>stats := st'\<rparr>, m')"
    and r: "heap_rep (?h\<lparr>stats := st'\<rparr>) m' 1000 bs' fs'"
    and no: "p = 0 \<longrightarrow> (\<forall>b\<in>set [(984, False)]. snd b \<or> fst b < unat (100 :: uintptr) + 8)"
    and yes: "p \<noteq> 0 \<longrightarrow> (\<exists>xs S ys. [(984, False)] = xs @ (S, False) # ys
         \<and> suits ?h (1000 + szs xs) S (unat (100 :: uintptr)) (eff_align ?h 0 0) 0 (unat p)
         \<and> bs' = xs @ alloc_blocks ?h (1000 + szs xs) S (unat (100 :: uintptr)) (unat p) @ ys)"
    using Heap_Allocate_result [OF ex_init_rep, of 100 0 0] by metis
  have "p \<noteq> 0" using no by auto
  then obtain xs S ys where x: "[(984, False)] = xs @ (S, False) # ys"
      "suits ?h (1000 + szs xs) S 100 (eff_align ?h 0 0) 0 (unat p)"
      "bs' = xs @ alloc_blocks ?h (1000 + szs xs) S 100 (unat p) @ ys" using yes by auto
  have [simp]: "xs = []" "S = 984" "ys = []" using x(1) by (auto simp: Cons_eq_append_conv)
  have p: "unat p = 1016" using x(2) by (simp add: suits_def eff_align_def)
  have pw: "p = 1016" using arg_cong [OF p, of W] by simp
  have u: "ex_used = (p, ?h\<lparr>stats := st'\<rparr>, m')" using e by (simp add: ex_used_def Heap_Allocate_def)
  have "bs' = [(120, True), (864, False)]"
    using x(3) p ex_init_values by (simp add: alloc_blocks_def block_start_def split_layout_def splits_def need_def
        used_part_def align_up_def)
  then show "\<exists>fs. heap_rep (fst (snd ex_used)) (snd (snd ex_used)) 1000 [(120, True), (864, False)] fs"
    unfolding u fst_conv snd_conv using r by blast
  show "fst ex_used = 1016" "page_size (fst (snd ex_used)) = 8" "min_block_size (fst (snd ex_used)) = 32"
    unfolding u using pw ex_init_values by simp_all
qed

section \<open>Clients\<close>

lemma one_free_block:
  assumes "seg S P a True (closed bs)" and "used_at a bs = {}" and "bs \<noteq> []"
  shows "bs = [(szs bs, False)]"
proof (cases bs)
  case (Cons b cs)
  obtain s u where b: "b = (s, u)" by (cases b)
  have nu: "\<not> u" using assms(2) Cons b by auto
  show ?thesis
  proof (cases cs)
    case (Cons c ds)
    obtain t v where "c = (t, v)" by (cases c)
    then show ?thesis using assms(1,2) \<open>bs = b # cs\<close> Cons b nu by (auto simp: closed_def)
  qed (use \<open>bs = b # cs\<close> b nu in auto)
qed (use assms(3) in simp)

lemma heap_clients:
  assumes fl: "unat (free_list h) + 32 \<le> unat b \<or> unat b + unat n \<le> unat (free_list h)"
    and pg: "unat pg \<le> 2 ^ 62" "unat b + unat pg + 24 \<le> 2 ^ 64"
    and init: "Heap_Initialize h b n pg m = (r, h0, m0)" "r \<noteq> 0"
  shows "\<exists>a s ps bs s' fs. run heap_alloc heap_dealloc rs (h0, m0) [] = Some (s, ps)
    \<and> list_all2 (heap_owns s) ps bs \<and> distinct bs \<and> set bs = heap_live s
    \<and> (\<forall>x\<in>set bs. \<forall>y\<in>set bs. x = y \<or> fst x + snd x \<le> fst y \<or> fst y + snd y \<le> fst x)
    \<and> Heap_Walk True (fst s) (snd s) = Some True
    \<and> run heap_alloc heap_dealloc (rs @ replicate (length ps) (Free 0)) (h0, m0) [] = Some (s', [])
    \<and> heap_rep (fst s') (snd s') a [(unat r, False)] fs"
proof -
  obtain a S where rep: "heap_rep h0 m0 a [(S, False)] [W a]" and S: "r = W S"
    using Heap_Initialize_rep [OF fl pg, of m] init by auto
  have inv: "heap_inv a S (h0, m0)" using rep by (auto simp: heap_inv_def)
  have "heap_live (h0, m0) = {}" using heap_live_used_at [OF rep] by simp
  from heap_allocator.run_ok [OF inv heap_allocator.held_empty [OF this], of rs]
  obtain s ps where run: "run heap_alloc heap_dealloc rs (h0, m0) [] = Some (s, ps)" and i: "heap_inv a S s"
    and held: "heap_allocator.held s ps" by blast
  obtain bs where bs: "list_all2 (heap_owns s) ps bs" "distinct bs" "set bs = heap_live s"
    using held by (auto simp: heap_allocator.held_def)
  have dis: "\<forall>x\<in>set bs. \<forall>y\<in>set bs. x = y \<or> fst x + snd x \<le> fst y \<or> fst y + snd y \<le> fst x"
    using heap_allocator.disjoint [OF i] bs(3) by blast
  have walk: "Heap_Walk True (fst s) (snd s) = Some True" using i Heap_Walk_accepts by (auto simp: heap_inv_def)
  obtain s' where run': "run heap_alloc heap_dealloc (replicate (length ps) (Free 0)) s ps = Some (s', [])"
    and i': "heap_inv a S s'" and live': "heap_live s' = {}" using heap_allocator.run_free_all [OF i held] by blast
  obtain cs fs where rep': "heap_rep (fst s') (snd s') a cs fs" and sz: "szs cs = S" using i' by (auto simp: heap_inv_def)
  have "0 < S" "S < 2 ^ 64" using block_reads(5,6,7) [of h0 m0 a "[]" S False "[]" "[W a]"] rep by auto
  then have "cs \<noteq> []" "unat r = S" using sz unat_W S by auto
  moreover from this have "cs = [(S, False)]"
    using one_free_block [OF heap_repD(4) [OF rep']] heap_live_used_at [OF rep'] live' sz by simp
  ultimately have "heap_rep (fst s') (snd s') a [(unat r, False)] fs" using rep' by simp
  moreover have "run heap_alloc heap_dealloc (rs @ replicate (length ps) (Free 0)) (h0, m0) [] = Some (s', [])"
    using run run' by (simp add: run_append)
  ultimately show ?thesis using run bs dis walk by blast
qed

text \<open>C3: Any client of a heap that \<^verbatim>\<open>_Heap_Initialize\<close> accepted, whatever sequence of allocations (with any
  alignment and boundary) and deallocations of its pointers it makes, gets an answer to each; its pointers
  lead to pairwise disjoint used blocks, these are all used blocks, and \<^verbatim>\<open>_Heap_Walk\<close> finds the heap
  consistent. When it frees all it holds, the heap is the one free block of the initial size again: no
  memory is lost to fragmentation.\<close>
theorem Heap_clients_safe:
  assumes "unat (free_list h) + 32 \<le> unat b \<or> unat b + unat n \<le> unat (free_list h)"
    and "unat pg \<le> 2 ^ 62" "unat b + unat pg + 24 \<le> 2 ^ 64"
    and "Heap_Initialize h b n pg m = (r, h0, m0)" "r \<noteq> 0"
  shows "\<exists>a s ps bs s' fs. run heap_alloc heap_dealloc rs (h0, m0) [] = Some (s, ps)
    \<and> list_all2 (heap_owns s) ps bs \<and> distinct bs \<and> set bs = heap_live s
    \<and> (\<forall>x\<in>set bs. \<forall>y\<in>set bs. x = y \<or> fst x + snd x \<le> fst y \<or> fst y + snd y \<le> fst x)
    \<and> Heap_Walk True (fst s) (snd s) = Some True
    \<and> run heap_alloc heap_dealloc (rs @ replicate (length ps) (Free 0)) (h0, m0) [] = Some (s', [])
    \<and> heap_rep (fst s') (snd s') a [(unat r, False)] fs"
  by (rule heap_clients [OF assms])

theorem Heap_clients_safe_witness:
  "\<exists>s. run heap_alloc heap_dealloc [Alloc (100, 0, 0), Alloc (40, 64, 256), Free 0] (snd ex_init) [] = Some s"
  using Heap_clients_safe [OF ex_area, of 8 ex_memory 984 "fst (snd ex_init)" "snd (snd ex_init)"
      "[Alloc (100, 0, 0), Alloc (40, 64, 256), Free 0]"] ex_init_values
  by (auto simp: ex_init_def prod_eq_iff)

section \<open>Single operations\<close>



text \<open>C6: An allocation without alignment and boundary fails only for lack of memory: it returns null exactly
  if no free block has the requested bytes and eight more.\<close>
theorem Heap_Allocate_complete:
  assumes "heap_rep h m a bs fs"
  shows "\<exists>p h' m'. Heap_Allocate h asz m = Some (p, h', m')
    \<and> (p = 0 \<longleftrightarrow> (\<forall>b\<in>set bs. snd b \<or> fst b < unat asz + 8))"
proof -
  obtain p h' m' where r: "Heap_Allocate_aligned_with_boundary h asz 0 0 m = Some (p, h', m')"
    "p = 0 \<longrightarrow> (\<forall>b\<in>set bs. snd b \<or> fst b < unat asz + 8)"
    "p \<noteq> 0 \<longrightarrow> (\<exists>xs S ys. bs = xs @ (S, False) # ys \<and> suits h (a + szs xs) S (unat asz) (eff_align h 0 0) 0 (unat p))"
    using Heap_Allocate_result [OF assms, of asz 0 0] by metis
  then have "p \<noteq> 0 \<Longrightarrow> \<exists>b\<in>set bs. \<not> snd b \<and> unat asz + 8 \<le> fst b" by (force simp: suits_def)
  then have "p = 0 \<longleftrightarrow> (\<forall>b\<in>set bs. snd b \<or> fst b < unat asz + 8)" using r(2) by (metis not_less)
  then show ?thesis using r(1) by (simp add: Heap_Allocate_def)
qed

theorem Heap_Allocate_complete_witness:
  "\<exists>p h' m'. Heap_Allocate (fst (snd ex_init)) 977 (snd (snd ex_init)) = Some (p, h', m') \<and> p = 0"
  using Heap_Allocate_complete [OF ex_init_rep, of 977] by simp

text \<open>C9: Freeing a pointer into the first page of a used block succeeds, keeps the heap consistent and joins
  the block with its free neighbours; a pointer to a free block (a double free) is refused and changes nothing.\<close>
theorem Heap_Free_effect:
  assumes "heap_rep h m a (xs @ (s, u) # ys) fs"
    and "a + szs xs + 16 \<le> unat p" "unat p < a + szs xs + 16 + unat (page_size h)"
  shows "\<exists>h' m' fs'. Heap_Free h p m = (u, h', m')
    \<and> (if u then heap_rep h' m' a (free_layout xs s ys) fs' else h' = h \<and> m' = m)"
proof (cases u)
  case True
  then show ?thesis using Heap_Free_rep [of h m a xs s ys fs p] assms by auto
next
  case False
  then show ?thesis using Heap_Free_refuses_free [of h m a xs s ys fs p] assms by auto
qed

theorem Heap_Free_effect_witness:
  "\<exists>h' m' fs'. Heap_Free (fst (snd ex_used)) 1016 (snd (snd ex_used)) = (True, h', m') \<and> heap_rep h' m' 1000 [(984, False)] fs'"
proof -
  obtain fs where "heap_rep (fst (snd ex_used)) (snd (snd ex_used)) 1000 ([] @ (120, True) # [(864, False)]) fs"
    using ex_used_rep(1) by auto
  from Heap_Free_effect [OF this, of 1016] ex_used_rep(3) show ?thesis by (auto simp: free_layout_def)
qed

text \<open>C12: \<^verbatim>\<open>_Heap_Initialize\<close> either refuses and changes nothing, or sets up a consistent heap with one free block
  whose size it returns, inside the area given to it.\<close>
theorem Heap_Initialize_effect:
  assumes "unat (free_list h) + 32 \<le> unat b \<or> unat b + unat n \<le> unat (free_list h)"
    and "unat pg \<le> 2 ^ 62" "unat b + unat pg + 24 \<le> 2 ^ 64"
  shows "Heap_Initialize h b n pg m = (0, h, m) \<or>
    (\<exists>a S h' m'. Heap_Initialize h b n pg m = (W S, h', m') \<and> unat b \<le> a \<and> a + S + 16 \<le> unat b + unat n
       \<and> free_list h' = free_list h \<and> page_size h' = real_page pg \<and> heap_rep h' m' a [(S, False)] [W a])"
  by (rule Heap_Initialize_rep [OF assms])

theorem Heap_Initialize_effect_witness:
  "\<exists>a S h' m'. ex_init = (W S, h', m') \<and> 1000 \<le> a \<and> a + S + 16 \<le> 2000 \<and> heap_rep h' m' a [(S, False)] [W a]"
  using Heap_Initialize_effect [OF ex_area, of 8 ex_memory] ex_init_values by (auto simp: ex_init_def)

text \<open>C10: Resizing in place succeeds exactly if the block and a free block behind it hold the new size; then the
  heap stays consistent, the old and the new usable size are reported, and what is not needed becomes a free
  block. Otherwise nothing changes.\<close>
theorem Heap_Resize_effect:
  assumes "heap_rep h m a (xs @ (s, True) # ys) fs" and "next_free ys = (n, zs)"
    and "a + szs xs + 16 \<le> unat p" "unat p < a + szs xs + 16 + unat (page_size h)" "unat p \<le> a + szs xs + s + 8"
    and "A = unat new + (unat p - (a + szs xs + 16))"
  shows "if a + szs xs + s + n + 8 < unat p + unat new
    then Heap_Resize_block h p new m = (HEAP_RESIZE_UNSATISFIED, W (a + szs xs + s + 8 - unat p), 0, h, m)
    else \<exists>h' m' fs'. Heap_Resize_block h p new m = (HEAP_RESIZE_SUCCESSFUL, W (a + szs xs + s + 8 - unat p),
             W (a + szs xs + kept_size h A (s + n) + 8 - unat p), h', m')
           \<and> heap_rep h' m' a (xs @ split_layout h A (s + n) @ zs) fs'
           \<and> unat p + unat new \<le> a + szs xs + kept_size h A (s + n) + 8"
  using Heap_Resize_rep [OF assms(1-5)] Heap_Resize_refused [OF assms(1-5)] assms(6) by (simp add: not_less)

theorem Heap_Resize_effect_witness:
  "\<exists>h' m' fs'. Heap_Resize_block (fst (snd ex_used)) 1016 200 (snd (snd ex_used)) = (HEAP_RESIZE_SUCCESSFUL, 112, 208, h', m')
     \<and> heap_rep h' m' 1000 [(216, True), (768, False)] fs'"
proof -
  obtain fs where "heap_rep (fst (snd ex_used)) (snd (snd ex_used)) 1000 ([] @ (120, True) # [(864, False)]) fs"
    using ex_used_rep(1) by auto
  from Heap_Resize_effect [OF this, of 864 "[]" 1016 200 200] ex_used_rep show ?thesis
    by (simp add: next_free_def kept_size_def split_layout_def splits_def need_def used_part_def align_up_def)
qed



text \<open>C13: The run-time check \<^verbatim>\<open>_Heap_Walk\<close> terminates and accepts every heap that satisfies the invariant.\<close>
theorem Heap_Walk_accepts_consistent:
  assumes "heap_rep h m a bs fs"
  shows "Heap_Walk up h m = Some True"
  by (rule Heap_Walk_accepts [OF assms])

theorem Heap_Walk_accepts_consistent_witness: "Heap_Walk True (fst (snd ex_init)) (snd (snd ex_init)) = Some True"
  by (rule Heap_Walk_accepts_consistent [OF ex_init_rep])

text \<open>C14: The information services agree with the layout: \<^verbatim>\<open>_Heap_Get_information\<close>, which visits all blocks, and
  \<^verbatim>\<open>_Heap_Get_free_information\<close>, which follows the free list, both report the number, the largest and the
  total size of the free blocks; the second as long as the heap has less than 4 GiB.\<close>
theorem Heap_information_exact:
  assumes "heap_rep h m a bs fs" and "szs bs < 2 ^ 32"
  shows "Heap_Get_information h m =
      Some \<lparr>Free_info = summary (free_sizes bs), Used_info = summary (used_sizes bs), Stats_info = stats h\<rparr>
    \<and> Heap_Get_free_information h m = Some (summary (free_sizes bs))"
  using Heap_Get_information_summary [OF assms(1)] Heap_Get_free_information_summary [OF assms] by simp

theorem Heap_information_exact_witness:
  "Heap_Get_free_information (fst (snd ex_init)) (snd (snd ex_init)) = Some (summary [984])"
  using Heap_information_exact [OF ex_init_rep] by (simp add: free_sizes_def)

section \<open>Faults\<close>












end
