(* ===== verification/Priority_Bitmap.thy ===== *)
theory Priority_Bitmap
  imports RTEMS_Prelude
begin

text \<open>
  The priority bit map (\<^verbatim>\<open>score/prioritybitmap.h\<close>, \<^verbatim>\<open>prioritybitmapimpl.h\<close>, \<^verbatim>\<open>log2table.c\<close>) with the
  generic bit field code: a two-level bit map of 256 priorities, the most urgent priority in the
  most significant bit. It is shown to implement a set of priorities with its minimum, and the two
  variants of the bit scan are shown to agree.
\<close>

section \<open>Data and operations\<close>

type_synonym Priority_bit_map_Word = uint16

record Priority_bit_map_Control =
  major_bit_map :: Priority_bit_map_Word
  bit_map :: "Priority_bit_map_Word list"

text \<open>The pointer \<^verbatim>\<open>minor\<close> to a slot of \<^verbatim>\<open>bit_map\<close> is the index of the slot.\<close>

record Priority_bit_map_Information =
  minor :: nat
  ready_major :: Priority_bit_map_Word
  ready_minor :: Priority_bit_map_Word
  block_major :: Priority_bit_map_Word
  block_minor :: Priority_bit_map_Word

definition Bitfield_Leading_zeros :: "uint8 list" where
  "Bitfield_Leading_zeros =
     [7, 7, 6, 6, 5, 5, 5, 5, 4, 4, 4, 4, 4, 4, 4, 4] @ replicate 16 3 @ replicate 32 2 @ replicate 64 1 @ replicate 128 0"

text \<open>The leading zeros of the lowest \<open>n\<close> bits; \<^verbatim>\<open>__builtin_clz\<close> counts those of the 32 bits of an \<^verbatim>\<open>int\<close>.\<close>

primrec clz_from :: "nat \<Rightarrow> uint32 \<Rightarrow> nat" where
  "clz_from 0 w = 0"
| "clz_from (Suc n) w = (if bit w n then 0 else Suc (clz_from n w))"

definition builtin_clz :: "uint32 \<Rightarrow> uint32" where
  "builtin_clz v = of_nat (clz_from 32 v)"

definition Bitfield_Find_first_bit :: "uint32 \<Rightarrow> uint32" where
  "Bitfield_Find_first_bit v = builtin_clz v - 32 + 16"

definition Bitfield_Find_first_bit_table :: "uint32 \<Rightarrow> uint32" where
  "Bitfield_Find_first_bit_table v =
     (if v < 0x100 then ucast (Bitfield_Leading_zeros ! unat v) + 8
      else ucast (Bitfield_Leading_zeros ! unat (drop_bit 8 v)))"

definition Priority_Mask :: "uint32 \<Rightarrow> Priority_bit_map_Word" where
  "Priority_Mask bit_number = ucast (drop_bit (unat bit_number) (0x8000 :: uint32))"

definition Priority_Bits_index :: "uint32 \<Rightarrow> uint32" where
  "Priority_Bits_index bit_number = bit_number"

definition Priority_Major :: "uint32 \<Rightarrow> uint32" where
  "Priority_Major the_priority = the_priority div 16"

definition Priority_Minor :: "uint32 \<Rightarrow> uint32" where
  "Priority_Minor the_priority = the_priority mod 16"

definition Priority_bit_map_Initialize :: Priority_bit_map_Control where
  "Priority_bit_map_Initialize = \<lparr>major_bit_map = 0, bit_map = replicate 16 0\<rparr>"

definition Priority_bit_map_Add ::
    "Priority_bit_map_Information \<Rightarrow> Priority_bit_map_Control \<Rightarrow> Priority_bit_map_Control" where
  "Priority_bit_map_Add info bm =
     (let bm = bm\<lparr>bit_map := (bit_map bm)[minor info := bit_map bm ! minor info OR ready_minor info]\<rparr>
      in bm\<lparr>major_bit_map := major_bit_map bm OR ready_major info\<rparr>)"

definition Priority_bit_map_Remove ::
    "Priority_bit_map_Information \<Rightarrow> Priority_bit_map_Control \<Rightarrow> Priority_bit_map_Control" where
  "Priority_bit_map_Remove info bm =
     (let bm = bm\<lparr>bit_map := (bit_map bm)[minor info := bit_map bm ! minor info AND block_minor info]\<rparr>
      in if bit_map bm ! minor info = 0 then bm\<lparr>major_bit_map := major_bit_map bm AND block_major info\<rparr> else bm)"

definition Priority_bit_map_Get_highest :: "Priority_bit_map_Control \<Rightarrow> uint32" where
  "Priority_bit_map_Get_highest bm =
     (let major = Bitfield_Find_first_bit (ucast (major_bit_map bm));
          minor = Bitfield_Find_first_bit (ucast (bit_map bm ! unat major))
      in push_bit 4 (Priority_Bits_index major) + Priority_Bits_index minor)"

definition Priority_bit_map_Is_empty :: "Priority_bit_map_Control \<Rightarrow> bool" where
  "Priority_bit_map_Is_empty bm \<longleftrightarrow> major_bit_map bm = 0"

definition Priority_bit_map_Initialize_information :: "uint32 \<Rightarrow> Priority_bit_map_Information" where
  "Priority_bit_map_Initialize_information new_priority =
     (let major = Priority_Major new_priority;
          minor = Priority_Minor new_priority;
          mask_major = Priority_Mask major;
          mask_minor = Priority_Mask minor
      in \<lparr>minor = unat (Priority_Bits_index major),
          ready_major = mask_major, ready_minor = mask_minor,
          block_major = NOT mask_major, block_minor = NOT mask_minor\<rparr>)"

section \<open>The bit scan\<close>

lemma clz_from_le: "clz_from n w \<le> n"
  by (induction n) auto

lemma clz_from_zero: "j < clz_from n w \<Longrightarrow> \<not> bit w (n - 1 - j)"
proof (induction n arbitrary: j)
  case (Suc n)
  then show ?case by (cases j) (auto split: if_splits)
qed simp

lemma clz_from_bit: "clz_from n w < n \<Longrightarrow> bit w (n - 1 - clz_from n w)"
  by (induction n) auto

lemma clz_from_unique:
  assumes "c < n" and "bit w (n - 1 - c)" and "\<And>j. j < c \<Longrightarrow> \<not> bit w (n - 1 - j)"
  shows "clz_from n w = c"
proof (rule antisym)
  show "clz_from n w \<le> c" using clz_from_zero [of c n w] assms(2) by (meson not_less)
  then have "clz_from n w < n" using assms(1) by simp
  then show "c \<le> clz_from n w" using clz_from_bit [of n w] assms(3) by (meson not_less)
qed

text \<open>In a nonzero word of 16 bits the scan finds the index of the first bit set, from the top.\<close>

definition first_index :: "uint16 \<Rightarrow> nat \<Rightarrow> bool" where
  "first_index v i \<longleftrightarrow> i < 16 \<and> bit v (15 - i) \<and> (\<forall>j<i. \<not> bit v (15 - j))"

lemma first_index_unique: "first_index v i \<Longrightarrow> first_index v j \<Longrightarrow> i = j"
  unfolding first_index_def by (meson nat_neq_iff)

lemma clz_ucast:
  assumes "v \<noteq> 0"
  shows "\<exists>i. clz_from 32 (ucast (v :: uint16)) = 16 + i \<and> first_index v i"
proof -
  let ?w = "ucast v :: uint32" and ?c = "clz_from 32 (ucast v :: uint32)"
  have b: "bit ?w k \<longleftrightarrow> bit v k" for k by (auto simp: bit_simps dest: bit_imp_le_length)
  obtain k where k: "bit v k" using assms by (auto simp: bit_eq_iff)
  then have "k < 16" using bit_imp_le_length [of v k] by simp
  have lt: "?c < 32"
  proof (rule ccontr)
    assume "\<not> ?c < 32"
    then have "\<not> bit ?w (32 - 1 - (31 - k))" by (intro clz_from_zero) simp
    then show False using k \<open>k < 16\<close> b by simp
  qed
  then have c: "bit v (31 - ?c)" using clz_from_bit [of 32 ?w] b by simp
  then have "31 - ?c < 16" using bit_imp_le_length [of v "31 - ?c"] by simp
  then obtain i where i: "?c = 16 + i" using nat_le_iff_add [of 16 ?c] by auto
  have "\<not> bit v (15 - j)" if "j < i" for j using clz_from_zero [of "16 + j" 32 ?w] b that i by simp
  moreover have "bit v (15 - i)" using c i by simp
  ultimately show ?thesis using i lt by (auto simp: first_index_def)
qed

lemma Bitfield_Find_first_bit_index:
  assumes "v \<noteq> 0"
  shows "first_index v (unat (Bitfield_Find_first_bit (ucast v)))"
proof -
  obtain i where i: "clz_from 32 (ucast v) = 16 + i" "first_index v i" using clz_ucast [OF assms] by blast
  then have "Bitfield_Find_first_bit (ucast v) = of_nat i" by (simp add: Bitfield_Find_first_bit_def builtin_clz_def)
  moreover have "i < 2 ^ 32" using i(2) by (simp add: first_index_def)
  ultimately show ?thesis using i(2) unat_of_nat_small [of i, where 'a = 32] by simp
qed

lemma bit_imp_ge:
  assumes "bit (w :: 'a::len word) k"
  shows "2 ^ k \<le> unat w"
proof (rule ccontr)
  assume "\<not> 2 ^ k \<le> unat w"
  then have "\<not> bit (unat w) k" by (simp add: bit_iff_odd)
  then show False using assms bit_imp_le_length [OF assms] by (simp add: bit_unsigned_iff)
qed

lemma table_entries: "\<forall>n\<in>set [1..<256]. unat (Bitfield_Leading_zeros ! n) = clz_from 8 (of_nat n)"
  by code_simp

lemma clz_from_shift:
  assumes "w \<noteq> 0" and "\<And>k. bit w k \<Longrightarrow> k < 8 + s" and "\<exists>k. bit w (s + k)" and "n = 8 + s + z"
  shows "clz_from n w = z + clz_from 8 (drop_bit s w)"
proof -
  let ?d = "drop_bit s w" and ?c = "clz_from 8 (drop_bit s w)"
  have b: "bit ?d k \<longleftrightarrow> bit w (s + k)" for k by (simp add: bit_simps)
  obtain k where k: "bit ?d k" using assms(3) b by blast
  have k8: "k < 8" using assms(2) [of "s + k"] k b by simp
  have lt: "?c < 8"
  proof (rule ccontr)
    assume "\<not> ?c < 8"
    then have "\<not> bit ?d (8 - 1 - (7 - k))" by (intro clz_from_zero) simp
    then show False using k k8 by simp
  qed
  show ?thesis
  proof (rule clz_from_unique)
    show "z + ?c < n" using lt assms(4) by simp
    have "n - 1 - (z + ?c) = s + (8 - 1 - ?c)" using assms(4) lt by simp
    then show "bit w (n - 1 - (z + ?c))" using clz_from_bit [OF lt] b by simp
    fix j assume j: "j < z + ?c"
    show "\<not> bit w (n - 1 - j)"
    proof (cases "j < z")
      case True
      then show ?thesis using assms(2) [of "n - 1 - j"] assms(4) by auto
    next
      case False
      then have "n - 1 - j = s + (8 - 1 - (j - z))" using j lt assms(4) by simp
      moreover have "\<not> bit ?d (8 - 1 - (j - z))" using j False by (intro clz_from_zero) simp
      ultimately show ?thesis using b by simp
    qed
  qed
qed

lemma table_entry:
  assumes "w \<noteq> 0" and "unat w < 256"
  shows "(ucast (Bitfield_Leading_zeros ! unat w) :: uint32) = of_nat (clz_from 8 w)"
proof -
  have "unat w \<in> set [1..<256]" using assms by (simp add: Suc_le_eq unat_gt_0)
  then have "unat (Bitfield_Leading_zeros ! unat w) = clz_from 8 w"
    using table_entries by (metis of_nat_unat_id)
  then show ?thesis by (metis of_nat_unat)
qed

lemma Bitfield_Find_first_bit_equiv:
  assumes "v \<noteq> 0"
  shows "Bitfield_Find_first_bit_table (ucast (v :: uint16)) = Bitfield_Find_first_bit (ucast v)"
proof -
  let ?w = "ucast v :: uint32"
  have u: "unat ?w = unat v" by (rule unat_ucast_up) simp
  have v: "unat v < 2 ^ 16" using unat_lt2p [of v] by simp
  have nz: "?w \<noteq> 0" using assms u by (metis unat_0 unat_eq_zero)
  show ?thesis
  proof (cases "?w < 0x100")
    case True
    then have s: "unat ?w < 256" by (simp add: word_less_nat_alt)
    have "k < 8" if "bit ?w k" for k
    proof -
      have "(2 :: nat) ^ k < 2 ^ 8" using bit_imp_ge [OF that] s by simp
      then show ?thesis using power_less_imp_less_exp [of "2 :: nat" k 8] by simp
    qed
    moreover have "\<exists>k. bit ?w k" using nz by (auto simp: bit_eq_iff)
    ultimately have "clz_from 32 ?w = 24 + clz_from 8 ?w" using clz_from_shift [of ?w 0 32 24] nz by simp
    then show ?thesis using True table_entry [OF nz s]
      by (simp add: Bitfield_Find_first_bit_table_def Bitfield_Find_first_bit_def builtin_clz_def)
  next
    case False
    then have s: "256 \<le> unat ?w" by (simp add: word_less_nat_alt)
    let ?d = "drop_bit 8 ?w"
    have ud: "unat ?d = unat ?w div 256" by (simp add: drop_bit_eq_div unat_div_distrib)
    have d: "unat ?d < 256" "?d \<noteq> 0"
    proof -
      show "unat ?d < 256" using ud u v by simp
      have "0 < unat ?d" using ud s by simp
      then show "?d \<noteq> 0" by auto
    qed
    have "k < 16" if "bit ?w k" for k using that by (auto simp: bit_simps dest: bit_imp_le_length)
    moreover have "\<exists>k. bit ?w (8 + k)" using d(2) by (auto simp: bit_eq_iff bit_simps)
    ultimately have "clz_from 32 ?w = 16 + clz_from 8 ?d" using clz_from_shift [of ?w 8 32 16] nz by simp
    then show ?thesis using False table_entry [OF d(2,1)]
      by (simp add: Bitfield_Find_first_bit_table_def Bitfield_Find_first_bit_def builtin_clz_def)
  qed
qed

section \<open>The bit map as a set of priorities\<close>

definition bm_rep :: "Priority_bit_map_Control \<Rightarrow> nat set \<Rightarrow> bool" where
  "bm_rep bm P \<longleftrightarrow> length (bit_map bm) = 16 \<and> P \<subseteq> {..<256}
     \<and> (\<forall>i<16. \<forall>j<16. bit (bit_map bm ! i) (15 - j) \<longleftrightarrow> 16 * i + j \<in> P)
     \<and> (\<forall>i<16. bit (major_bit_map bm) (15 - i) \<longleftrightarrow> bit_map bm ! i \<noteq> 0)"

lemma bm_repD:
  assumes "bm_rep bm P"
  shows "length (bit_map bm) = 16" "P \<subseteq> {..<256}"
    "\<And>i j. i < 16 \<Longrightarrow> j < 16 \<Longrightarrow> bit (bit_map bm ! i) (15 - j) \<longleftrightarrow> 16 * i + j \<in> P"
    "\<And>i. i < 16 \<Longrightarrow> bit (major_bit_map bm) (15 - i) \<longleftrightarrow> bit_map bm ! i \<noteq> 0"
  using assms unfolding bm_rep_def by blast+

lemma word16_zero_iff: "(w :: uint16) = 0 \<longleftrightarrow> (\<forall>j<16. \<not> bit w (15 - j))"
proof
  assume z: "\<forall>j<16. \<not> bit w (15 - j)"
  have "\<not> bit w k" for k
  proof (cases "k < 16")
    case True
    then show ?thesis using z [rule_format, of "15 - k"] by simp
  qed (use bit_imp_le_length [of w k] in auto)
  then show "w = 0" by (auto simp: bit_eq_iff)
qed simp

lemma bit_Priority_Mask:
  assumes "n < 16" and "j < 16"
  shows "bit (Priority_Mask (of_nat n)) (15 - j) \<longleftrightarrow> j = n"
proof -
  have "unat (of_nat n :: uint32) = n" using assms(1) by (intro unat_of_nat_small) simp
  moreover have "bit (0x8000 :: uint32) k \<longleftrightarrow> k = 15" for k
  proof -
    have "(0x8000 :: uint32) = push_bit 15 1" by simp
    then show ?thesis by (simp only: bit_push_bit_iff) (auto simp: bit_1_iff)
  qed
  moreover have "15 - j < 16" by simp
  ultimately have "bit (Priority_Mask (of_nat n)) (15 - j) \<longleftrightarrow> n + (15 - j) = 15"
    by (simp add: Priority_Mask_def bit_unsigned_iff bit_drop_bit_eq)
  then show ?thesis using assms by linarith
qed

definition info_of :: "nat \<Rightarrow> Priority_bit_map_Information" where
  "info_of p = Priority_bit_map_Initialize_information (of_nat p)"

lemma info_of_fields:
  assumes "p < 256"
  shows "minor (info_of p) = p div 16"
    and "\<And>j. j < 16 \<Longrightarrow> bit (ready_major (info_of p)) (15 - j) \<longleftrightarrow> j = p div 16"
    and "\<And>j. j < 16 \<Longrightarrow> bit (ready_minor (info_of p)) (15 - j) \<longleftrightarrow> j = p mod 16"
    and "block_major (info_of p) = NOT (ready_major (info_of p))"
    and "block_minor (info_of p) = NOT (ready_minor (info_of p))"
proof -
  have d: "(of_nat p :: uint32) div 16 = of_nat (p div 16)" "(of_nat p :: uint32) mod 16 = of_nat (p mod 16)"
    using of_nat_div_word [of p 16, where 'a = 32] of_nat_mod_word [of p 16, where 'a = 32] assms by simp_all
  have u: "unat (of_nat (p div 16) :: uint32) = p div 16" using assms by (intro unat_of_nat_small) simp
  note defs = info_of_def Priority_bit_map_Initialize_information_def Priority_Major_def Priority_Minor_def
    Priority_Bits_index_def Let_def
  show "minor (info_of p) = p div 16" using d u by (simp add: defs)
  show "bit (ready_major (info_of p)) (15 - j) \<longleftrightarrow> j = p div 16" if "j < 16" for j
    using d assms that by (simp add: defs bit_Priority_Mask)
  show "bit (ready_minor (info_of p)) (15 - j) \<longleftrightarrow> j = p mod 16" if "j < 16" for j
    using d assms that by (simp add: defs bit_Priority_Mask)
  show "block_major (info_of p) = NOT (ready_major (info_of p))" "block_minor (info_of p) = NOT (ready_minor (info_of p))"
    by (simp_all add: defs)
qed

lemma slot_iff: "j < 16 \<Longrightarrow> 16 * i + j = p \<longleftrightarrow> i = p div 16 \<and> j = p mod (16 :: nat)"
  using mult_div_mod_eq [of 16 p] by auto

lemma bm_rep_empty: "bm_rep Priority_bit_map_Initialize {}"
  by (simp add: bm_rep_def Priority_bit_map_Initialize_def)

lemma bm_rep_Add:
  assumes rep: "bm_rep bm P" and p: "p < 256"
  shows "bm_rep (Priority_bit_map_Add (info_of p) bm) (insert p P)"
proof -
  note D = bm_repD [OF rep] and I = info_of_fields [OF p]
  let ?b = "Priority_bit_map_Add (info_of p) bm"
  have i: "p div 16 < 16" using p by simp
  have slot: "bit_map ?b ! k = (if k = p div 16 then bit_map bm ! k OR ready_minor (info_of p) else bit_map bm ! k)" if "k < 16" for k
    using that D(1) I(1) i by (simp add: Priority_bit_map_Add_def Let_def nth_list_update)
  have maj: "major_bit_map ?b = major_bit_map bm OR ready_major (info_of p)"
    by (simp add: Priority_bit_map_Add_def Let_def)
  have nz: "bit_map ?b ! (p div 16) \<noteq> 0"
  proof -
    have "bit (bit_map ?b ! (p div 16)) (15 - p mod 16)" using slot [OF i] I(3) [of "p mod 16"] by (simp add: bit_or_iff)
    then show ?thesis by auto
  qed
  show ?thesis unfolding bm_rep_def
  proof (intro conjI allI impI)
    show "length (bit_map ?b) = 16" using D(1) by (simp add: Priority_bit_map_Add_def Let_def)
    show "insert p P \<subseteq> {..<256}" using D(2) p by simp
    show "bit (bit_map ?b ! k) (15 - j) \<longleftrightarrow> 16 * k + j \<in> insert p P" if "k < 16" "j < 16" for k j
      using slot [OF that(1)] D(3) [OF that] I(3) [OF that(2)] slot_iff [OF that(2), of k p] by (auto simp: bit_or_iff)
    show "bit (major_bit_map ?b) (15 - k) \<longleftrightarrow> bit_map ?b ! k \<noteq> 0" if "k < 16" for k
      using slot [OF that] maj D(4) [OF that] I(2) [OF that] nz by (auto simp: bit_or_iff)
  qed
qed

lemma bm_rep_Remove:
  assumes rep: "bm_rep bm P" and p: "p < 256"
  shows "bm_rep (Priority_bit_map_Remove (info_of p) bm) (P - {p})"
proof -
  note D = bm_repD [OF rep] and I = info_of_fields [OF p]
  let ?b = "Priority_bit_map_Remove (info_of p) bm"
  have i: "p div 16 < 16" using p by simp
  have slot: "bit_map ?b ! k = (if k = p div 16 then bit_map bm ! k AND block_minor (info_of p) else bit_map bm ! k)" if "k < 16" for k
    using that D(1) I(1) i by (simp add: Priority_bit_map_Remove_def Let_def nth_list_update)
  have maj: "major_bit_map ?b = (if bit_map ?b ! (p div 16) = 0 then major_bit_map bm AND block_major (info_of p) else major_bit_map bm)"
    using D(1) I(1) by (simp add: Priority_bit_map_Remove_def Let_def)
  show ?thesis unfolding bm_rep_def
  proof (intro conjI allI impI)
    show "length (bit_map ?b) = 16" using D(1) by (simp add: Priority_bit_map_Remove_def Let_def)
    show "P - {p} \<subseteq> {..<256}" using D(2) by auto
    show bits: "bit (bit_map ?b ! k) (15 - j) \<longleftrightarrow> 16 * k + j \<in> P - {p}" if "k < 16" "j < 16" for k j
      using slot [OF that(1)] D(3) [OF that] I(3) [OF that(2)] slot_iff [OF that(2), of k p] I(5)
      by (auto simp: bit_and_iff bit_not_iff)
    show "bit (major_bit_map ?b) (15 - k) \<longleftrightarrow> bit_map ?b ! k \<noteq> 0" if k: "k < 16" for k
    proof (cases "k = p div 16")
      case False
      then show ?thesis using slot [OF k] maj D(4) [OF k] I(2) [OF k] I(4) by (auto simp: bit_and_iff bit_not_iff)
    next
      case True
      have "bit_map ?b ! k \<noteq> 0 \<Longrightarrow> bit_map bm ! k \<noteq> 0" using slot [OF k] True by auto
      then show ?thesis using True maj D(4) [OF k] I(2) [OF k] I(4) by (auto simp: bit_and_iff bit_not_iff)
    qed
  qed
qed

lemma bm_rep_Is_empty:
  assumes "bm_rep bm P"
  shows "Priority_bit_map_Is_empty bm \<longleftrightarrow> P = {}"
proof -
  note D = bm_repD [OF assms]
  have "P = {} \<longleftrightarrow> (\<forall>i<16. bit_map bm ! i = 0)"
  proof
    assume "\<forall>i<16. bit_map bm ! i = 0"
    then have "16 * i + j \<notin> P" if "i < 16" "j < 16" for i j using D(3) [OF that] that(1) by simp
    from this [of "p div 16" "p mod 16" for p] have "p \<notin> P" if "p < 256" for p using that by simp
    then show "P = {}" using D(2) by auto
  qed (use D(3) in \<open>simp add: word16_zero_iff\<close>)
  also have "\<dots> \<longleftrightarrow> major_bit_map bm = 0" using D(4) by (subst word16_zero_iff) blast
  finally show ?thesis by (simp add: Priority_bit_map_Is_empty_def)
qed

lemma bm_rep_Get_highest:
  assumes rep: "bm_rep bm P" and ne: "P \<noteq> {}"
  shows "unat (Priority_bit_map_Get_highest bm) \<in> P" "\<And>q. q \<in> P \<Longrightarrow> unat (Priority_bit_map_Get_highest bm) \<le> q"
proof -
  note D = bm_repD [OF rep]
  define i where "i = unat (Bitfield_Find_first_bit (ucast (major_bit_map bm)))"
  define j where "j = unat (Bitfield_Find_first_bit (ucast (bit_map bm ! i)))"
  have "major_bit_map bm \<noteq> 0" using bm_rep_Is_empty [OF rep] ne by (simp add: Priority_bit_map_Is_empty_def)
  then have i: "first_index (major_bit_map bm) i" unfolding i_def by (rule Bitfield_Find_first_bit_index)
  then have i16: "i < 16" and nz: "bit_map bm ! i \<noteq> 0" using D(4) [of i] by (auto simp: first_index_def)
  have j: "first_index (bit_map bm ! i) j" unfolding j_def using nz by (rule Bitfield_Find_first_bit_index)
  then have j16: "j < 16" and mem: "16 * i + j \<in> P" using D(3) [OF i16, of j] by (auto simp: first_index_def)
  have "Priority_bit_map_Get_highest bm = of_nat (16 * i + j)"
    by (simp add: Priority_bit_map_Get_highest_def Let_def Priority_Bits_index_def push_bit_eq_mult i_def j_def)
  moreover have "unat (of_nat (16 * i + j) :: uint32) = 16 * i + j" using i16 j16 by (intro unat_of_nat_small) simp
  ultimately have h: "unat (Priority_bit_map_Get_highest bm) = 16 * i + j" by simp
  show "unat (Priority_bit_map_Get_highest bm) \<in> P" using h mem by simp
  fix q assume q: "q \<in> P"
  have q256: "q < 256" using D(2) q by auto
  define k l where kl: "k = q div 16" "l = q mod 16"
  have k: "k < 16" "l < 16" "16 * k + l = q" using q256 by (auto simp: kl)
  have b: "bit (bit_map bm ! k) (15 - l)" using D(3) [OF k(1,2)] q k(3) by simp
  then have "bit (major_bit_map bm) (15 - k)" using D(4) [OF k(1)] by auto
  then have "i \<le> k" using i by (meson first_index_def not_less)
  moreover have "j \<le> l" if "i = k" using j b that by (metis first_index_def not_less)
  ultimately have "16 * i + j \<le> 16 * k + l" using j16 by (cases "i = k") auto
  then show "unat (Priority_bit_map_Get_highest bm) \<le> q" using h k(3) by linarith
qed

end
