(* ===== verification/Scheduler.thy ===== *)
theory Scheduler
  imports Chain Priority_Bitmap
begin

text \<open>
  What the uniprocessor schedulers of \<^verbatim>\<open>score/src/scheduler*.c\<close> have in common: the thread data they
  use, \<^verbatim>\<open>_Scheduler_Update_heir\<close> and \<^verbatim>\<open>_Scheduler_Generic_block\<close> of \<^verbatim>\<open>schedulerimpl.h\<close>, the node
  routines of \<^verbatim>\<open>schedulernodeimpl.h\<close>, and the contract of a priority scheduler as a locale: its ready
  threads are a list ordered by priority, first in first out within a priority, and the heir is
  the first of them. Bookkeeping of processor time is left out.
\<close>

section \<open>Threads and the processor\<close>

record Scheduler_priority_Ready_queue =
  current_priority :: uint32
  ready_chain :: uintptr
  Priority_map :: Priority_bit_map_Information

text \<open>
  The parts of a thread control the schedulers use: \<^verbatim>\<open>Priority.value\<close> and \<^verbatim>\<open>prepend_it\<close> of its home
  scheduler node, the aggregated priority \<^verbatim>\<open>Wait.Priority.Node.priority\<close>, and for the deterministic
  priority scheduler the \<^verbatim>\<open>Ready_queue\<close> of the node. A thread and its chain node have the same address.
\<close>

record Thread_Control =
  priority_value :: uint64
  prepend_it :: bool
  wait_priority :: uint64
  is_preemptible :: bool
  current_state :: uint32
  Ready_queue :: Scheduler_priority_Ready_queue

record sched =
  chains :: chain_mem
  threads :: "uintptr \<Rightarrow> Thread_Control"
  heir :: uintptr
  executing :: uintptr
  dispatch_necessary :: bool

definition Thread_Is_ready :: "Thread_Control \<Rightarrow> bool" where
  "Thread_Is_ready the_thread \<longleftrightarrow> current_state the_thread = 0"

definition Thread_Get_priority :: "Thread_Control \<Rightarrow> uint64" where
  "Thread_Get_priority the_thread = wait_priority the_thread"

definition Scheduler_Node_get_priority :: "Thread_Control \<Rightarrow> uint64 \<times> bool" where
  "Scheduler_Node_get_priority the_thread = (priority_value the_thread, prepend_it the_thread)"

definition Scheduler_Node_set_priority :: "uint64 \<Rightarrow> bool \<Rightarrow> Thread_Control \<Rightarrow> Thread_Control" where
  "Scheduler_Node_set_priority new_priority prepend the_thread =
     the_thread\<lparr>priority_value := new_priority, prepend_it := prepend\<rparr>"

definition Scheduler_Update_heir :: "uintptr \<Rightarrow> bool \<Rightarrow> 'a sched_scheme \<Rightarrow> 'a sched_scheme" where
  "Scheduler_Update_heir new_heir force_dispatch s =
     (if heir s \<noteq> new_heir \<and> (is_preemptible (threads s (heir s)) \<or> force_dispatch)
      then s\<lparr>heir := new_heir, dispatch_necessary := True\<rparr> else s)"

text \<open>
  An operation of a scheduler works on the thread at an address. The ordered insertion of the simple
  scheduler is a loop, so an operation has an optional result.
\<close>

type_synonym 'a sched_fun = "uintptr \<Rightarrow> 'a sched_scheme \<Rightarrow> 'a sched_scheme option"

definition Scheduler_Generic_block ::
    "(uintptr \<Rightarrow> 'a sched_scheme \<Rightarrow> 'a sched_scheme) \<Rightarrow> (bool \<Rightarrow> 'a sched_scheme \<Rightarrow> 'a sched_scheme) \<Rightarrow> 'a sched_fun" where
  "Scheduler_Generic_block extract schedule the_thread s =
     (let s = extract the_thread s
      in Some (if the_thread = executing s \<or> the_thread = heir s then schedule True s else s))"

text \<open>
  A change of the priority of a thread: the aggregated priority changes, then
  \<^verbatim>\<open>_Thread_Set_scheduler_node_priority\<close> passes it to the node, then the scheduler's
  \<^verbatim>\<open>update_priority\<close> operation runs.
\<close>

definition Thread_Set_scheduler_node_priority :: "bool \<Rightarrow> Thread_Control \<Rightarrow> Thread_Control" where
  "Thread_Set_scheduler_node_priority prepend the_thread =
     Scheduler_Node_set_priority (wait_priority the_thread) prepend the_thread"

definition with_priority :: "uint64 \<Rightarrow> bool \<Rightarrow> Thread_Control \<Rightarrow> Thread_Control" where
  "with_priority new_priority prepend the_thread =
     Thread_Set_scheduler_node_priority prepend (the_thread\<lparr>wait_priority := new_priority\<rparr>)"

lemma with_priority_fields:
  "priority_value (with_priority q b th) = q" "wait_priority (with_priority q b th) = q" "prepend_it (with_priority q b th) = b"
  "is_preemptible (with_priority q b th) = is_preemptible th" "current_state (with_priority q b th) = current_state th"
  "Ready_queue (with_priority q b th) = Ready_queue th"
  by (simp_all add: with_priority_def Thread_Set_scheduler_node_priority_def Scheduler_Node_set_priority_def)

definition change_priority :: "'a sched_fun \<Rightarrow> uintptr \<Rightarrow> nat \<Rightarrow> bool \<Rightarrow> 'a sched_scheme \<Rightarrow> 'a sched_scheme option" where
  "change_priority update_priority t q prepend s =
     update_priority t (s\<lparr>threads := (threads s)(t := with_priority (of_nat q) prepend (threads s t))\<rparr>)"

section \<open>Lists ordered by priority\<close>

definition insert_fifo :: "(uintptr \<Rightarrow> nat) \<Rightarrow> uintptr \<Rightarrow> uintptr list \<Rightarrow> uintptr list" where
  "insert_fifo pr t xs = takeWhile (\<lambda>x. pr x \<le> pr t) xs @ t # dropWhile (\<lambda>x. pr x \<le> pr t) xs"

definition insert_lifo :: "(uintptr \<Rightarrow> nat) \<Rightarrow> uintptr \<Rightarrow> uintptr list \<Rightarrow> uintptr list" where
  "insert_lifo pr t xs = takeWhile (\<lambda>x. pr x < pr t) xs @ t # dropWhile (\<lambda>x. pr x < pr t) xs"

lemma takeWhile_split: "(\<And>x. x \<in> set A \<Longrightarrow> P x) \<Longrightarrow> (B = [] \<or> \<not> P (hd B)) \<Longrightarrow> takeWhile P (A @ B) = A \<and> dropWhile P (A @ B) = B"
  by (induction A) (auto, (cases B; simp)+)

lemma insert_fifo_split:
  assumes "\<And>x. x \<in> set A \<Longrightarrow> pr x \<le> pr t" and "\<And>x. x \<in> set B \<Longrightarrow> pr t < pr x"
  shows "insert_fifo pr t (A @ B) = A @ t # B"
proof -
  have "B = [] \<or> \<not> pr (hd B) \<le> pr t" using assms(2) by (cases B) (simp, fastforce)
  then show ?thesis using takeWhile_split [of A "\<lambda>x. pr x \<le> pr t" B] assms(1) by (simp add: insert_fifo_def)
qed

lemma insert_lifo_split:
  assumes "\<And>x. x \<in> set A \<Longrightarrow> pr x < pr t" and "\<And>x. x \<in> set B \<Longrightarrow> pr t \<le> pr x"
  shows "insert_lifo pr t (A @ B) = A @ t # B"
proof -
  have "B = [] \<or> \<not> pr (hd B) < pr t" using assms(2) by (cases B) (simp, fastforce)
  then show ?thesis using takeWhile_split [of A "\<lambda>x. pr x < pr t" B] assms(1) by (simp add: insert_lifo_def)
qed

lemma insert_set [simp]: "set (insert_fifo pr t xs) = insert t (set xs)" "set (insert_lifo pr t xs) = insert t (set xs)"
proof -
  show "set (insert_fifo pr t xs) = insert t (set xs)" unfolding insert_fifo_def
    using takeWhile_dropWhile_id [of "\<lambda>x. pr x \<le> pr t" xs] by (metis Un_insert_right list.simps(15) set_append)
  show "set (insert_lifo pr t xs) = insert t (set xs)" unfolding insert_lifo_def
    using takeWhile_dropWhile_id [of "\<lambda>x. pr x < pr t" xs] by (metis Un_insert_right list.simps(15) set_append)
qed

lemma hd_insert_fifo:
  assumes "sorted (map pr xs)" and "xs \<noteq> []"
  shows "hd (insert_fifo pr t xs) = (if pr t < pr (hd xs) then t else hd xs)"
  using assms by (cases xs) (auto simp: insert_fifo_def)

lemma sorted_insert_fifo: "sorted (map pr xs) \<Longrightarrow> sorted (map pr (insert_fifo pr t xs))"
proof (induction xs)
  case (Cons x xs)
  then show ?case using set_takeWhileD [of _ "\<lambda>x. pr x \<le> pr t" xs] set_dropWhileD [of _ "\<lambda>x. pr x \<le> pr t" xs]
    by (auto simp: insert_fifo_def)
qed (simp add: insert_fifo_def)

lemma sorted_insert_lifo: "sorted (map pr xs) \<Longrightarrow> sorted (map pr (insert_lifo pr t xs))"
proof (induction xs)
  case (Cons x xs)
  then show ?case using set_takeWhileD [of _ "\<lambda>x. pr x < pr t" xs] set_dropWhileD [of _ "\<lambda>x. pr x < pr t" xs]
    by (auto simp: insert_lifo_def)
qed (simp add: insert_lifo_def)

lemma sorted_remove1: "sorted (map pr xs) \<Longrightarrow> sorted (map pr (remove1 t xs))"
  by (induction xs) (auto dest: set_remove1_subset [THEN subsetD])

lemma map_upd_other: "distinct xs \<Longrightarrow> map (pr(t := q)) (remove1 t xs) = map pr (remove1 t xs)"
  by (auto simp: map_eq_conv)

lemma distinct_insert_mid: "distinct (A @ t # B) \<longleftrightarrow> distinct (A @ B) \<and> t \<notin> set (A @ B)"
  by auto

lemma insert_distinct:
  "distinct (insert_fifo pr t xs) \<longleftrightarrow> distinct xs \<and> t \<notin> set xs"
  "distinct (insert_lifo pr t xs) \<longleftrightarrow> distinct xs \<and> t \<notin> set xs"
  unfolding insert_fifo_def insert_lifo_def
  by (simp_all only: distinct_insert_mid takeWhile_dropWhile_id)

section \<open>Threads in memory\<close>

text \<open>The priorities recorded in the threads are \<open>pr\<close>.\<close>

definition priorities_ok :: "uintptr set \<Rightarrow> nat \<Rightarrow> 'a sched_scheme \<Rightarrow> (uintptr \<Rightarrow> nat) \<Rightarrow> bool" where
  "priorities_ok pool limit s pr \<longleftrightarrow>
     (\<forall>t\<in>pool. pr t < limit \<and> wait_priority (threads s t) = of_nat (pr t) \<and> priority_value (threads s t) = of_nat (pr t))"

lemma priorities_ok_upd:
  assumes "priorities_ok pool limit s pr" and "q < limit"
  shows "priorities_ok pool limit (s\<lparr>threads := (threads s)(t := with_priority (of_nat q) b (threads s t))\<rparr>) (pr(t := q))"
  using assms by (simp add: priorities_ok_def with_priority_fields)

lemma of_nat_less_64: "a < 2 ^ 64 \<Longrightarrow> b < 2 ^ 64 \<Longrightarrow> ((of_nat a :: uint64) < of_nat b) = (a < b)"
  by (simp add: word_less_nat_alt unat_of_nat)

lemma of_nat_le_64: "a < 2 ^ 64 \<Longrightarrow> b < 2 ^ 64 \<Longrightarrow> ((of_nat a :: uint64) \<le> of_nat b) = (a \<le> b)"
  by (simp add: word_le_nat_alt unat_of_nat)

lemma of_nat_0_64: "a < 2 ^ 64 \<Longrightarrow> ((of_nat a :: uint64) = 0) = (a = 0)"
  using of_nat_le_64 [of a 0] by simp

lemma Scheduler_Update_heir_simps:
  "threads (Scheduler_Update_heir h f s) = threads s" "chains (Scheduler_Update_heir h f s) = chains s"
  "executing (Scheduler_Update_heir h f s) = executing s"
  "heir (Scheduler_Update_heir h f s) = (if is_preemptible (threads s (heir s)) \<or> f then h else heir s)"
  "more (Scheduler_Update_heir h f s) = more s"
  by (auto simp: Scheduler_Update_heir_def)

section \<open>Operations on threads\<close>

definition set_state :: "uintptr \<Rightarrow> uint32 \<Rightarrow> 'a sched_scheme \<Rightarrow> 'a sched_scheme" where
  "set_state t w s = s\<lparr>threads := (threads s)(t := (threads s t)\<lparr>current_state := w\<rparr>)\<rparr>"

text \<open>The result is the state and the previous state of the thread.\<close>

definition Thread_Set_state_locked ::
    "'a sched_fun \<Rightarrow> uintptr \<Rightarrow> uint32 \<Rightarrow> 'a sched_scheme \<Rightarrow> ('a sched_scheme \<times> uint32) option" where
  "Thread_Set_state_locked Scheduler_Block the_thread state s =
     (let previous_state = current_state (threads s the_thread);
          next_state = state OR previous_state;
          s' = set_state the_thread next_state s
      in map_option (\<lambda>s. (s, previous_state))
           (if previous_state = 0 then Scheduler_Block the_thread s' else Some s'))"

definition Thread_Clear_state_locked ::
    "'a sched_fun \<Rightarrow> uintptr \<Rightarrow> uint32 \<Rightarrow> 'a sched_scheme \<Rightarrow> ('a sched_scheme \<times> uint32) option" where
  "Thread_Clear_state_locked Scheduler_Unblock the_thread state s =
     (let previous_state = current_state (threads s the_thread)
      in map_option (\<lambda>s. (s, previous_state))
           (if previous_state AND state \<noteq> 0
            then let next_state = previous_state AND NOT state;
                     s' = set_state the_thread next_state s
                 in if next_state = 0 then Scheduler_Unblock the_thread s' else Some s'
            else Some s))"

datatype sched_op = Set_state uintptr uint32 | Clear_state uintptr uint32 | Yield_op uintptr | Priority_op uintptr nat bool

text \<open>The operations on the abstract state: the priorities, the states and the ready list.\<close>

type_synonym sched_spec = "(uintptr \<Rightarrow> nat) \<times> (uintptr \<Rightarrow> uint32) \<times> uintptr list"

fun spec_step :: "sched_op \<Rightarrow> sched_spec \<Rightarrow> sched_spec" where
  "spec_step (Set_state t w) (pr, st, xs) = (pr, st(t := w OR st t), if st t = 0 then remove1 t xs else xs)"
| "spec_step (Clear_state t w) (pr, st, xs) =
     (if st t AND w \<noteq> 0
      then (pr, st(t := st t AND NOT w), if st t AND NOT w = 0 then insert_fifo pr t xs else xs)
      else (pr, st, xs))"
| "spec_step (Yield_op t) (pr, st, xs) = (pr, st, if st t = 0 then insert_fifo pr t (remove1 t xs) else xs)"
| "spec_step (Priority_op t q prepend) (pr, st, xs) =
     (pr(t := q), st, if st t = 0 then (if prepend then insert_lifo else insert_fifo) (pr(t := q)) t (remove1 t xs) else xs)"

text \<open>
  The threads of \<open>pool\<close> but the idle thread may block; a priority is changed to another one. (For the
  same priority the two schedulers differ: one does nothing, the other moves the thread.)
\<close>

fun op_ok :: "uintptr set \<Rightarrow> uintptr \<Rightarrow> nat \<Rightarrow> sched_op \<Rightarrow> sched_spec \<Rightarrow> bool" where
  "op_ok pool idle limit (Set_state t w) _ \<longleftrightarrow> t \<in> pool \<and> t \<noteq> idle \<and> w \<noteq> 0"
| "op_ok pool idle limit (Clear_state t w) _ \<longleftrightarrow> t \<in> pool"
| "op_ok pool idle limit (Yield_op t) _ \<longleftrightarrow> t \<in> pool"
| "op_ok pool idle limit (Priority_op t q prepend) (pr, _, _) \<longleftrightarrow> t \<in> pool \<and> q < limit \<and> q \<noteq> pr t"

fun ops_ok :: "uintptr set \<Rightarrow> uintptr \<Rightarrow> nat \<Rightarrow> sched_op list \<Rightarrow> sched_spec \<Rightarrow> bool" where
  "ops_ok pool idle limit [] a \<longleftrightarrow> True"
| "ops_ok pool idle limit (p # ps) a \<longleftrightarrow> op_ok pool idle limit p a \<and> ops_ok pool idle limit ps (spec_step p a)"

text \<open>The operations of a scheduler: block, unblock, yield and update priority.\<close>

type_synonym 'a sched_ops = "'a sched_fun \<times> 'a sched_fun \<times> 'a sched_fun \<times> 'a sched_fun"

fun sched_step :: "'a sched_ops \<Rightarrow> sched_op \<Rightarrow> 'a sched_scheme \<Rightarrow> 'a sched_scheme option" where
  "sched_step (block, unblock, yield, update) (Set_state t w) s = map_option fst (Thread_Set_state_locked block t w s)"
| "sched_step (block, unblock, yield, update) (Clear_state t w) s = map_option fst (Thread_Clear_state_locked unblock t w s)"
| "sched_step (block, unblock, yield, update) (Yield_op t) s = (if Thread_Is_ready (threads s t) then yield t s else Some s)"
| "sched_step (block, unblock, yield, update) (Priority_op t q prepend) s = change_priority update t q prepend s"

fun sched_run :: "'a sched_ops \<Rightarrow> sched_op list \<Rightarrow> 'a sched_scheme \<Rightarrow> 'a sched_scheme option" where
  "sched_run ops [] s = Some s"
| "sched_run ops (p # ps) s = (case sched_step ops p s of None \<Rightarrow> None | Some s' \<Rightarrow> sched_run ops ps s')"

section \<open>The contract of a priority scheduler\<close>

lemma set_state_simps:
  "threads (set_state t w s) x = (if x = t then (threads s t)\<lparr>current_state := w\<rparr> else threads s x)"
  "heir (set_state t w s) = heir s" "executing (set_state t w s) = executing s"
  by (simp_all add: set_state_def)

text \<open>An operation of the scheduler changes neither the states nor the modes of the threads.\<close>

definition same_states :: "'a sched_scheme \<Rightarrow> 'a sched_scheme \<Rightarrow> bool" where
  "same_states s s' \<longleftrightarrow> (\<forall>x. current_state (threads s' x) = current_state (threads s x)
     \<and> is_preemptible (threads s' x) = is_preemptible (threads s x))"

locale priority_scheduler =
  fixes rep :: "'a sched_scheme \<Rightarrow> (uintptr \<Rightarrow> nat) \<Rightarrow> uintptr list \<Rightarrow> bool"
    and block unblock yield update :: "'a sched_fun"
    and pool :: "uintptr set" and limit :: nat
  assumes ordered: "rep s pr xs \<Longrightarrow> sorted (map pr xs) \<and> distinct xs \<and> set xs \<subseteq> pool"
    and state_irrelevant: "rep s pr xs \<Longrightarrow> rep (set_state t w s) pr xs"
    and blocks: "rep s pr xs \<Longrightarrow> t \<in> set xs \<Longrightarrow> remove1 t xs \<noteq> [] \<Longrightarrow>
      \<exists>s'. block t s = Some s' \<and> same_states s s' \<and> rep s' pr (remove1 t xs)
        \<and> heir s' = (if t = executing s \<or> t = heir s then hd (remove1 t xs) else heir s)"
    and unblocks: "rep s pr xs \<Longrightarrow> t \<in> pool \<Longrightarrow> t \<notin> set xs \<Longrightarrow> heir s \<in> set xs \<Longrightarrow>
      \<exists>s'. unblock t s = Some s' \<and> same_states s s' \<and> rep s' pr (insert_fifo pr t xs)
        \<and> heir s' = (if pr t < pr (heir s) \<and> (is_preemptible (threads s (heir s)) \<or> pr t = 0) then t else heir s)"
    and yields: "rep s pr xs \<Longrightarrow> t \<in> set xs \<Longrightarrow> is_preemptible (threads s (heir s)) \<Longrightarrow>
      \<exists>s'. yield t s = Some s' \<and> same_states s s' \<and> rep s' pr (insert_fifo pr t (remove1 t xs))
        \<and> heir s' = hd (insert_fifo pr t (remove1 t xs))"
    and updates: "rep s pr xs \<Longrightarrow> t \<in> set xs \<Longrightarrow> current_state (threads s t) = 0 \<Longrightarrow> q < limit \<Longrightarrow> q \<noteq> pr t \<Longrightarrow>
      is_preemptible (threads s (heir s)) \<Longrightarrow>
      \<exists>s'. change_priority update t q prepend s = Some s' \<and> same_states s s'
        \<and> rep s' (pr(t := q)) ((if prepend then insert_lifo else insert_fifo) (pr(t := q)) t (remove1 t xs))
        \<and> heir s' = hd ((if prepend then insert_lifo else insert_fifo) (pr(t := q)) t (remove1 t xs))"
    and updates_blocked: "rep s pr xs \<Longrightarrow> t \<in> pool \<Longrightarrow> t \<notin> set xs \<Longrightarrow> current_state (threads s t) \<noteq> 0 \<Longrightarrow> q < limit \<Longrightarrow>
      \<exists>s'. change_priority update t q prepend s = Some s' \<and> same_states s s' \<and> rep s' (pr(t := q)) xs \<and> heir s' = heir s"
begin

text \<open>Between operations the heir is the first ready thread; all threads may be preempted.\<close>

definition consistent :: "uintptr \<Rightarrow> 'a sched_scheme \<Rightarrow> sched_spec \<Rightarrow> bool" where
  "consistent idle s a = (case a of (pr, st, xs) \<Rightarrow>
     rep s pr xs \<and> idle \<in> set xs \<and> heir s = hd xs
     \<and> (\<forall>t\<in>pool. current_state (threads s t) = st t \<and> (st t = 0 \<longleftrightarrow> t \<in> set xs) \<and> is_preemptible (threads s t)))"

lemma consistent_hd:
  assumes "consistent idle s (pr, st, xs)"
  shows "xs \<noteq> []" "hd xs \<in> set xs" "is_preemptible (threads s (heir s))"
proof -
  show ne: "xs \<noteq> []" using assms by (auto simp: consistent_def)
  then show m: "hd xs \<in> set xs" by simp
  then have "hd xs \<in> pool" using ordered [of s pr xs] assms by (auto simp: consistent_def)
  then show "is_preemptible (threads s (heir s))" using assms by (simp add: consistent_def)
qed

lemma set_state_consistent:
  assumes "consistent idle s (pr, st, xs)" and "t \<in> pool" and "t \<noteq> idle" and "w \<noteq> 0"
  shows "\<exists>s'. sched_step (block, unblock, yield, update) (Set_state t w) s = Some s'
    \<and> consistent idle s' (spec_step (Set_state t w) (pr, st, xs))"
proof -
  have r: "rep s pr xs" and i: "idle \<in> set xs" and h: "heir s = hd xs"
    and a: "\<And>x. x \<in> pool \<Longrightarrow> current_state (threads s x) = st x \<and> (st x = 0 \<longleftrightarrow> x \<in> set xs) \<and> is_preemptible (threads s x)"
    using assms(1) by (auto simp: consistent_def)
  have d: "distinct xs" using ordered [OF r] by simp
  obtain v where v: "w OR st t = v" "v \<noteq> 0" using assms(4) by (metis or_eq_0_iff)
  have r': "rep (set_state t v s) pr xs" by (rule state_irrelevant [OF r])
  show ?thesis
  proof (cases "st t = 0")
    case True
    then have m: "t \<in> set xs" using a assms(2) by blast
    have i': "idle \<in> set (remove1 t xs)" using i d assms(3) by simp
    then have ne: "remove1 t xs \<noteq> []" by auto
    have "hd (remove1 t xs) = hd xs" if "t \<noteq> hd xs" using that m by (cases xs) auto
    moreover obtain s' where "block t (set_state t v s) = Some s'" "same_states (set_state t v s) s'" "rep s' pr (remove1 t xs)"
      "heir s' = (if t = executing s \<or> t = heir s then hd (remove1 t xs) else heir s)"
      using blocks [OF r' m ne] by (auto simp: set_state_simps)
    ultimately show ?thesis using True a assms(2) i' h d v
      by (auto simp: consistent_def Thread_Set_state_locked_def Let_def set_state_simps same_states_def simp del: or_eq_0_iff)
  next
    case False
    then show ?thesis using r' a assms(2) i h v
      by (auto simp: consistent_def Thread_Set_state_locked_def Let_def set_state_simps same_states_def simp del: or_eq_0_iff)
  qed
qed

lemma clear_state_consistent:
  assumes "consistent idle s (pr, st, xs)" and "t \<in> pool"
  shows "\<exists>s'. sched_step (block, unblock, yield, update) (Clear_state t w) s = Some s'
    \<and> consistent idle s' (spec_step (Clear_state t w) (pr, st, xs))"
proof -
  have r: "rep s pr xs" and i: "idle \<in> set xs" and h: "heir s = hd xs"
    and a: "\<And>x. x \<in> pool \<Longrightarrow> current_state (threads s x) = st x \<and> (st x = 0 \<longleftrightarrow> x \<in> set xs) \<and> is_preemptible (threads s x)"
    using assms(1) by (auto simp: consistent_def)
  have o: "sorted (map pr xs)" "set xs \<subseteq> pool" using ordered [OF r] by simp_all
  have r': "rep (set_state t (st t AND NOT w) s) pr xs" by (rule state_irrelevant [OF r])
  have m: "t \<notin> set xs" if "st t AND w \<noteq> 0" using that a assms(2) by force
  note hin = consistent_hd [OF assms(1)]
  show ?thesis
  proof (cases "st t AND w \<noteq> 0 \<and> st t AND NOT w = 0")
    case True
    then obtain s' where "unblock t (set_state t 0 s) = Some s'" "same_states (set_state t 0 s) s'"
      "rep s' pr (insert_fifo pr t xs)" "heir s' = (if pr t < pr (hd xs) then t else hd xs)"
      using unblocks [OF r' assms(2) m] hin h a o by (auto simp: set_state_simps)
    then show ?thesis using True a assms(2) i hin o(1) hd_insert_fifo [of pr xs t]
      by (auto simp: consistent_def Thread_Clear_state_locked_def Let_def set_state_simps same_states_def insert_set)
  next
    case False
    then show ?thesis using r r' a assms(2) i h m
      by (auto simp: consistent_def Thread_Clear_state_locked_def Let_def set_state_simps)
  qed
qed

lemma yield_consistent:
  assumes "consistent idle s (pr, st, xs)" and "t \<in> pool"
  shows "\<exists>s'. sched_step (block, unblock, yield, update) (Yield_op t) s = Some s'
    \<and> consistent idle s' (spec_step (Yield_op t) (pr, st, xs))"
proof (cases "st t = 0")
  case True
  have r: "rep s pr xs" and m: "t \<in> set xs" and p: "is_preemptible (threads s (heir s))" and d: "distinct xs"
    using assms True ordered [of s pr xs] consistent_hd [OF assms(1)] by (auto simp: consistent_def)
  show ?thesis using yields [OF r m p] assms True d
    by (auto simp: consistent_def Thread_Is_ready_def same_states_def insert_set)
next
  case False
  then show ?thesis using assms by (auto simp: consistent_def Thread_Is_ready_def)
qed

lemma priority_consistent:
  assumes "consistent idle s (pr, st, xs)" and "t \<in> pool" and "q < limit" and "q \<noteq> pr t"
  shows "\<exists>s'. sched_step (block, unblock, yield, update) (Priority_op t q prepend) s = Some s'
    \<and> consistent idle s' (spec_step (Priority_op t q prepend) (pr, st, xs))"
proof -
  have r: "rep s pr xs" and i: "idle \<in> set xs" and h: "heir s = hd xs"
    and a: "\<And>x. x \<in> pool \<Longrightarrow> current_state (threads s x) = st x \<and> (st x = 0 \<longleftrightarrow> x \<in> set xs) \<and> is_preemptible (threads s x)"
    using assms(1) by (auto simp: consistent_def)
  have o: "distinct xs" "set xs \<subseteq> pool" using ordered [OF r] by simp_all
  note p = consistent_hd(3) [OF assms(1)]
  show ?thesis
  proof (cases "st t = 0")
    case True
    then have m: "t \<in> set xs" and z: "current_state (threads s t) = 0" using a assms(2) by auto
    show ?thesis using updates [OF r m z assms(3,4) p, of prepend] a assms(2) i o True
      by (cases prepend) (auto simp: consistent_def same_states_def insert_set)
  next
    case False
    then have m: "t \<notin> set xs" and z: "current_state (threads s t) \<noteq> 0" using a assms(2) by auto
    show ?thesis using updates_blocked [OF r assms(2) m z assms(3), of prepend] a i h False
      by (auto simp: consistent_def same_states_def)
  qed
qed

lemma step_consistent:
  assumes "consistent idle s a" and "op_ok pool idle limit p a"
  shows "\<exists>s'. sched_step (block, unblock, yield, update) p s = Some s' \<and> consistent idle s' (spec_step p a)"
proof (cases a)
  case (fields pr st xs)
  show ?thesis
    using assms unfolding fields
    by (cases p) (metis op_ok.simps set_state_consistent clear_state_consistent yield_consistent priority_consistent)+
qed

lemma steps_consistent:
  assumes "consistent idle s a" and "ops_ok pool idle limit ps a"
  shows "\<exists>s'. sched_run (block, unblock, yield, update) ps s = Some s' \<and> consistent idle s' (fold spec_step ps a)"
  using assms
proof (induction ps arbitrary: s a)
  case (Cons p ps)
  then obtain s' where "sched_step (block, unblock, yield, update) p s = Some s'" and c: "consistent idle s' (spec_step p a)"
    using step_consistent by (meson ops_ok.simps(2))
  then show ?case using Cons.IH [OF c] Cons.prems(2) by simp
qed simp

end

end
