(* ===== verification/Scheduler_Priority.thy ===== *)
theory Scheduler_Priority
  imports Scheduler
begin

text \<open>
  The deterministic priority scheduler, \<^verbatim>\<open>score/src/schedulerpriority*.c\<close> and \<^verbatim>\<open>schedulerpriorityimpl.h\<close>:
  an array of 256 ready chains, one per priority, and the priority bit map to find the first that is
  not empty in constant time. It meets the contract of a priority scheduler.
\<close>

section \<open>Operations\<close>

text \<open>\<open>Ready\<close> is the address of the array of chains; a chain takes 24 bytes.\<close>

record prio_sched = sched +
  Bit_map :: Priority_bit_map_Control
  Ready :: uintptr

type_synonym prio = "unit prio_sched_ext sched_scheme"

definition ready_at :: "uintptr \<Rightarrow> uint64 \<Rightarrow> uintptr" where
  "ready_at ready_queues index = ready_queues + 24 * index"

partial_function (option) Ready_queue_initialize_loop :: "uintptr \<Rightarrow> uint64 \<Rightarrow> uint64 \<Rightarrow> chain_mem \<Rightarrow> chain_mem option" where
  "Ready_queue_initialize_loop ready_queues maximum_priority index m =
     (if index \<le> maximum_priority
      then Ready_queue_initialize_loop ready_queues maximum_priority (index + 1)
             (Chain_Initialize_empty (ready_at ready_queues index) m)
      else Some m)"

lemmas [code] = Ready_queue_initialize_loop.simps

definition Scheduler_priority_Ready_queue_initialize :: "uintptr \<Rightarrow> uint64 \<Rightarrow> chain_mem \<Rightarrow> chain_mem option" where
  "Scheduler_priority_Ready_queue_initialize ready_queues maximum_priority m =
     Ready_queue_initialize_loop ready_queues maximum_priority 0 m"

definition Scheduler_priority_Initialize :: "uint64 \<Rightarrow> prio \<Rightarrow> prio option" where
  "Scheduler_priority_Initialize maximum_priority s =
     map_option (\<lambda>m. s\<lparr>chains := m\<rparr>) (Scheduler_priority_Ready_queue_initialize (Ready s) maximum_priority (chains s))"

definition Scheduler_priority_Ready_queue_update :: "uint64 \<Rightarrow> uintptr \<Rightarrow> Scheduler_priority_Ready_queue" where
  "Scheduler_priority_Ready_queue_update new_priority ready_queues =
     \<lparr>current_priority = ucast new_priority, ready_chain = ready_at ready_queues new_priority,
      Priority_map = Priority_bit_map_Initialize_information (ucast new_priority)\<rparr>"

text \<open>The routine writes every field of the ready queue data; here it writes those of a thread.\<close>

definition update_ready_queue :: "uintptr \<Rightarrow> uint64 \<Rightarrow> prio \<Rightarrow> prio" where
  "update_ready_queue t new_priority s =
     s\<lparr>threads := (threads s)(t := (threads s t)\<lparr>Ready_queue := Scheduler_priority_Ready_queue_update new_priority (Ready s)\<rparr>)\<rparr>"

definition Scheduler_Node_do_initialize :: "uint64 \<Rightarrow> Thread_Control \<Rightarrow> Thread_Control" where
  "Scheduler_Node_do_initialize priority node = node\<lparr>priority_value := priority, prepend_it := False\<rparr>"

definition Scheduler_priority_Node_initialize :: "uintptr \<Rightarrow> uint64 \<Rightarrow> prio \<Rightarrow> prio" where
  "Scheduler_priority_Node_initialize the_thread priority s =
     update_ready_queue the_thread priority
       (s\<lparr>threads := (threads s)(the_thread := Scheduler_Node_do_initialize priority (threads s the_thread))\<rparr>)"

definition Scheduler_priority_Ready_queue_enqueue :: "uintptr \<Rightarrow> Scheduler_priority_Ready_queue \<Rightarrow> prio \<Rightarrow> prio" where
  "Scheduler_priority_Ready_queue_enqueue node ready_queue s =
     s\<lparr>chains := Chain_Append_unprotected (ready_chain ready_queue) node (chains s),
       Bit_map := Priority_bit_map_Add (Priority_map ready_queue) (Bit_map s)\<rparr>"

definition Scheduler_priority_Ready_queue_enqueue_first :: "uintptr \<Rightarrow> Scheduler_priority_Ready_queue \<Rightarrow> prio \<Rightarrow> prio" where
  "Scheduler_priority_Ready_queue_enqueue_first node ready_queue s =
     s\<lparr>chains := Chain_Prepend_unprotected (ready_chain ready_queue) node (chains s),
       Bit_map := Priority_bit_map_Add (Priority_map ready_queue) (Bit_map s)\<rparr>"

definition Scheduler_priority_Ready_queue_extract :: "uintptr \<Rightarrow> Scheduler_priority_Ready_queue \<Rightarrow> prio \<Rightarrow> prio" where
  "Scheduler_priority_Ready_queue_extract node ready_queue s =
     (if Chain_Has_only_one_node (chains s) (ready_chain ready_queue)
      then s\<lparr>chains := Chain_Initialize_empty (ready_chain ready_queue) (chains s),
             Bit_map := Priority_bit_map_Remove (Priority_map ready_queue) (Bit_map s)\<rparr>
      else s\<lparr>chains := Chain_Extract_unprotected node (chains s)\<rparr>)"

definition Scheduler_priority_Extract_body :: "uintptr \<Rightarrow> prio \<Rightarrow> prio" where
  "Scheduler_priority_Extract_body the_thread s =
     Scheduler_priority_Ready_queue_extract the_thread (Ready_queue (threads s the_thread)) s"

definition Scheduler_priority_Ready_queue_first :: "Priority_bit_map_Control \<Rightarrow> uintptr \<Rightarrow> chain_mem \<Rightarrow> uintptr" where
  "Scheduler_priority_Ready_queue_first bm ready_queues m =
     (let index = ucast (Priority_bit_map_Get_highest bm) in Chain_First m (ready_at ready_queues index))"

definition Scheduler_priority_Schedule_body :: "bool \<Rightarrow> prio \<Rightarrow> prio" where
  "Scheduler_priority_Schedule_body force_dispatch s =
     Scheduler_Update_heir (Scheduler_priority_Ready_queue_first (Bit_map s) (Ready s) (chains s)) force_dispatch s"

definition Scheduler_priority_Schedule :: "prio \<Rightarrow> prio" where
  "Scheduler_priority_Schedule s = Scheduler_priority_Schedule_body False s"

definition Scheduler_priority_Block :: "uintptr \<Rightarrow> prio \<Rightarrow> prio option" where
  "Scheduler_priority_Block = Scheduler_Generic_block Scheduler_priority_Extract_body Scheduler_priority_Schedule_body"

definition Scheduler_priority_Unblock :: "uintptr \<Rightarrow> prio \<Rightarrow> prio option" where
  "Scheduler_priority_Unblock the_thread s =
     (let priority = ucast (fst (Scheduler_Node_get_priority (threads s the_thread))) :: uint32;
          s = (if priority \<noteq> current_priority (Ready_queue (threads s the_thread))
               then update_ready_queue the_thread (ucast priority) s else s);
          s = Scheduler_priority_Ready_queue_enqueue the_thread (Ready_queue (threads s the_thread)) s
      in Some (if ucast priority < Thread_Get_priority (threads s (heir s))
               then Scheduler_Update_heir the_thread (priority = 0) s else s))"

definition Scheduler_priority_Yield :: "uintptr \<Rightarrow> prio \<Rightarrow> prio option" where
  "Scheduler_priority_Yield the_thread s =
     (let ready_queue_chain = ready_chain (Ready_queue (threads s the_thread));
          s = (if \<not> Chain_Has_only_one_node (chains s) ready_queue_chain
               then s\<lparr>chains := Chain_Append_unprotected ready_queue_chain the_thread (Chain_Extract_unprotected the_thread (chains s))\<rparr>
               else s)
      in Some (Scheduler_priority_Schedule_body True s))"

definition Scheduler_priority_Update_priority :: "uintptr \<Rightarrow> prio \<Rightarrow> prio option" where
  "Scheduler_priority_Update_priority the_thread s =
     (if \<not> Thread_Is_ready (threads s the_thread) then Some s
      else let (value, prepend) = Scheduler_Node_get_priority (threads s the_thread);
               priority = ucast value :: uint32
           in if priority = current_priority (Ready_queue (threads s the_thread)) then Some s
              else let s = Scheduler_priority_Ready_queue_extract the_thread (Ready_queue (threads s the_thread)) s;
                       s = update_ready_queue the_thread (ucast priority) s;
                       s = (if prepend
                            then Scheduler_priority_Ready_queue_enqueue_first the_thread (Ready_queue (threads s the_thread)) s
                            else Scheduler_priority_Ready_queue_enqueue the_thread (Ready_queue (threads s the_thread)) s)
                   in Some (Scheduler_priority_Schedule_body False s))"

section \<open>The array of ready chains\<close>

abbreviation queue_at :: "uintptr \<Rightarrow> nat \<Rightarrow> uintptr" where
  "queue_at base p \<equiv> ready_at base (of_nat p)"

definition array_ok :: "uintptr \<Rightarrow> bool" where
  "array_ok base \<longleftrightarrow> 0 < unat base \<and> unat base + 24 * 256 \<le> 2 ^ 64"

definition array_words :: "uintptr \<Rightarrow> uintptr set" where
  "array_words base = (\<Union>p<256. set (footprint (queue_at base p) []))"

text \<open>
  \<open>Q p\<close> are the threads on the chain of priority \<open>p\<close>. The bit map records the chains with threads.
\<close>

definition queues_ok :: "uintptr set \<Rightarrow> uintptr \<Rightarrow> chain_mem \<Rightarrow> Priority_bit_map_Control \<Rightarrow> (nat \<Rightarrow> uintptr list) \<Rightarrow> bool" where
  "queues_ok pool base m bm Q \<longleftrightarrow> array_ok base \<and> nodes_ok (array_words base) pool
     \<and> (\<forall>p<256. chain_rep m (queue_at base p) (Q p) \<and> set (Q p) \<subseteq> pool)
     \<and> (\<forall>p<256. \<forall>q<256. p \<noteq> q \<longrightarrow> set (Q p) \<inter> set (Q q) = {})
     \<and> bm_rep bm {p. p < 256 \<and> Q p \<noteq> []}"

lemma word_offset:
  assumes "unat (base :: uintptr) + n \<le> 2 ^ 64" and "a < n"
  shows "unat (base + of_nat a) = unat base + a"
proof -
  have l: "unat base + a < 2 ^ 64" using assms by linarith
  then have "unat (of_nat a :: uintptr) = a" by (simp only: unat_of_nat) simp
  then show ?thesis using unat_add_lem [of base "of_nat a"] l by simp
qed

lemma queue_at_words: "footprint (queue_at base p) [] = [base + of_nat (24 * p), base + of_nat (24 * p + 8), base + of_nat (24 * p + 16)]"
  by (simp add: footprint_def ready_at_def add.assoc of_nat_add)

lemma array_footprint:
  assumes "array_ok base" and "p < 256"
  shows "distinct (footprint (queue_at base p) [])" and "0 \<notin> set (footprint (queue_at base p) [])"
    and "\<And>q. q < 256 \<Longrightarrow> p \<noteq> q \<Longrightarrow> set (footprint (queue_at base p) []) \<inter> set (footprint (queue_at base q) []) = {}"
proof -
  note [simp del] = of_nat_add of_nat_mult
  define w where "w a = base + (of_nat a :: uintptr)" for a
  have u: "unat (w a) = unat base + a" if "a < 6144" for a
    unfolding w_def using word_offset [of base 6144 a] assms(1) that by (simp add: array_ok_def)
  have e: "w a = w b \<longleftrightarrow> a = b" if "a < 6144" "b < 6144" for a b 
    using u [OF that(1)] u [OF that(2)] by (metis add_left_cancel)
  have z: "w a \<noteq> 0" if "a < 6144" for a
    using u [OF that] assms(1) unfolding array_ok_def by (metis add_is_0 less_irrefl unsigned_0)
  have f: "footprint (queue_at base q) [] = [w (24 * q), w (24 * q + 8), w (24 * q + 16)]" for q
    unfolding queue_at_words w_def by (rule refl)
  have b: "24 * q < 6144" "24 * q + 8 < 6144" "24 * q + 16 < 6144" if "q < 256" for q :: nat using that by simp_all
  note bp = b [OF assms(2)]
  show "distinct (footprint (queue_at base p) [])"
    unfolding f distinct_length_2_or_more using e [OF bp(1,2)] e [OF bp(1,3)] e [OF bp(2,3)] by simp
  show "0 \<notin> set (footprint (queue_at base p) [])"
    unfolding f using z [OF bp(1)] z [OF bp(2)] z [OF bp(3)] by simp
  fix q :: nat assume q: "q < 256" "p \<noteq> q"
  note bq = b [OF q(1)]
  have n: "w (24 * p + i) \<noteq> w (24 * q + j)" if "i \<in> {0, 8, 16}" "j \<in> {0, 8, 16}" for i j
  proof -
    have "24 * p + i \<noteq> 24 * q + j" using q(2) that by auto
    then show ?thesis using e [of "24 * p + i" "24 * q + j"] that assms(2) q(1) by auto
  qed
  show "set (footprint (queue_at base p) []) \<inter> set (footprint (queue_at base q) []) = {}"
    unfolding f using n [of 0 0] n [of 0 8] n [of 0 16] n [of 8 0] n [of 8 8] n [of 8 16] n [of 16 0] n [of 16 8] n [of 16 16] by auto
qed

lemma footprint_split: "set (footprint c xs) = set (footprint c []) \<union> set xs \<union> (\<lambda>x. x + 8) ` set xs"
  by (auto simp: footprint_def)

lemma queues_okD:
  assumes "queues_ok pool base m bm Q" and "p < 256"
  shows "chain_rep m (queue_at base p) (Q p)" and "set (Q p) \<subseteq> pool"
    and "\<And>t. t \<in> pool \<Longrightarrow> t \<notin> set (Q p) \<Longrightarrow> chain_fresh (queue_at base p) (Q p) t"
    and "\<And>t. t \<in> pool \<Longrightarrow> t \<notin> set (footprint (queue_at base p) []) \<and> t + 8 \<notin> set (footprint (queue_at base p) [])"
proof -
  have n: "nodes_ok (array_words base) pool" and f: "set (footprint (queue_at base p) []) \<subseteq> array_words base"
    using assms by (auto simp: queues_ok_def array_words_def)
  show "chain_rep m (queue_at base p) (Q p)" and s: "set (Q p) \<subseteq> pool" using assms by (simp_all add: queues_ok_def)
  show "chain_fresh (queue_at base p) (Q p) t" if "t \<in> pool" "t \<notin> set (Q p)" for t by (rule nodes_ok_fresh [OF n f s that])
  show "t \<notin> set (footprint (queue_at base p) []) \<and> t + 8 \<notin> set (footprint (queue_at base p) [])" if "t \<in> pool" for t
    using n f that by (auto simp: nodes_ok_def)
qed

lemma pool_words:
  assumes "nodes_ok F pool" and "A \<subseteq> pool" and "B \<subseteq> pool" and "A \<inter> B = {}"
  shows "(A \<union> (\<lambda>x. x + 8) ` A) \<inter> (B \<union> (\<lambda>x. x + 8) ` B) = {}"
  using assms by (auto simp: nodes_ok_def)

text \<open>Different queues use different words.\<close>

lemma queues_separate:
  assumes r: "queues_ok pool base m bm Q" and pq: "p < 256" "q < 256" "p \<noteq> q"
    and X: "set X \<subseteq> pool" "set X \<inter> set (Q q) = {}"
  shows "set (footprint (queue_at base p) X) \<inter> set (footprint (queue_at base q) (Q q)) = {}"
proof -
  have n: "nodes_ok (array_words base) pool" and a: "array_ok base" using r by (auto simp: queues_ok_def)
  have "set (footprint (queue_at base p) []) \<inter> set (footprint (queue_at base q) []) = {}"
    by (rule array_footprint(3) [OF a pq])
  moreover have "(set X \<union> (\<lambda>x. x + 8) ` set X) \<inter> (set (Q q) \<union> (\<lambda>x. x + 8) ` set (Q q)) = {}"
    by (rule pool_words [OF n X(1) queues_okD(2) [OF r pq(2)] X(2)])
  moreover have "(set X \<union> (\<lambda>x. x + 8) ` set X) \<inter> set (footprint (queue_at base q) []) = {}"
    using queues_okD(4) [OF r pq(2)] X(1) by blast
  moreover have "(set (Q q) \<union> (\<lambda>x. x + 8) ` set (Q q)) \<inter> set (footprint (queue_at base p) []) = {}"
    using queues_okD(4) [OF r pq(1)] queues_okD(2) [OF r pq(2)] by blast
  ultimately show ?thesis unfolding footprint_split [of _ X] footprint_split [of _ "Q q"] by blast
qed

lemma queues_change:
  assumes r: "queues_ok pool base m bm Q" and p: "p < 256"
    and c: "chain_rep m' (queue_at base p) ys" and ys: "set ys \<subseteq> pool" "\<And>q. q < 256 \<Longrightarrow> q \<noteq> p \<Longrightarrow> set ys \<inter> set (Q q) = {}"
    and fr: "\<And>a. a \<notin> set (footprint (queue_at base p) (Q p)) \<Longrightarrow> a \<notin> set (footprint (queue_at base p) ys) \<Longrightarrow> m' a = m a"
    and b: "bm_rep bm' {q. q < 256 \<and> (Q(p := ys)) q \<noteq> []}"
  shows "queues_ok pool base m' bm' (Q(p := ys))"
proof -
  have "chain_rep m' (queue_at base q) (Q q)" if q: "q < 256" "q \<noteq> p" for q
  proof -
    have d: "set (Q p) \<inter> set (Q q) = {}" using r p q by (simp add: queues_ok_def)
    have "m' a = m a" if "a \<in> set (footprint (queue_at base q) (Q q))" for a
      using that fr [of a] queues_separate [OF r p q(1) q(2) [symmetric] queues_okD(2) [OF r p] d]
        queues_separate [OF r p q(1) q(2) [symmetric] ys(1) ys(2) [OF q]] by blast
    then show ?thesis using queues_okD(1) [OF r q(1)] by (subst chain_rep_cong)
  qed
  then show ?thesis using r p c ys b unfolding queues_ok_def by (auto simp: fun_upd_def)
qed

lemma Chain_Prepend_frame:
  assumes "chain_rep m c xs" and "chain_fresh c xs n" and "a \<notin> set (footprint c xs)" and "a \<noteq> n" and "a \<noteq> n + 8"
  shows "Chain_Prepend_unprotected c n m a = m a"
proof -
  have "hd (xs @ [c + 8]) + 8 \<in> set (footprint c xs)"
    using neighbour_cells(2) [of xs c] by (auto simp: footprint_def add.assoc)
  then have "a \<noteq> m c + 8" "a \<noteq> c" using assms(3) chain_rep_ends(1) [OF assms(1)] by (auto simp: footprint_def)
  moreover have "c \<noteq> n" "c \<noteq> n + 8" using assms(2) by (auto simp: chain_fresh_def footprint_def)
  ultimately show ?thesis using assms(4,5) by (simp add: Chain_Prepend_unprotected_def Chain_Head_def Chain_Insert_word)
qed

lemma Chain_Initialize_empty_frame: "a \<notin> set (footprint c []) \<Longrightarrow> Chain_Initialize_empty c m a = m a"
  by (auto simp: Chain_Initialize_empty_def chain_accessors footprint_def add.assoc)

lemma bm_add_queue:
  assumes "bm_rep bm {q. q < 256 \<and> Q q \<noteq> []}" and "p < 256" and "ys \<noteq> []"
  shows "bm_rep (Priority_bit_map_Add (info_of p) bm) {q. q < 256 \<and> (Q(p := ys)) q \<noteq> []}"
proof -
  have "{q. q < 256 \<and> (Q(p := ys)) q \<noteq> []} = insert p {q. q < 256 \<and> Q q \<noteq> []}" using assms(2,3) by auto
  then show ?thesis using bm_rep_Add [OF assms(1,2)] by simp
qed

lemma queues_append:
  assumes r: "queues_ok pool base m bm Q" and p: "p < 256" and t: "t \<in> pool" "\<And>q. q < 256 \<Longrightarrow> t \<notin> set (Q q)"
  shows "queues_ok pool base (Chain_Append_unprotected (queue_at base p) t m) (Priority_bit_map_Add (info_of p) bm) (Q(p := Q p @ [t]))"
proof (rule queues_change [OF r p])
  note D = queues_okD [OF r p]
  show "chain_rep (Chain_Append_unprotected (queue_at base p) t m) (queue_at base p) (Q p @ [t])"
    by (rule Chain_Append_rep [OF D(1) D(3) [OF t(1) t(2) [OF p]]])
  show "Chain_Append_unprotected (queue_at base p) t m a = m a"
    if "a \<notin> set (footprint (queue_at base p) (Q p))" "a \<notin> set (footprint (queue_at base p) (Q p @ [t]))" for a
    using that by (intro Chain_Append_frame [OF D(1)]) (auto simp: footprint_def)
  show "set (Q p @ [t]) \<inter> set (Q q) = {}" if "q < 256" "q \<noteq> p" for q
    using r p that t(2) [OF that(1)] by (auto simp: queues_ok_def)
  show "bm_rep (Priority_bit_map_Add (info_of p) bm) {q. q < 256 \<and> (Q(p := Q p @ [t])) q \<noteq> []}"
    using r p by (intro bm_add_queue) (auto simp: queues_ok_def)
qed (use queues_okD(2) [OF r p] t(1) in simp)

lemma queues_prepend:
  assumes r: "queues_ok pool base m bm Q" and p: "p < 256" and t: "t \<in> pool" "\<And>q. q < 256 \<Longrightarrow> t \<notin> set (Q q)"
  shows "queues_ok pool base (Chain_Prepend_unprotected (queue_at base p) t m) (Priority_bit_map_Add (info_of p) bm) (Q(p := t # Q p))"
proof (rule queues_change [OF r p])
  note D = queues_okD [OF r p] and f = queues_okD(3) [OF r p t(1) t(2) [OF p]]
  show "chain_rep (Chain_Prepend_unprotected (queue_at base p) t m) (queue_at base p) (t # Q p)"
    by (rule Chain_Prepend_rep [OF D(1) f])
  show "Chain_Prepend_unprotected (queue_at base p) t m a = m a"
    if "a \<notin> set (footprint (queue_at base p) (Q p))" "a \<notin> set (footprint (queue_at base p) (t # Q p))" for a
    using that by (intro Chain_Prepend_frame [OF D(1) f]) (auto simp: footprint_def)
  show "set (t # Q p) \<inter> set (Q q) = {}" if "q < 256" "q \<noteq> p" for q
    using r p that t(2) [OF that(1)] by (auto simp: queues_ok_def)
  show "bm_rep (Priority_bit_map_Add (info_of p) bm) {q. q < 256 \<and> (Q(p := t # Q p)) q \<noteq> []}"
    using r p by (intro bm_add_queue) (auto simp: queues_ok_def)
qed (use queues_okD(2) [OF r p] t(1) in simp)

lemma queues_empty:
  assumes r: "queues_ok pool base m bm Q" and p: "p < 256"
  shows "queues_ok pool base (Chain_Initialize_empty (queue_at base p) m) (Priority_bit_map_Remove (info_of p) bm) (Q(p := []))"
proof (rule queues_change [OF r p])
  have a: "array_ok base" using r by (simp add: queues_ok_def)
  show "chain_rep (Chain_Initialize_empty (queue_at base p) m) (queue_at base p) []"
    by (rule Chain_Initialize_empty_rep [OF array_footprint(1,2) [OF a p]])
  show "Chain_Initialize_empty (queue_at base p) m x = m x"
    if "x \<notin> set (footprint (queue_at base p) [])" for x using that by (rule Chain_Initialize_empty_frame)
  have "{q. q < 256 \<and> (Q(p := [])) q \<noteq> []} = {q. q < 256 \<and> Q q \<noteq> []} - {p}" by auto
  then show "bm_rep (Priority_bit_map_Remove (info_of p) bm) {q. q < 256 \<and> (Q(p := [])) q \<noteq> []}"
    using bm_rep_Remove [of bm "{q. q < 256 \<and> Q q \<noteq> []}" p] r p by (simp add: queues_ok_def)
qed simp_all

lemma queues_extract:
  assumes r: "queues_ok pool base m bm Q" and p: "p < 256" and t: "t \<in> set (Q p)" and l: "length (Q p) \<noteq> 1"
  shows "queues_ok pool base (Chain_Extract_unprotected t m) bm (Q(p := remove1 t (Q p)))"
proof (rule queues_change [OF r p])
  note D = queues_okD [OF r p]
  obtain A B where s: "Q p = A @ t # B" using t by (meson split_list)
  have "distinct (Q p)" using D(1) by (simp add: chain_rep_def footprint_def)
  then have e: "remove1 t (Q p) = A @ B" using s by (simp add: remove1_append)
  show "chain_rep (Chain_Extract_unprotected t m) (queue_at base p) (remove1 t (Q p))"
    unfolding e by (rule chain_rep_extract) (use D(1) s in simp)
  show "Chain_Extract_unprotected t m a = m a" if "a \<notin> set (footprint (queue_at base p) (Q p))" for a
    using that D(1) unfolding s by (intro Chain_Extract_frame)
  show "set (remove1 t (Q p)) \<subseteq> pool" using D(2) by (auto dest: set_remove1_subset [THEN subsetD])
  show "set (remove1 t (Q p)) \<inter> set (Q q) = {}" if "q < 256" "q \<noteq> p" for q
  proof -
    have "set (Q p) \<inter> set (Q q) = {}" using r p that by (simp add: queues_ok_def)
    then show ?thesis using set_remove1_subset [of t "Q p"] by blast
  qed
  have "{q. q < 256 \<and> (Q(p := remove1 t (Q p))) q \<noteq> []} = {q. q < 256 \<and> Q q \<noteq> []}"
    using e s l p by auto
  then show "bm_rep bm {q. q < 256 \<and> (Q(p := remove1 t (Q p))) q \<noteq> []}" using r by (simp add: queues_ok_def)
qed

lemma queues_first:
  assumes r: "queues_ok pool base m bm Q" and p: "p < 256" "Q p \<noteq> []" and least: "\<And>q. q < p \<Longrightarrow> Q q = []"
  shows "Scheduler_priority_Ready_queue_first bm base m = hd (Q p)"
proof -
  let ?P = "{q. q < 256 \<and> Q q \<noteq> []}" and ?h = "Priority_bit_map_Get_highest bm"
  have b: "bm_rep bm ?P" and ne: "?P \<noteq> {}" using r p by (auto simp: queues_ok_def)
  have "unat ?h \<in> ?P" "unat ?h \<le> p" using bm_rep_Get_highest [OF b ne] p by auto
  then have h: "unat ?h = p" using least [of "unat ?h"] by (metis (mono_tags, lifting) le_neq_implies_less mem_Collect_eq)
  then have "ucast ?h = (of_nat p :: uint64)" by (metis of_nat_unat)
  then show ?thesis using chain_rep_ends(1) [OF queues_okD(1) [OF r p(1)]] p(2)
    by (simp add: Scheduler_priority_Ready_queue_first_def chain_accessors)
qed

text \<open>The initialisation loop ends and leaves every chain empty.\<close>

lemma Ready_queue_initialize_loop_rep:
  assumes a: "array_ok base" and n: "n \<le> 256" and r: "\<And>p. p < 256 - n \<Longrightarrow> chain_rep m (queue_at base p) []"
  shows "\<exists>m'. Ready_queue_initialize_loop base 255 (of_nat (256 - n)) m = Some m' \<and> (\<forall>p<256. chain_rep m' (queue_at base p) [])"
  using n r
proof (induction n arbitrary: m)
  case 0
  then show ?case by (simp add: Ready_queue_initialize_loop.simps)
next
  case (Suc n)
  define i where "i = 255 - n"
  have i: "256 - Suc n = i" "i < 256" "256 - n = Suc i" using Suc.prems(1) by (simp_all add: i_def)
  let ?m = "Chain_Initialize_empty (queue_at base i) m"
  have "chain_rep ?m (queue_at base p) []" if "p < 256 - n" for p
  proof (cases "p = i")
    case True
    then show ?thesis using Chain_Initialize_empty_rep [OF array_footprint(1,2) [OF a i(2)]] by simp
  next
    case False
    then have p: "p < i" "p < 256" using that i by auto
    have "?m x = m x" if "x \<in> set (footprint (queue_at base p) [])" for x
      using array_footprint(3) [OF a p(2) i(2)] that False by (intro Chain_Initialize_empty_frame) blast
    then show ?thesis using Suc.prems(2) [of p] p(1) i(1) by (subst chain_rep_cong) auto
  qed
  then obtain m' where m': "Ready_queue_initialize_loop base 255 (of_nat (Suc i)) ?m = Some m'" "\<forall>p<256. chain_rep m' (queue_at base p) []"
    using Suc.IH [of ?m] Suc.prems(1) i(3) by auto
  have "(of_nat i :: uint64) \<le> 255" using i(2) by (simp add: word_le_nat_alt unat_of_nat)
  moreover have "of_nat i + 1 = (of_nat (Suc i) :: uint64)" by simp
  ultimately show ?case using m' unfolding i(1) by (subst Ready_queue_initialize_loop.simps) (simp add: add.commute)
qed

lemma Scheduler_priority_Initialize_rep:
  assumes "array_ok (Ready s)" and "nodes_ok (array_words (Ready s)) pool" and "bm_rep (Bit_map s) {}"
  shows "\<exists>m. Scheduler_priority_Initialize 255 s = Some (s\<lparr>chains := m\<rparr>) \<and> queues_ok pool (Ready s) m (Bit_map s) (\<lambda>p. [])"
  using Ready_queue_initialize_loop_rep [of "Ready s" 256 "chains s"] assms
  by (auto simp: Scheduler_priority_Initialize_def Scheduler_priority_Ready_queue_initialize_def queues_ok_def)

section \<open>The queues hold the ready list\<close>

abbreviation queue_of :: "(uintptr \<Rightarrow> nat) \<Rightarrow> uintptr list \<Rightarrow> nat \<Rightarrow> uintptr list" where
  "queue_of pr xs \<equiv> (\<lambda>p. filter (\<lambda>x. pr x = p) xs)"

definition rq_of :: "uintptr \<Rightarrow> nat \<Rightarrow> Scheduler_priority_Ready_queue" where
  "rq_of base p = Scheduler_priority_Ready_queue_update (of_nat p) base"

definition prio_rep :: "uintptr set \<Rightarrow> prio \<Rightarrow> (uintptr \<Rightarrow> nat) \<Rightarrow> uintptr list \<Rightarrow> bool" where
  "prio_rep pool s pr xs \<longleftrightarrow> queues_ok pool (Ready s) (chains s) (Bit_map s) (queue_of pr xs)
     \<and> sorted (map pr xs) \<and> distinct xs \<and> set xs \<subseteq> pool \<and> priorities_ok pool 256 s pr
     \<and> (\<forall>t\<in>set xs. Ready_queue (threads s t) = rq_of (Ready s) (pr t))
     \<and> (\<forall>t\<in>pool. \<exists>c<256. Ready_queue (threads s t) = rq_of (Ready s) c)"

lemma rq_of_simps:
  assumes "p < 256"
  shows "current_priority (rq_of base p) = of_nat p" and "ready_chain (rq_of base p) = queue_at base p"
    and "Priority_map (rq_of base p) = info_of p"
proof -
  have "ucast (of_nat p :: uint64) = (of_nat p :: uint32)" using assms by (simp add: unsigned_of_nat take_bit_nat_eq_self)
  then show "current_priority (rq_of base p) = of_nat p" and "ready_chain (rq_of base p) = queue_at base p"
    and "Priority_map (rq_of base p) = info_of p"
    by (simp_all add: rq_of_def Scheduler_priority_Ready_queue_update_def info_of_def)
qed

lemma filter_none: "(\<And>x. x \<in> set xs \<Longrightarrow> \<not> P x) \<Longrightarrow> filter P xs = []"
  by (simp add: filter_empty_conv)

lemma sorted_parts:
  assumes "sorted (map (pr :: 'a \<Rightarrow> nat) xs)"
  shows "x \<in> set (dropWhile (\<lambda>x. pr x \<le> k) xs) \<Longrightarrow> k < pr x" and "x \<in> set (dropWhile (\<lambda>x. pr x < k) xs) \<Longrightarrow> k \<le> pr x"
  using assms by (induction xs) (auto split: if_splits)

lemma queue_of_insert_fifo:
  assumes "sorted (map pr xs)"
  shows "queue_of pr (insert_fifo pr t xs) = (queue_of pr xs)(pr t := queue_of pr xs (pr t) @ [t])"
proof
  fix p
  let ?T = "takeWhile (\<lambda>x. pr x \<le> pr t) xs" and ?D = "dropWhile (\<lambda>x. pr x \<le> pr t) xs"
  have "filter (\<lambda>x. pr x = p) ?D = []" if "p = pr t" using sorted_parts(1) [OF assms, of _ "pr t"] that by (intro filter_none) fastforce
  moreover have "filter (\<lambda>x. pr x = p) xs = filter (\<lambda>x. pr x = p) ?T @ filter (\<lambda>x. pr x = p) ?D"
    by (metis filter_append takeWhile_dropWhile_id)
  ultimately show "queue_of pr (insert_fifo pr t xs) p = ((queue_of pr xs)(pr t := queue_of pr xs (pr t) @ [t])) p"
    by (auto simp: insert_fifo_def)
qed

lemma queue_of_insert_lifo:
  assumes "sorted (map pr xs)"
  shows "queue_of pr (insert_lifo pr t xs) = (queue_of pr xs)(pr t := t # queue_of pr xs (pr t))"
proof
  fix p
  let ?T = "takeWhile (\<lambda>x. pr x < pr t) xs" and ?D = "dropWhile (\<lambda>x. pr x < pr t) xs"
  have "filter (\<lambda>x. pr x = p) ?T = []" if "p = pr t" using that by (intro filter_none) (auto dest: set_takeWhileD)
  moreover have "filter (\<lambda>x. pr x = p) xs = filter (\<lambda>x. pr x = p) ?T @ filter (\<lambda>x. pr x = p) ?D"
    by (metis filter_append takeWhile_dropWhile_id)
  ultimately show "queue_of pr (insert_lifo pr t xs) p = ((queue_of pr xs)(pr t := t # queue_of pr xs (pr t))) p"
    by (auto simp: insert_lifo_def)
qed

lemma queue_of_remove1: "queue_of pr (remove1 t xs) = (queue_of pr xs)(pr t := remove1 t (queue_of pr xs (pr t)))"
  by (auto simp: fun_eq_iff filter_remove1 remove1_idem)

lemma queue_of_upd: "t \<notin> set xs \<Longrightarrow> queue_of (pr(t := q)) xs = queue_of pr xs"
  by (auto simp: fun_eq_iff intro!: filter_cong)

lemma queue_of_hd:
  assumes "sorted (map pr xs)" and "xs \<noteq> []"
  shows "queue_of pr xs (pr (hd xs)) \<noteq> []" and "hd (queue_of pr xs (pr (hd xs))) = hd xs"
    and "\<And>q. q < pr (hd xs) \<Longrightarrow> queue_of pr xs q = []"
proof -
  obtain x ys where xs: "xs = x # ys" using assms(2) by (cases xs) auto
  then show "queue_of pr xs (pr (hd xs)) \<noteq> []" and "hd (queue_of pr xs (pr (hd xs))) = hd xs" by simp_all
  show "queue_of pr xs q = []" if "q < pr (hd xs)" for q
    by (rule filter_none) (use assms(1) that xs in auto)
qed

lemma prio_first:
  assumes "prio_rep pool s pr xs" and "xs \<noteq> []"
  shows "Scheduler_priority_Ready_queue_first (Bit_map s) (Ready s) (chains s) = hd xs"
proof -
  have r: "queues_ok pool (Ready s) (chains s) (Bit_map s) (queue_of pr xs)" and so: "sorted (map pr xs)"
    and sub: "set xs \<subseteq> pool" and pr: "priorities_ok pool 256 s pr"
    using assms(1) by (auto simp: prio_rep_def)
  have l: "pr (hd xs) < 256" using pr subsetD [OF sub hd_in_set [OF assms(2)]] by (simp add: priorities_ok_def)
  show ?thesis using queues_first [OF r l] queue_of_hd [OF so assms(2)] by simp
qed

lemma prio_schedule:
  assumes "prio_rep pool s pr xs" and "xs \<noteq> []"
  shows "prio_rep pool (Scheduler_priority_Schedule_body f s) pr xs"
    and "threads (Scheduler_priority_Schedule_body f s) = threads s"
    and "heir (Scheduler_priority_Schedule_body f s) = (if is_preemptible (threads s (heir s)) \<or> f then hd xs else heir s)"
  using assms(1) prio_first [OF assms]
  by (auto simp: Scheduler_priority_Schedule_body_def Scheduler_Update_heir_def prio_rep_def priorities_ok_def)

section \<open>The deterministic priority scheduler meets the contract\<close>

lemma prio_repD:
  assumes "prio_rep pool s pr xs"
  shows "queues_ok pool (Ready s) (chains s) (Bit_map s) (queue_of pr xs)" and "sorted (map pr xs)" and "distinct xs"
    and "set xs \<subseteq> pool" and "\<And>t. t \<in> pool \<Longrightarrow> pr t < 256" and "\<And>t. t \<in> set xs \<Longrightarrow> pr t < 256"
    and "\<And>t. t \<in> set xs \<Longrightarrow> Ready_queue (threads s t) = rq_of (Ready s) (pr t)"
  using assms by (auto simp: prio_rep_def priorities_ok_def)

lemma prio_rep_queues:
  assumes "prio_rep pool s pr xs" and "queues_ok pool (Ready s) m bm (queue_of pr ys)" and "sorted (map pr ys)" and "distinct ys"
    and "set ys \<subseteq> pool" and "\<And>t. t \<in> set ys \<Longrightarrow> Ready_queue (threads s t) = rq_of (Ready s) (pr t)"
  shows "prio_rep pool (s\<lparr>chains := m, Bit_map := bm\<rparr>) pr ys"
  using assms by (simp add: prio_rep_def priorities_ok_def)

lemma prio_extract:
  assumes r: "prio_rep pool s pr xs" and t: "t \<in> set xs"
  shows "prio_rep pool (Scheduler_priority_Ready_queue_extract t (rq_of (Ready s) (pr t)) s) pr (remove1 t xs)"
proof -
  note D = prio_repD [OF r] and q = rq_of_simps [OF prio_repD(6) [OF r t], of "Ready s"]
  note c = Chain_Has_only_one_node_rep [OF queues_okD(1) [OF D(1) D(6) [OF t]]]
  have tq: "t \<in> set (queue_of pr xs (pr t))" using t by simp
  have up: "prio_rep pool (s\<lparr>chains := m, Bit_map := bm\<rparr>) pr (remove1 t xs)"
    if "queues_ok pool (Ready s) m bm (queue_of pr (remove1 t xs))" for m bm
    using D(7) D(4) sorted_remove1 [OF D(2)] D(3) that set_remove1_subset [of t xs] by (intro prio_rep_queues [OF r]) auto
  show ?thesis
  proof (cases "length (queue_of pr xs (pr t)) = 1")
    case True
    then obtain y where y: "queue_of pr xs (pr t) = [y]" by (auto simp: length_Suc_conv)
    then have "queue_of pr xs (pr t) = [t]" using tq unfolding y by simp
    then have "queue_of pr (remove1 t xs) = (queue_of pr xs)(pr t := [])" by (simp add: queue_of_remove1)
    then show ?thesis using queues_empty [OF D(1) D(6) [OF t]] True c up
      by (simp add: Scheduler_priority_Ready_queue_extract_def q)
  next
    case False
    have "prio_rep pool (s\<lparr>chains := Chain_Extract_unprotected t (chains s)\<rparr>) pr (remove1 t xs)"
      using up [OF queues_extract [OF D(1) D(6) [OF t] tq False, folded queue_of_remove1]] by simp
    then show ?thesis using False c by (simp add: Scheduler_priority_Ready_queue_extract_def q)
  qed
qed

lemma prio_enqueue:
  assumes r: "prio_rep pool s pr xs" and t: "t \<in> pool" "t \<notin> set xs" and q: "Ready_queue (threads s t) = rq_of (Ready s) (pr t)"
  shows "prio_rep pool (Scheduler_priority_Ready_queue_enqueue t (rq_of (Ready s) (pr t)) s) pr (insert_fifo pr t xs)"
    and "prio_rep pool (Scheduler_priority_Ready_queue_enqueue_first t (rq_of (Ready s) (pr t)) s) pr (insert_lifo pr t xs)"
proof -
  note D = prio_repD [OF r] and qs = rq_of_simps [OF prio_repD(5) [OF r t(1)], of "Ready s"]
  have n: "t \<notin> set (queue_of pr xs p)" for p using t(2) by simp
  have d: "distinct (insert_fifo pr t xs)" "distinct (insert_lifo pr t xs)"
    using D(3) t(2) by (simp_all add: insert_distinct)
  show "prio_rep pool (Scheduler_priority_Ready_queue_enqueue t (rq_of (Ready s) (pr t)) s) pr (insert_fifo pr t xs)"
    unfolding Scheduler_priority_Ready_queue_enqueue_def qs
    using queues_append [OF D(1) D(5) [OF t(1)] t(1) n] sorted_insert_fifo [OF D(2)] d D(4,7) t(1) q
    unfolding queue_of_insert_fifo [OF D(2), symmetric] by (intro prio_rep_queues [OF r]) (auto simp: insert_set)
  show "prio_rep pool (Scheduler_priority_Ready_queue_enqueue_first t (rq_of (Ready s) (pr t)) s) pr (insert_lifo pr t xs)"
    unfolding Scheduler_priority_Ready_queue_enqueue_first_def qs
    using queues_prepend [OF D(1) D(5) [OF t(1)] t(1) n] sorted_insert_lifo [OF D(2)] d D(4,7) t(1) q
    unfolding queue_of_insert_lifo [OF D(2), symmetric] by (intro prio_rep_queues [OF r]) (auto simp: insert_set)
qed

lemma prio_block:
  assumes r: "prio_rep pool s pr xs" and t: "t \<in> set xs" and ne: "remove1 t xs \<noteq> []"
  shows "\<exists>s'. Scheduler_priority_Block t s = Some s' \<and> same_states s s' \<and> prio_rep pool s' pr (remove1 t xs)
    \<and> heir s' = (if t = executing s \<or> t = heir s then hd (remove1 t xs) else heir s)"
proof -
  let ?s = "Scheduler_priority_Extract_body t s"
  have e: "?s = Scheduler_priority_Ready_queue_extract t (rq_of (Ready s) (pr t)) s"
    by (simp add: Scheduler_priority_Extract_body_def prio_repD(7) [OF r t])
  have r': "prio_rep pool ?s pr (remove1 t xs)" unfolding e by (rule prio_extract [OF r t])
  have k: "threads ?s = threads s" "heir ?s = heir s" "executing ?s = executing s"
    unfolding e by (simp_all add: Scheduler_priority_Ready_queue_extract_def)
  show ?thesis using r' k prio_schedule [OF r' ne, of True]
    by (auto simp: Scheduler_priority_Block_def Scheduler_Generic_block_def Let_def same_states_def)
qed

text \<open>When a thread is unblocked, its ready queue data are brought up to date if they are stale.\<close>

lemma prio_refresh:
  assumes r: "prio_rep pool s pr xs" and t: "t \<in> pool" "t \<notin> set xs"
  defines "s' \<equiv> (if of_nat (pr t) \<noteq> current_priority (Ready_queue (threads s t)) then update_ready_queue t (of_nat (pr t)) s else s)"
  shows "prio_rep pool s' pr xs" and "Ready_queue (threads s' t) = rq_of (Ready s') (pr t)" and "same_states s s'"
    and "heir s' = heir s" and "\<And>x. wait_priority (threads s' x) = wait_priority (threads s x)"
proof -
  obtain c where c: "c < 256" "Ready_queue (threads s t) = rq_of (Ready s) c" using r t(1) by (auto simp: prio_rep_def)
  have "(of_nat (pr t) = (of_nat c :: uint32)) = (pr t = c)"
    using c(1) prio_repD(5) [OF r t(1)] by (simp add: word_unat_eq_iff unat_of_nat)
  then show "Ready_queue (threads s' t) = rq_of (Ready s') (pr t)"
    using c rq_of_simps(1) [OF c(1), of "Ready s"] by (auto simp: s'_def update_ready_queue_def rq_of_def [symmetric])
  show "prio_rep pool s' pr xs" using r t prio_repD(5) [OF r t(1)]
    by (auto simp: s'_def prio_rep_def priorities_ok_def update_ready_queue_def rq_of_def)
  show "same_states s s'" and "heir s' = heir s" and "\<And>x. wait_priority (threads s' x) = wait_priority (threads s x)"
    by (simp_all add: s'_def update_ready_queue_def same_states_def)
qed

lemma ucast_priority:
  assumes "p < 256"
  shows "ucast (of_nat p :: uint64) = (of_nat p :: uint32)" and "ucast (of_nat p :: uint32) = (of_nat p :: uint64)"
    and "(of_nat p :: uint32) = 0 \<longleftrightarrow> p = 0"
  using assms by (simp_all add: unsigned_of_nat take_bit_nat_eq_self word_unat_eq_iff unat_of_nat)

lemma prio_unblock:
  assumes r: "prio_rep pool s pr xs" and t: "t \<in> pool" "t \<notin> set xs" and h: "heir s \<in> set xs"
  shows "\<exists>s'. Scheduler_priority_Unblock t s = Some s' \<and> same_states s s' \<and> prio_rep pool s' pr (insert_fifo pr t xs)
    \<and> heir s' = (if pr t < pr (heir s) \<and> (is_preemptible (threads s (heir s)) \<or> pr t = 0) then t else heir s)"
proof -
  note D = prio_repD [OF r] and u = ucast_priority [OF prio_repD(5) [OF r t(1)]] and R = prio_refresh [OF r t]
  define s1 where "s1 = (if of_nat (pr t) \<noteq> current_priority (Ready_queue (threads s t)) then update_ready_queue t (of_nat (pr t)) s else s)"
  define s2 where "s2 = Scheduler_priority_Ready_queue_enqueue t (Ready_queue (threads s1 t)) s1"
  note R = R [folded s1_def]
  have r2: "prio_rep pool s2 pr (insert_fifo pr t xs)" unfolding s2_def R(2) by (rule prio_enqueue(1) [OF R(1) t R(2)])
  have k: "heir s2 = heir s" "same_states s s2" "wait_priority (threads s2 x) = wait_priority (threads s x)" for x
    using R(3-5) by (auto simp: s2_def Scheduler_priority_Ready_queue_enqueue_def same_states_def)
  have pv: "fst (Scheduler_Node_get_priority (threads s t)) = of_nat (pr t)" "wait_priority (threads s (heir s)) = of_nat (pr (heir s))"
    "pr t < 2 ^ 64" "pr (heir s) < 2 ^ 64"
    using r t h D(4) D(5) [OF t(1)] D(6) [OF h] by (auto simp: prio_rep_def priorities_ok_def Scheduler_Node_get_priority_def)
  have "Scheduler_priority_Unblock t s = Some (if pr t < pr (heir s) then Scheduler_Update_heir t (pr t = 0) s2 else s2)"
    unfolding Scheduler_priority_Unblock_def Let_def pv u
    unfolding s1_def [symmetric] unfolding s2_def [symmetric]
    by (simp add: k Thread_Get_priority_def pv of_nat_less_64 [OF pv(3,4)])
  moreover have "prio_rep pool (Scheduler_Update_heir t f s2) pr (insert_fifo pr t xs)" for f
    using r2 by (auto simp: Scheduler_Update_heir_def prio_rep_def priorities_ok_def)
  ultimately show ?thesis using r2 k(1,2) by (auto simp: Scheduler_Update_heir_simps same_states_def)
qed

lemma prio_yield:
  assumes r: "prio_rep pool s pr xs" and t: "t \<in> set xs" and p: "is_preemptible (threads s (heir s))"
  shows "\<exists>s'. Scheduler_priority_Yield t s = Some s' \<and> same_states s s' \<and> prio_rep pool s' pr (insert_fifo pr t (remove1 t xs))
    \<and> heir s' = hd (insert_fifo pr t (remove1 t xs))"
proof -
  note D = prio_repD [OF r] and q = rq_of_simps [OF prio_repD(6) [OF r t], of "Ready s"]
  note c = Chain_Has_only_one_node_rep [OF queues_okD(1) [OF D(1) D(6) [OF t]]]
  let ?Q = "queue_of pr xs" and ?ys = "insert_fifo pr t (remove1 t xs)"
  define m where "m = (if length (?Q (pr t)) = 1 then chains s
    else Chain_Append_unprotected (queue_at (Ready s) (pr t)) t (Chain_Extract_unprotected t (chains s)))"
  have tq: "t \<in> set (?Q (pr t))" using t by simp
  have nq: "t \<notin> set (remove1 t xs)" "t \<in> pool" using D(3,4) t by auto
  have Q: "queue_of pr ?ys = ?Q(pr t := remove1 t (?Q (pr t)) @ [t])"
    unfolding queue_of_insert_fifo [OF sorted_remove1 [OF D(2)]] by (auto simp: fun_eq_iff filter_remove1 remove1_idem)
  have same: "{q. q < 256 \<and> queue_of pr ?ys q \<noteq> []} = {q. q < 256 \<and> ?Q q \<noteq> []}"
    using t D(3) by (auto simp: filter_empty_conv insert_set)
  have ok: "queues_ok pool (Ready s) m (Bit_map s) (queue_of pr ?ys)"
  proof (cases "length (?Q (pr t)) = 1")
    case True
    then obtain y where y: "?Q (pr t) = [y]" by (auto simp: length_Suc_conv)
    then have "?Q (pr t) = [t]" using tq unfolding y by simp
    then have "queue_of pr ?ys = ?Q" unfolding Q by (auto simp: fun_eq_iff)
    then show ?thesis using D(1) True by (simp add: m_def)
  next
    case False
    have "t \<notin> set ((queue_of pr (remove1 t xs)) q)" for q using nq(1) by simp
    from queues_append [OF queues_extract [OF D(1) D(6) [OF t] tq False, folded queue_of_remove1] D(6) [OF t] nq(2) this]
    show ?thesis using D(1) same False
      unfolding queue_of_insert_fifo [OF sorted_remove1 [OF D(2)], symmetric] by (simp add: queues_ok_def m_def)
  qed
  have r': "prio_rep pool (s\<lparr>chains := m, Bit_map := Bit_map s\<rparr>) pr ?ys"
    using ok sorted_insert_fifo [OF sorted_remove1 [OF D(2)]] D(3,4,7) nq t
    by (intro prio_rep_queues [OF r]) (auto simp: insert_distinct insert_set)
  have y: "Scheduler_priority_Yield t s = Some (Scheduler_priority_Schedule_body True (s\<lparr>chains := m, Bit_map := Bit_map s\<rparr>))"
    using c D(7) [OF t] q by (simp add: Scheduler_priority_Yield_def Let_def m_def)
  have ne: "?ys \<noteq> []" by (simp add: insert_fifo_def)
  show ?thesis unfolding y using prio_schedule [OF r' ne, of True] by (simp add: same_states_def)
qed

lemma prio_set_priority:
  assumes r: "prio_rep pool s pr xs" and q: "q < 256" and t: "t \<notin> set xs"
  shows "prio_rep pool (s\<lparr>threads := (threads s)(t := with_priority (of_nat q) b (threads s t))\<rparr>) (pr(t := q)) xs"
proof -
  have m: "map (pr(t := q)) xs = map pr xs" using t by auto
  show ?thesis using r [unfolded prio_rep_def] t priorities_ok_upd [of pool 256 s pr q t b] q
    unfolding prio_rep_def m queue_of_upd [OF t]
    by (auto simp: with_priority_fields)
qed

lemma prio_update_blocked:
  assumes r: "prio_rep pool s pr xs" and t: "t \<notin> set xs" and z: "current_state (threads s t) \<noteq> 0" and q: "q < 256"
  shows "\<exists>s'. change_priority Scheduler_priority_Update_priority t q prepend s = Some s' \<and> same_states s s'
    \<and> prio_rep pool s' (pr(t := q)) xs \<and> heir s' = heir s"
  using prio_set_priority [OF r q t, of prepend] z
  by (simp add: change_priority_def Scheduler_priority_Update_priority_def Thread_Is_ready_def same_states_def
      with_priority_fields)

lemma prio_update_ready_queue:
  assumes r: "prio_rep pool s pr xs" and q: "pr t < 256" and t: "t \<notin> set xs"
  shows "prio_rep pool (update_ready_queue t (of_nat (pr t)) s) pr xs"
    and "Ready_queue (threads (update_ready_queue t (of_nat (pr t)) s) t) = rq_of (Ready s) (pr t)"
  using assms by (auto simp: prio_rep_def update_ready_queue_def rq_of_def priorities_ok_def)

lemma extract_threads:
  "Scheduler_priority_Ready_queue_extract t rq (s\<lparr>threads := f\<rparr>) = (Scheduler_priority_Ready_queue_extract t rq s)\<lparr>threads := f\<rparr>"
  by (cases s) (simp add: Scheduler_priority_Ready_queue_extract_def)

lemma prio_update:
  fixes prepend :: bool
  assumes r: "prio_rep pool s pr xs" and t: "t \<in> set xs" and z: "current_state (threads s t) = 0" and q: "q < 256" "q \<noteq> pr t"
    and p: "is_preemptible (threads s (heir s))"
  defines "ys \<equiv> (if prepend then insert_lifo else insert_fifo) (pr(t := q)) t (remove1 t xs)"
  shows "\<exists>s'. change_priority Scheduler_priority_Update_priority t q prepend s = Some s' \<and> same_states s s'
    \<and> prio_rep pool s' (pr(t := q)) ys \<and> heir s' = hd ys"
proof -
  note D = prio_repD [OF r] and u = ucast_priority [OF q(1)]
  let ?pr = "pr(t := q)" and ?th = "(threads s)(t := with_priority (of_nat q) prepend (threads s t))"
  define s1 where "s1 = Scheduler_priority_Ready_queue_extract t (rq_of (Ready s) (pr t)) (s\<lparr>threads := ?th\<rparr>)"
  define s2 where "s2 = update_ready_queue t (of_nat q) s1"
  define s3 where "s3 = (if prepend then Scheduler_priority_Ready_queue_enqueue_first t (rq_of (Ready s) q) s2
    else Scheduler_priority_Ready_queue_enqueue t (rq_of (Ready s) q) s2)"
  have n: "t \<notin> set (remove1 t xs)" "t \<in> pool" using D(3,4) t by auto
  have k0: "threads (Scheduler_priority_Ready_queue_extract t rq s) = threads s" for rq
    by (simp add: Scheduler_priority_Ready_queue_extract_def)
  have r1: "prio_rep pool s1 ?pr (remove1 t xs)" unfolding s1_def extract_threads
    using prio_set_priority [OF prio_extract [OF r t] q(1) n(1), of prepend] by (simp add: k0)
  have k1: "Ready s1 = Ready s" "heir s1 = heir s" "threads s1 = ?th"
    by (simp_all add: s1_def Scheduler_priority_Ready_queue_extract_def)
  have r2: "prio_rep pool s2 ?pr (remove1 t xs)" "Ready_queue (threads s2 t) = rq_of (Ready s2) q" "Ready s2 = Ready s"
    using prio_update_ready_queue [OF r1 _ n(1)] q(1) by (simp_all add: s2_def k1 update_ready_queue_def)
  have r3: "prio_rep pool s3 ?pr ys"
    using prio_enqueue [OF r2(1) n(2,1)] r2(2,3) by (simp add: s3_def ys_def)
  have k3: "heir s3 = heir s" "same_states s s3"
    by (auto simp: s3_def s2_def k1 update_ready_queue_def same_states_def Scheduler_priority_Ready_queue_enqueue_def
        Scheduler_priority_Ready_queue_enqueue_first_def with_priority_fields)
  have "of_nat q \<noteq> (of_nat (pr t) :: uint32)" using q D(6) [OF t] by (simp add: word_unat_eq_iff unat_of_nat)
  then have e: "change_priority Scheduler_priority_Update_priority t q prepend s = Some (Scheduler_priority_Schedule_body False s3)"
    using z D(7) [OF t] r2(2,3) u rq_of_simps(1) [OF D(6) [OF t]]
    by (simp add: change_priority_def Scheduler_priority_Update_priority_def Thread_Is_ready_def Scheduler_Node_get_priority_def
        with_priority_fields s1_def [symmetric] s2_def [symmetric] s3_def Let_def)
  have ne: "ys \<noteq> []" by (auto simp: ys_def insert_fifo_def insert_lifo_def)
  show ?thesis unfolding e using prio_schedule [OF r3 ne, of False] k3 p by (simp add: same_states_def)
qed

interpretation prio: priority_scheduler "prio_rep pool" Scheduler_priority_Block Scheduler_priority_Unblock
    Scheduler_priority_Yield Scheduler_priority_Update_priority pool 256
proof
  show "sorted (map pr xs) \<and> distinct xs \<and> set xs \<subseteq> pool" if "prio_rep pool s pr xs" for s pr xs
    using that by (simp add: prio_rep_def)
  show "prio_rep pool (set_state t w s) pr xs" if "prio_rep pool s pr xs" for s pr xs t w
    using that by (auto simp: prio_rep_def priorities_ok_def set_state_def)
qed ((rule prio_block prio_unblock prio_yield prio_update prio_update_blocked; assumption)+)

end
