(* ===== verification/Scheduler_Simple.thy ===== *)
theory Scheduler_Simple
  imports Scheduler
begin

text \<open>
  The simple priority scheduler, \<^verbatim>\<open>score/src/schedulersimple*.c\<close> and \<^verbatim>\<open>schedulersimpleimpl.h\<close>: one ready
  chain, kept in order by ordered insertion. It meets the contract of a priority scheduler.
\<close>

section \<open>Operations\<close>

record simple_sched = sched +
  Ready_simple :: uintptr

type_synonym simple = "unit simple_sched_ext sched_scheme"

definition Scheduler_simple_Initialize :: "simple \<Rightarrow> simple" where
  "Scheduler_simple_Initialize s = s\<lparr>chains := Chain_Initialize_empty (Ready_simple s) (chains s)\<rparr>"

definition Scheduler_simple_Insert_priority_lifo_order :: "simple \<Rightarrow> uint64 \<Rightarrow> uintptr \<Rightarrow> bool" where
  "Scheduler_simple_Insert_priority_lifo_order s priority_to_insert thread_next \<longleftrightarrow>
     priority_to_insert \<le> Thread_Get_priority (threads s thread_next)"

definition Scheduler_simple_Insert_priority_fifo_order :: "simple \<Rightarrow> uint64 \<Rightarrow> uintptr \<Rightarrow> bool" where
  "Scheduler_simple_Insert_priority_fifo_order s priority_to_insert thread_next \<longleftrightarrow>
     priority_to_insert < Thread_Get_priority (threads s thread_next)"

definition Scheduler_simple_Insert_priority_lifo :: "uintptr \<Rightarrow> uintptr \<Rightarrow> simple \<Rightarrow> simple option" where
  "Scheduler_simple_Insert_priority_lifo chain to_insert s =
     map_option (\<lambda>m. s\<lparr>chains := m\<rparr>)
       (Chain_Insert_ordered_unprotected chain to_insert (Thread_Get_priority (threads s to_insert))
          (Scheduler_simple_Insert_priority_lifo_order s) (chains s))"

definition Scheduler_simple_Insert_priority_fifo :: "uintptr \<Rightarrow> uintptr \<Rightarrow> simple \<Rightarrow> simple option" where
  "Scheduler_simple_Insert_priority_fifo chain to_insert s =
     map_option (\<lambda>m. s\<lparr>chains := m\<rparr>)
       (Chain_Insert_ordered_unprotected chain to_insert (Thread_Get_priority (threads s to_insert))
          (Scheduler_simple_Insert_priority_fifo_order s) (chains s))"

definition Scheduler_simple_Extract :: "uintptr \<Rightarrow> simple \<Rightarrow> simple" where
  "Scheduler_simple_Extract the_thread s = s\<lparr>chains := Chain_Extract_unprotected the_thread (chains s)\<rparr>"

definition Scheduler_simple_Schedule_body :: "bool \<Rightarrow> simple \<Rightarrow> simple" where
  "Scheduler_simple_Schedule_body force_dispatch s =
     Scheduler_Update_heir (Chain_First (chains s) (Ready_simple s)) force_dispatch s"

definition Scheduler_simple_Schedule :: "simple \<Rightarrow> simple" where
  "Scheduler_simple_Schedule s = Scheduler_simple_Schedule_body False s"

definition Scheduler_simple_Block :: "uintptr \<Rightarrow> simple \<Rightarrow> simple option" where
  "Scheduler_simple_Block = Scheduler_Generic_block Scheduler_simple_Extract Scheduler_simple_Schedule_body"

definition Scheduler_simple_Unblock :: "uintptr \<Rightarrow> simple \<Rightarrow> simple option" where
  "Scheduler_simple_Unblock the_thread s =
     (case Scheduler_simple_Insert_priority_fifo (Ready_simple s) the_thread s of
        None \<Rightarrow> None
      | Some s \<Rightarrow>
          let priority = Thread_Get_priority (threads s the_thread)
          in Some (if priority < Thread_Get_priority (threads s (heir s))
                   then Scheduler_Update_heir the_thread (priority = 0) s else s))"

definition Scheduler_simple_Yield :: "uintptr \<Rightarrow> simple \<Rightarrow> simple option" where
  "Scheduler_simple_Yield the_thread s =
     (let s = s\<lparr>chains := Chain_Extract_unprotected the_thread (chains s)\<rparr>
      in map_option (Scheduler_simple_Schedule_body False)
           (Scheduler_simple_Insert_priority_fifo (Ready_simple s) the_thread s))"

definition Scheduler_simple_Update_priority :: "uintptr \<Rightarrow> simple \<Rightarrow> simple option" where
  "Scheduler_simple_Update_priority the_thread s =
     (if \<not> Thread_Is_ready (threads s the_thread) then Some s
      else let (_, prepend) = Scheduler_Node_get_priority (threads s the_thread);
               s = Scheduler_simple_Extract the_thread s
           in map_option (Scheduler_simple_Schedule_body False)
                (if prepend then Scheduler_simple_Insert_priority_lifo (Ready_simple s) the_thread s
                 else Scheduler_simple_Insert_priority_fifo (Ready_simple s) the_thread s))"

section \<open>The ready chain is the ready list\<close>

definition simple_rep :: "uintptr set \<Rightarrow> simple \<Rightarrow> (uintptr \<Rightarrow> nat) \<Rightarrow> uintptr list \<Rightarrow> bool" where
  "simple_rep pool s pr xs \<longleftrightarrow> chain_rep (chains s) (Ready_simple s) xs \<and> sorted (map pr xs) \<and> set xs \<subseteq> pool
     \<and> nodes_ok (set (footprint (Ready_simple s) [])) pool \<and> priorities_ok pool (2 ^ 64) s pr"

lemma simple_first:
  assumes "simple_rep pool s pr xs" and "xs \<noteq> []"
  shows "Chain_First (chains s) (Ready_simple s) = hd xs"
  using assms chain_rep_ends(1) [of "chains s" "Ready_simple s" xs]
  by (cases xs) (auto simp: simple_rep_def chain_accessors)

lemma simple_chains:
  assumes "simple_rep pool s pr xs" and "chain_rep m (Ready_simple s) ys" and "sorted (map pr ys)" and "set ys \<subseteq> pool"
  shows "simple_rep pool (s\<lparr>chains := m\<rparr>) pr ys"
  using assms by (simp add: simple_rep_def priorities_ok_def)

lemma simple_fresh: "simple_rep pool s pr xs \<Longrightarrow> t \<in> pool \<Longrightarrow> t \<notin> set xs \<Longrightarrow> chain_fresh (Ready_simple s) xs t"
  by (rule nodes_ok_fresh) (auto simp: simple_rep_def)

lemma simple_insert_fifo:
  assumes r: "simple_rep pool s pr xs" and "t \<in> pool" and "t \<notin> set xs"
  shows "\<exists>m. Scheduler_simple_Insert_priority_fifo (Ready_simple s) t s = Some (s\<lparr>chains := m\<rparr>)
    \<and> simple_rep pool (s\<lparr>chains := m\<rparr>) pr (insert_fifo pr t xs)"
proof -
  have c: "chain_rep (chains s) (Ready_simple s) xs" and sub: "set xs \<subseteq> pool" and so: "sorted (map pr xs)"
    using r by (simp_all add: simple_rep_def)
  have o: "(\<not> Scheduler_simple_Insert_priority_fifo_order s (Thread_Get_priority (threads s t)) x) = (pr x \<le> pr t)" if "x \<in> set xs" for x
    using that r sub assms(2) by (auto simp: simple_rep_def priorities_ok_def subset_iff Thread_Get_priority_def
        Scheduler_simple_Insert_priority_fifo_order_def of_nat_less_64)
  then have e: "takeWhile (\<lambda>x. \<not> Scheduler_simple_Insert_priority_fifo_order s (Thread_Get_priority (threads s t)) x) xs
      @ t # dropWhile (\<lambda>x. \<not> Scheduler_simple_Insert_priority_fifo_order s (Thread_Get_priority (threads s t)) x) xs = insert_fifo pr t xs"
    unfolding insert_fifo_def by (metis (mono_tags, lifting) takeWhile_cong dropWhile_cong)
  show ?thesis
    using Chain_Insert_ordered_rep [OF c simple_fresh [OF r assms(2,3)], of "Thread_Get_priority (threads s t)"
        "Scheduler_simple_Insert_priority_fifo_order s"] simple_chains [OF r _ sorted_insert_fifo [OF so]] sub assms(2)
    unfolding e by (auto simp: Scheduler_simple_Insert_priority_fifo_def insert_set)
qed

lemma simple_insert_lifo:
  assumes r: "simple_rep pool s pr xs" and "t \<in> pool" and "t \<notin> set xs"
  shows "\<exists>m. Scheduler_simple_Insert_priority_lifo (Ready_simple s) t s = Some (s\<lparr>chains := m\<rparr>)
    \<and> simple_rep pool (s\<lparr>chains := m\<rparr>) pr (insert_lifo pr t xs)"
proof -
  have c: "chain_rep (chains s) (Ready_simple s) xs" and sub: "set xs \<subseteq> pool" and so: "sorted (map pr xs)"
    using r by (simp_all add: simple_rep_def)
  have o: "(\<not> Scheduler_simple_Insert_priority_lifo_order s (Thread_Get_priority (threads s t)) x) = (pr x < pr t)" if "x \<in> set xs" for x
    using that r sub assms(2) by (auto simp: simple_rep_def priorities_ok_def subset_iff Thread_Get_priority_def
        Scheduler_simple_Insert_priority_lifo_order_def of_nat_le_64)
  then have e: "takeWhile (\<lambda>x. \<not> Scheduler_simple_Insert_priority_lifo_order s (Thread_Get_priority (threads s t)) x) xs
      @ t # dropWhile (\<lambda>x. \<not> Scheduler_simple_Insert_priority_lifo_order s (Thread_Get_priority (threads s t)) x) xs = insert_lifo pr t xs"
    unfolding insert_lifo_def by (metis (mono_tags, lifting) takeWhile_cong dropWhile_cong)
  show ?thesis
    using Chain_Insert_ordered_rep [OF c simple_fresh [OF r assms(2,3)], of "Thread_Get_priority (threads s t)"
        "Scheduler_simple_Insert_priority_lifo_order s"] simple_chains [OF r _ sorted_insert_lifo [OF so]] sub assms(2)
    unfolding e by (auto simp: Scheduler_simple_Insert_priority_lifo_def insert_set)
qed

lemma simple_distinct: "simple_rep pool s pr xs \<Longrightarrow> distinct xs"
  by (simp add: simple_rep_def chain_rep_def footprint_def)

lemma simple_extract:
  assumes r: "simple_rep pool s pr xs" and "t \<in> set xs"
  shows "simple_rep pool (Scheduler_simple_Extract t s) pr (remove1 t xs)"
proof -
  obtain A B where x: "xs = A @ t # B" using assms(2) by (meson split_list)
  have "remove1 t xs = A @ B" using simple_distinct [OF r] x by (simp add: remove1_append)
  then show ?thesis using chain_rep_extract [of "chains s" "Ready_simple s" A t B] r x sorted_remove1 [of pr xs t] simple_chains [OF r, of _ "A @ B"]
    by (simp add: simple_rep_def Scheduler_simple_Extract_def)
qed

lemma simple_schedule:
  assumes "simple_rep pool s pr xs" and "xs \<noteq> []"
  shows "simple_rep pool (Scheduler_simple_Schedule_body f s) pr xs"
    and "threads (Scheduler_simple_Schedule_body f s) = threads s"
    and "heir (Scheduler_simple_Schedule_body f s) = (if is_preemptible (threads s (heir s)) \<or> f then hd xs else heir s)"
  using assms(1) simple_first [OF assms]
  by (auto simp: Scheduler_simple_Schedule_body_def Scheduler_Update_heir_def simple_rep_def priorities_ok_def)

section \<open>The simple scheduler meets the contract\<close>

lemma simple_block:
  assumes r: "simple_rep pool s pr xs" and "t \<in> set xs" and "remove1 t xs \<noteq> []"
  shows "\<exists>s'. Scheduler_simple_Block t s = Some s' \<and> same_states s s' \<and> simple_rep pool s' pr (remove1 t xs)
    \<and> heir s' = (if t = executing s \<or> t = heir s then hd (remove1 t xs) else heir s)"
  using simple_extract [OF r assms(2)] simple_schedule [OF simple_extract [OF r assms(2)] assms(3), of True]
  by (auto simp: Scheduler_simple_Block_def Scheduler_Generic_block_def Let_def same_states_def Scheduler_simple_Extract_def)

lemma simple_unblock:
  assumes r: "simple_rep pool s pr xs" and t: "t \<in> pool" "t \<notin> set xs" and h: "heir s \<in> set xs"
  shows "\<exists>s'. Scheduler_simple_Unblock t s = Some s' \<and> same_states s s' \<and> simple_rep pool s' pr (insert_fifo pr t xs)
    \<and> heir s' = (if pr t < pr (heir s) \<and> (is_preemptible (threads s (heir s)) \<or> pr t = 0) then t else heir s)"
proof -
  obtain m where i: "Scheduler_simple_Insert_priority_fifo (Ready_simple s) t s = Some (s\<lparr>chains := m\<rparr>)"
    and r': "simple_rep pool (s\<lparr>chains := m\<rparr>) pr (insert_fifo pr t xs)"
    using simple_insert_fifo [OF r t] by blast
  have "heir s \<in> pool" using r h by (auto simp: simple_rep_def)
  then have p: "(Thread_Get_priority (threads s t) < Thread_Get_priority (threads s (heir s))) = (pr t < pr (heir s))"
    "(Thread_Get_priority (threads s t) = 0) = (pr t = 0)"
    using r t by (simp_all add: simple_rep_def priorities_ok_def Thread_Get_priority_def of_nat_less_64 of_nat_0_64)
  show ?thesis using i r' p
    by (auto simp: Scheduler_simple_Unblock_def Let_def same_states_def Scheduler_Update_heir_def simple_rep_def priorities_ok_def)
qed

lemma simple_yield:
  assumes r: "simple_rep pool s pr xs" and t: "t \<in> set xs" and p: "is_preemptible (threads s (heir s))"
  shows "\<exists>s'. Scheduler_simple_Yield t s = Some s' \<and> same_states s s' \<and> simple_rep pool s' pr (insert_fifo pr t (remove1 t xs))
    \<and> heir s' = hd (insert_fifo pr t (remove1 t xs))"
proof -
  have n: "t \<notin> set (remove1 t xs)" "t \<in> pool" using simple_distinct [OF r] r t by (auto simp: simple_rep_def)
  obtain m where i: "Scheduler_simple_Insert_priority_fifo (Ready_simple s) t (Scheduler_simple_Extract t s) = Some ((Scheduler_simple_Extract t s)\<lparr>chains := m\<rparr>)"
    and r': "simple_rep pool ((Scheduler_simple_Extract t s)\<lparr>chains := m\<rparr>) pr (insert_fifo pr t (remove1 t xs))"
    using simple_insert_fifo [OF simple_extract [OF r t] n(2,1)] by (auto simp: Scheduler_simple_Extract_def)
  have ne: "insert_fifo pr t (remove1 t xs) \<noteq> []" by (simp add: insert_fifo_def)
  show ?thesis using i p simple_schedule [OF r' ne, of False]
    by (auto simp: Scheduler_simple_Yield_def Let_def same_states_def Scheduler_simple_Extract_def)
qed

lemma simple_set_priority:
  assumes r: "simple_rep pool s pr xs" and q: "q < 2 ^ 64"
  shows "t \<notin> set xs \<Longrightarrow> simple_rep pool (s\<lparr>threads := (threads s)(t := with_priority (of_nat q) b (threads s t))\<rparr>) (pr(t := q)) xs"
  using r priorities_ok_upd [of pool "2 ^ 64" s pr q t b] q map_upd_other [of xs pr t q] simple_distinct [OF r]
  by (simp add: simple_rep_def remove1_idem)

lemma simple_update:
  fixes prepend :: bool
  assumes r: "simple_rep pool s pr xs" and t: "t \<in> set xs" and z: "current_state (threads s t) = 0" and q: "q < 2 ^ 64"
    and p: "is_preemptible (threads s (heir s))"
  defines "ys \<equiv> (if prepend then insert_lifo else insert_fifo) (pr(t := q)) t (remove1 t xs)"
  shows "\<exists>s'. change_priority Scheduler_simple_Update_priority t q prepend s = Some s' \<and> same_states s s'
    \<and> simple_rep pool s' (pr(t := q)) ys \<and> heir s' = hd ys"
proof -
  let ?s = "Scheduler_simple_Extract t (s\<lparr>threads := (threads s)(t := with_priority (of_nat q) prepend (threads s t))\<rparr>)"
  have n: "t \<notin> set (remove1 t xs)" "t \<in> pool" using simple_distinct [OF r] r t by (auto simp: simple_rep_def)
  have r1: "simple_rep pool ?s (pr(t := q)) (remove1 t xs)"
    using simple_set_priority [OF simple_extract [OF r t] q n(1), of prepend]
    by (simp add: Scheduler_simple_Extract_def simple_rep_def priorities_ok_def)
  obtain m where i: "(if prepend then Scheduler_simple_Insert_priority_lifo (Ready_simple s) t ?s
        else Scheduler_simple_Insert_priority_fifo (Ready_simple s) t ?s) = Some (?s\<lparr>chains := m\<rparr>)"
    and r2: "simple_rep pool (?s\<lparr>chains := m\<rparr>) (pr(t := q)) ys"
    using simple_insert_fifo [OF r1 n(2,1)] simple_insert_lifo [OF r1 n(2,1)]
    unfolding ys_def by (cases prepend) (auto simp: Scheduler_simple_Extract_def)
  have ne: "ys \<noteq> []" by (auto simp: ys_def insert_fifo_def insert_lifo_def)
  show ?thesis using i p z simple_schedule [OF r2 ne, of False]
    by (auto simp: change_priority_def Scheduler_simple_Update_priority_def Thread_Is_ready_def Scheduler_Node_get_priority_def
        with_priority_fields Let_def same_states_def Scheduler_simple_Extract_def
        split: if_splits)
qed

lemma simple_update_blocked:
  assumes r: "simple_rep pool s pr xs" and t: "t \<notin> set xs" and z: "current_state (threads s t) \<noteq> 0" and q: "q < 2 ^ 64"
  shows "\<exists>s'. change_priority Scheduler_simple_Update_priority t q prepend s = Some s' \<and> same_states s s'
    \<and> simple_rep pool s' (pr(t := q)) xs \<and> heir s' = heir s"
  using simple_set_priority [OF r q t, of prepend] z
  by (simp add: change_priority_def Scheduler_simple_Update_priority_def Thread_Is_ready_def same_states_def
      with_priority_fields)

interpretation simple: priority_scheduler "simple_rep pool" Scheduler_simple_Block Scheduler_simple_Unblock
    Scheduler_simple_Yield Scheduler_simple_Update_priority pool "2 ^ 64"
proof
  show "sorted (map pr xs) \<and> distinct xs \<and> set xs \<subseteq> pool" if "simple_rep pool s pr xs" for s pr xs
    using that simple_distinct [OF that] by (simp add: simple_rep_def)
  show "simple_rep pool (set_state t w s) pr xs" if "simple_rep pool s pr xs" for s pr xs t w
    using that by (simp add: simple_rep_def priorities_ok_def set_state_def)
qed ((rule simple_block simple_unblock simple_yield simple_update simple_update_blocked; assumption)+)

end
