(* ===== verification/Scheduler_Props.thy ===== *)
theory Scheduler_Props
  imports Scheduler_Priority Scheduler_Simple
begin

text \<open>
  The properties of the priority bit map and of the two priority schedulers, with concrete systems
  for them. The lemmas come from the contract of a priority scheduler, interpreted for both.
\<close>

section \<open>Consistent systems\<close>

text \<open>
  Between operations: the ready list is represented, the idle thread is on it, the heir is its first
  thread, and exactly the threads without a state bit are ready. All threads may be preempted.
\<close>

definition states_ok :: "uintptr set \<Rightarrow> uintptr \<Rightarrow> 'a sched_scheme \<Rightarrow> sched_spec \<Rightarrow> bool" where
  "states_ok pool idle s a = (case a of (pr, st, xs) \<Rightarrow> idle \<in> set xs \<and> heir s = hd xs
     \<and> (\<forall>t\<in>pool. current_state (threads s t) = st t \<and> (st t = 0 \<longleftrightarrow> t \<in> set xs) \<and> is_preemptible (threads s t)))"

definition prio_consistent :: "uintptr set \<Rightarrow> uintptr \<Rightarrow> prio \<Rightarrow> sched_spec \<Rightarrow> bool" where
  "prio_consistent pool idle s a \<longleftrightarrow> prio_rep pool s (fst a) (snd (snd a)) \<and> states_ok pool idle s a"

definition simple_consistent :: "uintptr set \<Rightarrow> uintptr \<Rightarrow> simple \<Rightarrow> sched_spec \<Rightarrow> bool" where
  "simple_consistent pool idle s a \<longleftrightarrow> simple_rep pool s (fst a) (snd (snd a)) \<and> states_ok pool idle s a"

definition prio_ops :: "unit prio_sched_ext sched_ops" where
  "prio_ops = (Scheduler_priority_Block, Scheduler_priority_Unblock, Scheduler_priority_Yield, Scheduler_priority_Update_priority)"

definition simple_ops :: "unit simple_sched_ext sched_ops" where
  "simple_ops = (Scheduler_simple_Block, Scheduler_simple_Unblock, Scheduler_simple_Yield, Scheduler_simple_Update_priority)"

lemma consistent_eqs:
  "prio.consistent pool idle s a = prio_consistent pool idle s a"
  "simple.consistent pool idle u a = simple_consistent pool idle u a"
  by (cases a; simp add: prio.consistent_def simple.consistent_def prio_consistent_def simple_consistent_def states_ok_def)+

lemma prio_runs:
  assumes "prio_consistent pool idle s a" and "ops_ok pool idle 256 ps a"
  shows "\<exists>s'. sched_run prio_ops ps s = Some s' \<and> prio_consistent pool idle s' (fold spec_step ps a)"
  using prio.steps_consistent [of pool idle s a ps] assms by (simp add: prio_ops_def consistent_eqs)

lemma simple_runs:
  assumes "simple_consistent pool idle s a" and "ops_ok pool idle (2 ^ 64) ps a"
  shows "\<exists>s'. sched_run simple_ops ps s = Some s' \<and> simple_consistent pool idle s' (fold spec_step ps a)"
  using simple.steps_consistent [of pool idle s a ps] assms by (simp add: simple_ops_def consistent_eqs)

lemma ops_ok_mono: "ops_ok pool idle l ps a \<Longrightarrow> l \<le> k \<Longrightarrow> ops_ok pool idle k ps a"
proof (induction ps arbitrary: a)
  case (Cons p ps)
  have "op_ok pool idle k p a" using Cons.prems by (cases p; cases a) auto
  then show ?case using Cons by simp
qed simp

lemma heir_most_urgent:
  assumes "prio_consistent pool idle s a" and "t \<in> pool" and "current_state (threads s t) = 0"
  shows "wait_priority (threads s (heir s)) \<le> wait_priority (threads s t)" and "current_state (threads s (heir s)) = 0"
proof -
  obtain pr st xs where a: "a = (pr, st, xs)" by (cases a)
  have r: "prio_rep pool s pr xs" and h: "heir s = hd xs" and t: "t \<in> set xs"
    and st: "\<And>x. x \<in> pool \<Longrightarrow> current_state (threads s x) = st x \<and> (st x = 0 \<longleftrightarrow> x \<in> set xs)"
    using assms by (auto simp: a prio_consistent_def states_ok_def)
  have hx: "hd xs \<in> set xs" using t by (cases xs) auto
  have hp: "hd xs \<in> pool" using prio_repD(4) [OF r] hx by blast
  have le: "pr (hd xs) \<le> pr t" using prio_repD(2) [OF r] t by (cases xs) auto
  have "pr (hd xs) < 2 ^ 64" "pr t < 2 ^ 64" using prio_repD(5) [OF r hp] prio_repD(5) [OF r assms(2)] by auto
  then show "wait_priority (threads s (heir s)) \<le> wait_priority (threads s t)"
    using r hp assms(2) le by (simp add: h prio_rep_def priorities_ok_def of_nat_le_64)
  show "current_state (threads s (heir s)) = 0" using st [OF hp] hx h by simp
qed

lemma prio_heir_after_run:
  assumes "prio_consistent pool idle s a" and "ops_ok pool idle 256 ps a"
  shows "\<exists>s'. sched_run prio_ops ps s = Some s' \<and> current_state (threads s' (heir s')) = 0
    \<and> (\<forall>t\<in>pool. current_state (threads s' t) = 0 \<longrightarrow> wait_priority (threads s' (heir s')) \<le> wait_priority (threads s' t))"
proof -
  obtain s' where s': "sched_run prio_ops ps s = Some s'" "prio_consistent pool idle s' (fold spec_step ps a)"
    using prio_runs [OF assms] by blast
  obtain pr st xs where f: "fold spec_step ps a = (pr, st, xs)" by (cases "fold spec_step ps a")
  have "idle \<in> pool" using s'(2) prio_repD(4) [of pool s' pr xs] by (auto simp: f prio_consistent_def states_ok_def)
  moreover have "current_state (threads s' idle) = 0" using s'(2) calculation by (simp add: f prio_consistent_def states_ok_def)
  ultimately show ?thesis using s' heir_most_urgent [OF s'(2)] by blast
qed

lemma schedulers_same_heir:
  assumes "prio_consistent pool idle s a" and "simple_consistent pool idle u a" and "ops_ok pool idle 256 ps a"
  shows "\<exists>s' u'. sched_run prio_ops ps s = Some s' \<and> sched_run simple_ops ps u = Some u' \<and> heir s' = heir u'"
proof -
  obtain s' where s': "sched_run prio_ops ps s = Some s'" "prio_consistent pool idle s' (fold spec_step ps a)"
    using prio_runs [OF assms(1,3)] by blast
  have "ops_ok pool idle (2 ^ 64) ps a" by (rule ops_ok_mono [OF assms(3)]) simp
  then obtain u' where "sched_run simple_ops ps u = Some u'" "simple_consistent pool idle u' (fold spec_step ps a)"
    using simple_runs [OF assms(2)] by blast
  with s' show ?thesis by (auto simp: prio_consistent_def simple_consistent_def states_ok_def split: prod.splits)
qed

section \<open>The bit map as a set\<close>

datatype bm_op = Add_op nat | Remove_op nat

fun bm_step :: "bm_op \<Rightarrow> Priority_bit_map_Control \<Rightarrow> Priority_bit_map_Control" where
  "bm_step (Add_op p) bm = Priority_bit_map_Add (Priority_bit_map_Initialize_information (of_nat p)) bm"
| "bm_step (Remove_op p) bm = Priority_bit_map_Remove (Priority_bit_map_Initialize_information (of_nat p)) bm"

fun set_step :: "bm_op \<Rightarrow> nat set \<Rightarrow> nat set" where
  "set_step (Add_op p) P = insert p P"
| "set_step (Remove_op p) P = P - {p}"

fun bm_op_priority :: "bm_op \<Rightarrow> nat" where
  "bm_op_priority (Add_op p) = p"
| "bm_op_priority (Remove_op p) = p"

lemma bm_steps_rep:
  "list_all (\<lambda>x. bm_op_priority x < 256) ops \<Longrightarrow> bm_rep bm P \<Longrightarrow> bm_rep (fold bm_step ops bm) (fold set_step ops P)"
proof (induction ops arbitrary: bm P)
  case (Cons x ops)
  have "bm_rep (bm_step x bm) (set_step x P)"
    using Cons.prems bm_rep_Add [of bm P] bm_rep_Remove [of bm P] by (cases x) (auto simp: info_of_def)
  then show ?case using Cons by simp
qed simp

lemma bm_rep_bounded: "bm_rep bm P \<Longrightarrow> P \<subseteq> {..<256}"
  by (auto simp: bm_rep_def)

lemma bm_min:
  assumes "bm_rep bm P" and "P \<noteq> {}"
  shows "unat (Priority_bit_map_Get_highest bm) = Min P"
  using bm_rep_Get_highest [OF assms] finite_subset [OF bm_rep_bounded [OF assms(1)]] by (intro Min_eqI [symmetric]) auto

section \<open>A system with an idle thread and a task\<close>

definition ex_pool :: "uintptr set" where
  "ex_pool = {0x10000, 0x10100}"

definition ex_thread :: "uint64 \<Rightarrow> uint32 \<Rightarrow> Thread_Control" where
  "ex_thread p state = \<lparr>priority_value = p, prepend_it = False, wait_priority = p, is_preemptible = True,
     current_state = state, Ready_queue = Scheduler_priority_Ready_queue_update p 0x1000\<rparr>"

definition ex_threads :: "uintptr \<Rightarrow> Thread_Control" where
  "ex_threads t = (if t = 0x10000 then ex_thread 255 0 else ex_thread 10 1)"

definition ex_prio0 :: prio where
  "ex_prio0 = \<lparr>chains = (\<lambda>_. 0), threads = ex_threads, heir = 0x10000, executing = 0x10000, dispatch_necessary = False,
     Bit_map = Priority_bit_map_Initialize, Ready = 0x1000\<rparr>"

definition ex_prio :: prio where
  "ex_prio = Scheduler_priority_Ready_queue_enqueue 0x10000 (Ready_queue (ex_threads 0x10000)) (the (Scheduler_priority_Initialize 255 ex_prio0))"

definition ex_simple :: simple where
  "ex_simple = \<lparr>chains = Chain_Append_unprotected 0x1000 0x10000 (Chain_Initialize_empty 0x1000 (\<lambda>_. 0)), threads = ex_threads,
     heir = 0x10000, executing = 0x10000, dispatch_necessary = False, Ready_simple = 0x1000\<rparr>"

definition ex_spec :: sched_spec where
  "ex_spec = ((\<lambda>t. if t = 0x10000 then 255 else 10), (\<lambda>t. if t = 0x10000 then 0 else 1), [0x10000])"

lemma ex_nodes: "nodes_ok (array_words 0x1000) ex_pool"
proof -
  have "a < 0x3000" if m: "a \<in> array_words 0x1000" for a
  proof -
    obtain p where p: "p < 256" and a: "a \<in> set (footprint (queue_at 0x1000 p) [])" using m unfolding array_words_def by blast
    then consider "a = 0x1000 + of_nat (24 * p)" | "a = 0x1000 + of_nat (24 * p + 8)" | "a = 0x1000 + of_nat (24 * p + 16)"
      unfolding queue_at_words list.set by blast
    then have "\<exists>i<6144. a = 0x1000 + of_nat i"
    proof cases
      case 1 then show ?thesis using p by (intro exI [of _ "24 * p"]) simp
    next
      case 2 then show ?thesis using p by (intro exI [of _ "24 * p + 8"]) simp
    next
      case 3 then show ?thesis using p by (intro exI [of _ "24 * p + 16"]) simp
    qed
    then obtain i where i: "i < 6144" "a = 0x1000 + of_nat i" by blast
    have "unat a = 4096 + i" unfolding i(2) using word_offset [of "0x1000" 6144 i] i(1) by simp
    then show ?thesis using i(1) by (simp add: word_less_nat_alt)
  qed
  then have "a \<notin> array_words 0x1000" if "a \<ge> 0x3000" for a using that by (meson leD)
  then show ?thesis by (simp add: nodes_ok_def ex_pool_def)
qed

lemma ex_prio_consistent: "prio_consistent ex_pool 0x10000 ex_prio ex_spec"
proof -
  let ?pr = "\<lambda>t. if t = 0x10000 then 255 else (10 :: nat)"
  obtain m where i: "Scheduler_priority_Initialize 255 ex_prio0 = Some (ex_prio0\<lparr>chains := m\<rparr>)"
    and q: "queues_ok ex_pool (Ready ex_prio0) m (Bit_map ex_prio0) (\<lambda>p. [])"
    using Scheduler_priority_Initialize_rep [of ex_prio0 ex_pool] ex_nodes bm_rep_empty
    by (auto simp: ex_prio0_def array_ok_def)
  have rq: "Ready_queue (ex_threads t) = rq_of 0x1000 (?pr t)" for t by (simp add: ex_threads_def ex_thread_def rq_of_def)
  have "\<exists>c<256. Ready_queue (ex_threads t) = rq_of 0x1000 c" for t unfolding rq by (rule exI [of _ "?pr t"]) simp
  then have r: "prio_rep ex_pool (ex_prio0\<lparr>chains := m\<rparr>) ?pr []"
    using q by (simp add: prio_rep_def priorities_ok_def ex_prio0_def) (simp add: ex_threads_def ex_thread_def)
  have e: "ex_prio = Scheduler_priority_Ready_queue_enqueue 0x10000 (rq_of 0x1000 255) (ex_prio0\<lparr>chains := m\<rparr>)"
    using rq [of "0x10000"] by (simp add: ex_prio_def i)
  have "prio_rep ex_pool ex_prio ?pr (insert_fifo ?pr 0x10000 [])"
    unfolding e using prio_enqueue(1) [OF r, of "0x10000"] rq by (simp add: ex_pool_def ex_prio0_def)
  then show ?thesis
    by (auto simp: prio_consistent_def states_ok_def ex_spec_def insert_fifo_def e Scheduler_priority_Ready_queue_enqueue_def
        ex_prio0_def ex_pool_def ex_threads_def ex_thread_def)
qed

lemma ex_simple_consistent: "simple_consistent ex_pool 0x10000 ex_simple ex_spec"
proof -
  have "chain_rep (Chain_Initialize_empty 0x1000 (\<lambda>_. 0)) 0x1000 []" by (rule Chain_Initialize_empty_rep) (simp_all add: footprint_def)
  then have "chain_rep (chains ex_simple) 0x1000 [0x10000]"
    using Chain_Append_rep [of _ "0x1000" "[]" "0x10000"] by (simp add: ex_simple_def chain_fresh_def footprint_def)
  then show ?thesis
    by (auto simp: simple_consistent_def states_ok_def simple_rep_def ex_spec_def ex_simple_def ex_pool_def nodes_ok_def
        footprint_def priorities_ok_def ex_threads_def ex_thread_def)
qed

definition ex_ops :: "sched_op list" where
  "ex_ops = [Clear_state 0x10100 1, Priority_op 0x10000 5 False, Yield_op 0x10000, Set_state 0x10100 2]"

lemma ex_ops_ok: "ops_ok ex_pool 0x10000 256 ex_ops ex_spec"
  by (simp add: ex_ops_def ex_spec_def ex_pool_def)

section \<open>Properties\<close>

text \<open>C4: The deterministic priority scheduler refines the abstract ready list. From a consistent system,
  every sequence of setting and clearing thread states, yields and priority changes (in which the idle
  thread does not block) runs to completion, and the 256 chains with the bit map again represent the
  list that the abstract operations give, with its first thread as heir.\<close>

theorem scheduler_priority_refines:
  assumes "prio_consistent pool idle s a" and "ops_ok pool idle 256 ps a"
  shows "\<exists>s'. sched_run prio_ops ps s = Some s' \<and> prio_consistent pool idle s' (fold spec_step ps a)"
  by (rule prio_runs [OF assms])

theorem scheduler_priority_refines_witness:
  "\<exists>s'. sched_run prio_ops ex_ops ex_prio = Some s' \<and> prio_consistent ex_pool 0x10000 s' (fold spec_step ex_ops ex_spec)"
  by (rule scheduler_priority_refines [OF ex_prio_consistent ex_ops_ok])

text \<open>C7: The heir of the deterministic priority scheduler is, after every such sequence of operations, a ready
  thread, and no ready thread has a numerically lower (more urgent) priority.\<close>

theorem scheduler_priority_heir:
  assumes "prio_consistent pool idle s a" and "ops_ok pool idle 256 ps a"
  shows "\<exists>s'. sched_run prio_ops ps s = Some s' \<and> current_state (threads s' (heir s')) = 0
    \<and> (\<forall>t\<in>pool. current_state (threads s' t) = 0 \<longrightarrow> wait_priority (threads s' (heir s')) \<le> wait_priority (threads s' t))"
  by (rule prio_heir_after_run [OF assms])

theorem scheduler_priority_heir_witness:
  "\<exists>s'. sched_run prio_ops [Clear_state 0x10100 1] ex_prio = Some s' \<and> current_state (threads s' (heir s')) = 0"
proof -
  have "ops_ok ex_pool 0x10000 256 [Clear_state 0x10100 1] ex_spec" by (simp add: ex_pool_def)
  from scheduler_priority_heir [OF ex_prio_consistent this] show ?thesis by blast
qed

text \<open>C8: The simple scheduler, with one sorted chain, and the deterministic priority scheduler, with a chain per
  priority and a bit map, choose the same heir: started on the same ready list, both run the same
  sequence of operations to completion with the same heir. Changes of a priority to itself are excluded:
  there the two schedulers differ.\<close>

theorem schedulers_agree:
  assumes "prio_consistent pool idle s a" and "simple_consistent pool idle u a" and "ops_ok pool idle 256 ps a"
  shows "\<exists>s' u'. sched_run prio_ops ps s = Some s' \<and> sched_run simple_ops ps u = Some u' \<and> heir s' = heir u'"
  by (rule schedulers_same_heir [OF assms])

theorem schedulers_agree_witness:
  "\<exists>s' u'. sched_run prio_ops ex_ops ex_prio = Some s' \<and> sched_run simple_ops ex_ops ex_simple = Some u' \<and> heir s' = heir u'"
  by (rule schedulers_agree [OF ex_prio_consistent ex_simple_consistent ex_ops_ok])

text \<open>C24: The priority bit map is a set of priorities: after every sequence of additions and removals of
  priorities below 256, it is empty exactly when the set is, and otherwise the two bit scans find the minimum.\<close>

theorem Priority_bit_map_set:
  assumes "list_all (\<lambda>x. bm_op_priority x < 256) ops"
  shows "Priority_bit_map_Is_empty (fold bm_step ops Priority_bit_map_Initialize) = (fold set_step ops {} = {})
    \<and> (fold set_step ops {} = {} \<or> unat (Priority_bit_map_Get_highest (fold bm_step ops Priority_bit_map_Initialize)) = Min (fold set_step ops {}))"
  using bm_rep_Is_empty [OF bm_steps_rep [OF assms bm_rep_empty]] bm_min [OF bm_steps_rep [OF assms bm_rep_empty]] by auto

theorem Priority_bit_map_set_witness:
  "unat (Priority_bit_map_Get_highest (fold bm_step [Add_op 200, Add_op 7, Add_op 31, Remove_op 7] Priority_bit_map_Initialize)) = 31"
proof -
  have "fold set_step [Add_op 200, Add_op 7, Add_op 31, Remove_op 7] {} = {31, 200}" by auto
  then show ?thesis using Priority_bit_map_set [of "[Add_op 200, Add_op 7, Add_op 31, Remove_op 7]"] by simp
qed

text \<open>The two implementations of the bit scan agree: on a nonzero 16 bit word the table lookup gives the same
  number as the count of leading zeros of the compiler.\<close>

theorem Bitfield_scan_agree:
  assumes "v \<noteq> (0 :: uint16)"
  shows "Bitfield_Find_first_bit_table (ucast v) = Bitfield_Find_first_bit (ucast v)"
  by (rule Bitfield_Find_first_bit_equiv [OF assms])

theorem Bitfield_scan_agree_witness: "Bitfield_Find_first_bit_table (ucast (0x0123 :: uint16)) = Bitfield_Find_first_bit (ucast (0x0123 :: uint16))"
  by (rule Bitfield_scan_agree) simp

end
