(* ===== verification/Workspace.thy ===== *)
theory Workspace
  imports Heap_Client
begin

text \<open>
  The Workspace Handler, \<^verbatim>\<open>score/src/wkspace.c\<close>: dynamic memory of the kernel, taken from a heap. Its
  clients in the kernel rely on the contract below; the Heap Handler fulfils it. The configuration of
  the workspace at system start is not modelled.
\<close>

section \<open>Operations\<close>

definition Workspace_Allocate :: "uint64 \<Rightarrow> heap_state \<Rightarrow> (uintptr \<times> heap_state) option" where
  "Workspace_Allocate n s = Heap_Allocate (fst s) n (snd s)"

definition Workspace_Free :: "uintptr \<Rightarrow> heap_state \<Rightarrow> heap_state" where
  "Workspace_Free block s = snd (Heap_Free (fst s) block (snd s))"

section \<open>The contract\<close>

text \<open>
  \<open>winv w L\<close>: the workspace \<open>w\<close> is consistent, and \<open>L\<close> gives the areas its clients hold, by their
  address, with their length. All areas lie between \<open>lo\<close> and \<open>hi\<close>.
\<close>

locale workspace =
  fixes winv :: "'w \<Rightarrow> (uintptr \<Rightarrow> nat option) \<Rightarrow> bool" and walloc :: "uint64 \<Rightarrow> 'w \<Rightarrow> (uintptr \<times> 'w) option"
    and wfree :: "uintptr \<Rightarrow> 'w \<Rightarrow> 'w" and lo hi :: nat
  assumes walloc_returns: "winv w L \<Longrightarrow> \<exists>p w'. walloc n w = Some (p, w')
        \<and> (if p = 0 then winv w' L else L p = None \<and> winv w' (L(p := Some (unat n))))"
    and wfree_area: "winv w L \<Longrightarrow> L p = Some k \<Longrightarrow> winv (wfree p w) (L(p := None))"
    and wfree_null: "wfree 0 w = w"
    and area_range: "winv w L \<Longrightarrow> L p = Some k \<Longrightarrow> p \<noteq> 0 \<and> lo \<le> unat p \<and> unat p + k \<le> hi \<and> hi < 2 ^ 64"
    and area_disjoint: "winv w L \<Longrightarrow> L p = Some k \<Longrightarrow> L q = Some l \<Longrightarrow> p \<noteq> q \<Longrightarrow> unat p + k \<le> unat q \<or> unat q + l \<le> unat p"

section \<open>The Heap Handler fulfils the contract\<close>

definition area_of :: "heap_state \<Rightarrow> uintptr \<Rightarrow> nat \<Rightarrow> nat \<times> nat \<Rightarrow> bool" where
  "area_of s p k b \<longleftrightarrow> heap_owns s p b \<and> unat p + k \<le> fst b + snd b + 8"

definition ws_inv :: "nat \<Rightarrow> nat \<Rightarrow> heap_state \<Rightarrow> (uintptr \<Rightarrow> nat option) \<Rightarrow> bool" where
  "ws_inv a n s L \<longleftrightarrow> a + n + 16 < 2 ^ 64 \<and> (\<exists>bs fs. heap_rep (fst s) (snd s) a bs fs \<and> szs bs = n
     \<and> (\<exists>blk. inj_on blk (dom L) \<and> (\<forall>p k. L p = Some k \<longrightarrow> blk p \<in> used_at a bs \<and> area_of s p k (blk p))))"

lemma ws_invI:
  assumes "heap_rep h m a bs fs" and "szs bs = n" and "inj_on blk (dom L)" and "a + n + 16 < 2 ^ 64"
    and "\<And>p k. L p = Some k \<Longrightarrow> blk p \<in> used_at a bs \<and> area_of (h, m) p k (blk p)"
  shows "ws_inv a n (h, m) L"
  unfolding ws_inv_def fst_conv snd_conv using assms by blast

lemma used_block_page:
  assumes "heap_rep h m a bs fs" and "(x, v) \<in> used_at a bs"
  shows "unat (page_size h) \<le> v"
proof -
  have "(v, True) \<in> set bs" using assms(2) by (auto simp: used_at_split)
  then show ?thesis using geomD(4,10) [OF heap_repD(1) [OF assms(1)]] by (fastforce intro: dvd_imp_le)
qed

lemma ws_alloc:
  assumes i: "ws_inv a n s L"
  shows "\<exists>p s'. Workspace_Allocate k s = Some (p, s')
    \<and> (if p = 0 then ws_inv a n s' L else L p = None \<and> ws_inv a n s' (L(p := Some (unat k))))"
proof -
  obtain h m where s: "s = (h, m)" by (cases s)
  obtain bs fs blk where rep: "heap_rep h m a bs fs" and n: "szs bs = n" and inj: "inj_on blk (dom L)"
    and bl: "\<And>p k. L p = Some k \<Longrightarrow> blk p \<in> used_at a bs \<and> area_of s p k (blk p)" and b: "a + n + 16 < 2 ^ 64"
    using i by (auto simp: ws_inv_def s)
  obtain p st' m' bs' fs' where e: "Heap_Allocate h k m = Some (p, h\<lparr>stats := st'\<rparr>, m')"
    and r: "heap_rep (h\<lparr>stats := st'\<rparr>) m' a bs' fs'" and z: "p = 0 \<longrightarrow> bs' = bs"
    and g: "p \<noteq> 0 \<longrightarrow> (\<exists>y s. granted h a bs bs' (unat k) 0 0 (unat p) y s)"
    using Heap_Allocate_granted [OF rep, of k 0 0] unfolding Heap_Allocate_def by (metis unsigned_0)
  let ?s = "(h\<lparr>stats := st'\<rparr>, m')"
  have own: "area_of ?s q j c = area_of s q j c" for q j c by (simp add: area_of_def heap_owns_def s)
  have n': "szs bs' = n" using heap_rep_same_size [OF rep r] n by simp
  have "if p = 0 then ws_inv a n ?s L else L p = None \<and> ws_inv a n ?s (L(p := Some (unat k)))"
  proof (cases "p = 0")
    case True
    then show ?thesis using ws_invI [OF r n' inj b] z bl by (simp add: own)
  next
    case False
    then obtain y t where gr: "granted h a bs bs' (unat k) 0 0 (unat p) y t" using g by blast
    have u: "used_at a bs' = insert (y, t) (used_at a bs)" and new: "(y, t) \<notin> used_at a bs"
      and ow: "area_of s p (unat k) (y, t)"
      using gr by (fastforce simp: granted_def area_of_def heap_owns_def s)+
    have none: "L p = None"
    proof (rule ccontr)
      assume "L p \<noteq> None"
      then obtain j where j: "L p = Some j" by blast
      obtain x v where xv: "blk p = (x, v)" by (cases "blk p")
      then have "(x, v) \<in> used_at a bs" "x + 16 \<le> unat p" "unat p < x + 16 + unat (page_size h)"
        using bl [OF j] by (auto simp: area_of_def heap_owns_def s)
      moreover have "x + v \<le> y \<or> y + t \<le> x" "y + 16 \<le> unat p" "unat p < y + 16 + unat (page_size h)"
        using gr calculation(1) by (auto simp: granted_def)
      moreover have "unat (page_size h) \<le> v" "unat (page_size h) \<le> t"
        using used_block_page [OF rep calculation(1)] used_block_page [OF r, of y t] u by auto
      ultimately show False by auto
    qed
    let ?blk = "blk(p := (y, t))"
    have "inj_on ?blk (dom (L(p := Some (unat k))))"
      using inj new bl none by (auto simp: inj_on_def) (metis domI option.distinct(1))+
    moreover have "?blk q \<in> used_at a bs' \<and> area_of ?s q j (?blk q)" if "(L(p := Some (unat k))) q = Some j" for q j
      using that bl ow u by (auto simp: own split: if_splits)
    ultimately have "ws_inv a n ?s (L(p := Some (unat k)))" by (intro ws_invI [OF r n' _ b])
    then show ?thesis using False none by simp
  qed
  then show ?thesis using e by (auto simp: Workspace_Allocate_def s)
qed

lemma ws_free:
  assumes i: "ws_inv a n s L" and l: "L p = Some k"
  shows "ws_inv a n (Workspace_Free p s) (L(p := None))"
proof -
  obtain h m where s: "s = (h, m)" by (cases s)
  obtain bs fs blk where rep: "heap_rep h m a bs fs" and n: "szs bs = n" and inj: "inj_on blk (dom L)"
    and bl: "\<And>p k. L p = Some k \<Longrightarrow> blk p \<in> used_at a bs \<and> area_of s p k (blk p)" and b: "a + n + 16 < 2 ^ 64"
    using i by (auto simp: ws_inv_def s)
  obtain x v where xv: "blk p = (x, v)" by (cases "blk p")
  have "(x, v) \<in> used_at a bs" "heap_owns (h, m) p (x, v)" using bl [OF l] xv by (auto simp: area_of_def s)
  from heap_dealloc_live [OF rep this]
  obtain h' m' bs' fs' where e: "Heap_Free h p m = (True, h', m')" and r: "heap_rep h' m' a bs' fs'"
    and u: "used_at a bs' = used_at a bs - {(x, v)}" "page_size h' = page_size h" "last_block h' = last_block h" by blast
  have n': "szs bs' = n" using heap_rep_same_size [OF rep r u(3)] n by simp
  have own: "area_of (h', m') q j c = area_of s q j c" for q j c using u(2) by (simp add: area_of_def heap_owns_def s)
  have "blk q \<noteq> (x, v)" if "L q \<noteq> None" "q \<noteq> p" for q
    using inj_onD [OF inj, of q p] that l xv by auto
  then have "blk q \<in> used_at a bs' \<and> area_of (h', m') q j (blk q)" if "(L(p := None)) q = Some j" for q j
    using that bl by (auto simp: own u split: if_splits)
  moreover have "inj_on blk (dom (L(p := None)))" using inj by (rule inj_on_subset) auto
  ultimately have "ws_inv a n (h', m') (L(p := None))" by (intro ws_invI [OF r n' _ b])
  then show ?thesis using e by (simp add: Workspace_Free_def s)
qed

lemma ws_areas:
  assumes i: "ws_inv a n s L" and l: "L p = Some k"
  shows "p \<noteq> 0 \<and> a \<le> unat p \<and> unat p + k \<le> a + n + 8 \<and> a + n + 8 < 2 ^ 64"
    and "L q = Some j \<Longrightarrow> p \<noteq> q \<Longrightarrow> unat p + k \<le> unat q \<or> unat q + j \<le> unat p"
proof -
  obtain bs fs blk where rep: "heap_rep (fst s) (snd s) a bs fs" and n: "szs bs = n" and inj: "inj_on blk (dom L)"
    and bl: "\<And>p k. L p = Some k \<Longrightarrow> blk p \<in> used_at a bs \<and> area_of s p k (blk p)"
    using i by (auto simp: ws_inv_def)
  obtain x v where xv: "blk p = (x, v)" by (cases "blk p")
  have p: "(x, v) \<in> used_at a bs" "x + 16 \<le> unat p" "unat p + k \<le> x + v + 8"
    using bl [OF l] xv by (auto simp: area_of_def heap_owns_def)
  show "p \<noteq> 0 \<and> a \<le> unat p \<and> unat p + k \<le> a + n + 8 \<and> a + n + 8 < 2 ^ 64" using used_at_range [OF p(1)] p n i by (auto simp: ws_inv_def)
  show "unat p + k \<le> unat q \<or> unat q + j \<le> unat p" if q: "L q = Some j" "p \<noteq> q"
  proof -
    obtain y w where yw: "blk q = (y, w)" by (cases "blk q")
    have "(y, w) \<in> used_at a bs" "y + 16 \<le> unat q" "unat q + j \<le> y + w + 8"
      using bl [OF q(1)] yw by (auto simp: area_of_def heap_owns_def)
    moreover have "(x, v) \<noteq> (y, w)" using inj_onD [OF inj, of p q] l q xv yw by auto
    ultimately show ?thesis using used_at_disjoint [OF p(1), of y w] p by auto
  qed
qed

interpretation heap_workspace: workspace "ws_inv a n" Workspace_Allocate Workspace_Free a "a + n + 8"
proof
  show "Workspace_Free 0 w = w" for w by (simp add: Workspace_Free_def Heap_Free_def)
qed (rule ws_alloc ws_free ws_areas; assumption)+

end
