(* ===== verification/Objects.thy ===== *)
theory Objects
  imports Workspace Chain
begin

text \<open>
  The Object Handler, \<^verbatim>\<open>score/src/object*.c\<close>, \<^verbatim>\<open>object.h\<close> and \<^verbatim>\<open>objectimpl.h\<close>: object identifiers, and for
  a class of objects the table of open objects, the chain of inactive objects, the blocks of objects
  from the workspace, names and lookup. It is the configuration without multiprocessing and without
  string names. The workspace is an argument of the operations that allocate.
\<close>

section \<open>Identifiers and names\<close>

type_synonym Objects_Id = uint32

definition Objects_Get_API :: "Objects_Id \<Rightarrow> uint32" where
  "Objects_Get_API the_id = drop_bit 24 the_id AND 0x7"

definition Objects_Get_class :: "Objects_Id \<Rightarrow> uint32" where
  "Objects_Get_class the_id = drop_bit 27 the_id AND 0x1f"

definition Objects_Get_node :: "Objects_Id \<Rightarrow> uint32" where
  "Objects_Get_node the_id = drop_bit 16 the_id AND 0xff"

definition Objects_Get_index :: "Objects_Id \<Rightarrow> uint16" where
  "Objects_Get_index the_id = ucast (drop_bit 0 the_id AND 0xffff)"

definition Objects_Build_id :: "uint32 \<Rightarrow> uint16 \<Rightarrow> uint8 \<Rightarrow> uint16 \<Rightarrow> Objects_Id" where
  "Objects_Build_id the_api the_class node index =
     push_bit 24 the_api OR push_bit 27 (ucast the_class) OR push_bit 16 (ucast node) OR push_bit 0 (ucast index)"

definition Objects_Build_name :: "uint8 \<Rightarrow> uint8 \<Rightarrow> uint8 \<Rightarrow> uint8 \<Rightarrow> uint32" where
  "Objects_Build_name c1 c2 c3 c4 =
     push_bit 24 (ucast c1) OR push_bit 16 (ucast c2) OR push_bit 8 (ucast c3) OR ucast c4"

definition Objects_Is_unlimited :: "uint32 \<Rightarrow> bool" where
  "Objects_Is_unlimited maximum \<longleftrightarrow> maximum AND 0x80000000 \<noteq> 0"

definition Objects_Maximum_per_allocation :: "uint32 \<Rightarrow> uint16" where
  "Objects_Maximum_per_allocation maximum = ucast (maximum AND NOT 0x80000000)"

definition Objects_Is_api_valid :: "uint32 \<Rightarrow> bool" where
  "Objects_Is_api_valid the_api \<longleftrightarrow> \<not> (the_api = 0 \<or> the_api > 3)"

definition Objects_Local_node :: uint16 where
  "Objects_Local_node = 1"

definition Objects_Is_local_node :: "uint32 \<Rightarrow> bool" where
  "Objects_Is_local_node node \<longleftrightarrow> node = ucast Objects_Local_node"

definition Objects_API_maximum_class :: "uint32 \<Rightarrow> uint32" where
  "Objects_API_maximum_class api = (if api = 1 then 2 else if api = 2 then 10 else if api = 3 then 12 else 0)"

section \<open>A class of objects\<close>

text \<open>
  The information of a class with the memory it reaches: the tables as lists, \<^verbatim>\<open>object_blocks\<close> with the
  address of the tables (zero before there are any), the words of the chain nodes, the identifiers and
  names of the objects by address, and the workspace. \<open>uninit\<close> is what fresh memory contains.
\<close>

record 'w Objects_Information =
  the_api :: uint32
  the_class :: uint16
  minimum_id :: Objects_Id
  maximum_id :: Objects_Id
  maximum :: uint16
  auto_extend :: bool
  allocation_size :: uint16
  object_size :: uint64
  local_table :: "uintptr list"
  Inactive :: uintptr
  inactive :: uint16
  inactive_per_block :: "uint32 list"
  tables :: uintptr
  object_blocks :: "uintptr list"
  name_length :: uint16
  nodes :: chain_mem
  object_id :: "uintptr \<Rightarrow> Objects_Id"
  object_name :: "uintptr \<Rightarrow> uint32"
  ws :: 'w
  uninit :: "uintptr \<Rightarrow> uint64"

type_synonym 'w allocate_fun = "uint64 \<Rightarrow> 'w \<Rightarrow> (uintptr \<times> 'w) option"

text \<open>A routine returns or ends in a fatal error; a loop of the heap may not return.\<close>

datatype internal_error = INTERNAL_ERROR_WORKSPACE_ALLOCATION | INTERNAL_ERROR_UNLIMITED_AND_MAXIMUM_IS_0

datatype 'a outcome = Returns 'a | Fatal internal_error

type_synonym 'a result = "'a outcome option"

definition bind_result :: "'a result \<Rightarrow> ('a \<Rightarrow> 'b result) \<Rightarrow> 'b result" where
  "bind_result r f = (case r of None \<Rightarrow> None | Some (Fatal e) \<Rightarrow> Some (Fatal e) | Some (Returns x) \<Rightarrow> f x)"

definition Workspace_Allocate_or_fatal_error :: "'w allocate_fun \<Rightarrow> uint64 \<Rightarrow> 'w \<Rightarrow> (uintptr \<times> 'w) result" where
  "Workspace_Allocate_or_fatal_error walloc n w =
     map_option (\<lambda>(memory, w). if memory = 0 then Fatal INTERNAL_ERROR_WORKSPACE_ALLOCATION else Returns (memory, w)) (walloc n w)"

definition Addresses_Align_up :: "uintptr \<Rightarrow> uint64 \<Rightarrow> uintptr" where
  "Addresses_Align_up address alignment = (let m = alignment - 1 in (address + m) AND NOT m)"

section \<open>Extending\<close>

text \<open>The search for a block without objects: whether the tables must grow, the block and its first index.\<close>

fun Objects_find_block :: "uintptr list \<Rightarrow> uint32 \<Rightarrow> uint32 \<Rightarrow> uint32 \<Rightarrow> bool \<times> uint32 \<times> uint32" where
  "Objects_find_block [] block index_base n = (True, block, index_base)"
| "Objects_find_block (b # bs) block index_base n =
     (if b = 0 then (False, block, index_base) else Objects_find_block bs (block + 1) (index_base + n) n)"

text \<open>Copying \<open>vs\<close> into a table from position \<open>k\<close> on.\<close>

definition write_table :: "nat \<Rightarrow> 'a list \<Rightarrow> 'a list \<Rightarrow> 'a list" where
  "write_table k vs tab = take k tab @ vs @ drop (k + length vs) tab"

definition Objects_new_tables ::
    "uint32 \<Rightarrow> uint32 \<Rightarrow> uint32 \<Rightarrow> uint32 \<Rightarrow> uint32 \<Rightarrow> uintptr \<Rightarrow> 'w Objects_Information \<Rightarrow> 'w Objects_Information" where
  "Objects_new_tables minimum_index block_count index_base index_end new_maximum addr s =
     (let blocks_size = Addresses_Align_up (ucast (block_count + 1) * 8) 8;
          counts_size = Addresses_Align_up (ucast (block_count + 1) * 4) 8;
          blocks0 = map (\<lambda>i. uninit s (addr + 8 * of_nat i)) [0..<unat (block_count + 1)];
          counts0 = map (\<lambda>i. ucast (uninit s (addr + blocks_size + 4 * of_nat i))) [0..<unat (block_count + 1)];
          local0 = map (\<lambda>i. uninit s (addr + blocks_size + counts_size + 8 * of_nat i)) [0..<unat (new_maximum + minimum_index)];
          (blocks1, counts1, local1) =
            (if ucast (maximum s) > minimum_index
             then (write_table 0 (take (unat block_count) (object_blocks s)) blocks0,
                   write_table 0 (take (unat block_count) (inactive_per_block s)) counts0,
                   write_table 0 (take (unat (ucast (maximum s) + minimum_index)) (local_table s)) local0)
             else (blocks0, counts0, write_table 0 (replicate (unat minimum_index) 0) local0));
          blocks2 = blocks1[unat block_count := 0];
          counts2 = counts1[unat block_count := 0];
          local2 = write_table (unat index_base) (replicate (unat (index_end - index_base)) 0) local1
      in s\<lparr>tables := addr, object_blocks := blocks2, inactive_per_block := counts2, local_table := local2,
           maximum := ucast new_maximum,
           maximum_id := Objects_Build_id (the_api s) (the_class s) (ucast Objects_Local_node) (ucast new_maximum)\<rparr>)"

fun Objects_append_loop :: "nat \<Rightarrow> uintptr \<Rightarrow> uint32 \<Rightarrow> 'w Objects_Information \<Rightarrow> 'w Objects_Information" where
  "Objects_append_loop 0 the_object index s = s"
| "Objects_append_loop (Suc n) the_object index s =
     (let s = s\<lparr>object_id := (object_id s)(the_object :=
                Objects_Build_id (the_api s) (the_class s) (ucast Objects_Local_node) (ucast index)),
              nodes := Chain_Append_unprotected (Inactive s) the_object (nodes s)\<rparr>
      in Objects_append_loop n (the_object + object_size s) (index + 1) s)"

definition Objects_add_block :: "uint32 \<Rightarrow> uint32 \<Rightarrow> uint32 \<Rightarrow> uintptr \<Rightarrow> 'w Objects_Information \<Rightarrow> 'w Objects_Information" where
  "Objects_add_block block index_base index_end new_object_block s =
     (let s = s\<lparr>object_blocks := (object_blocks s)[unat block := new_object_block]\<rparr>;
          s = Objects_append_loop (unat (index_end - index_base)) new_object_block index_base s
      in s\<lparr>inactive_per_block := (inactive_per_block s)[unat block := ucast (allocation_size s)],
           inactive := inactive s + allocation_size s\<rparr>)"

text \<open>The memory for the objects or the tables: with \<^verbatim>\<open>auto_extend\<close> the request may fail.\<close>

definition Objects_request :: "'w allocate_fun \<Rightarrow> uint64 \<Rightarrow> 'w Objects_Information \<Rightarrow> (uintptr \<times> 'w Objects_Information) result" where
  "Objects_request walloc n s =
     bind_result (if auto_extend s then map_option Returns (walloc n (ws s)) else Workspace_Allocate_or_fatal_error walloc n (ws s))
       (\<lambda>(p, w). Some (Returns (p, s\<lparr>ws := w\<rparr>)))"

definition Objects_Extend_information ::
    "'w allocate_fun \<Rightarrow> (uintptr \<Rightarrow> 'w \<Rightarrow> 'w) \<Rightarrow> 'w Objects_Information \<Rightarrow> 'w Objects_Information result" where
  "Objects_Extend_information walloc wfree s =
     (let n = ucast (allocation_size s);
          minimum_index = ucast (Objects_Get_index (minimum_id s));
          block_count = (if tables s = 0 then 0 else ucast (maximum s) div n);
          (do_extend, block, index_base) = Objects_find_block (take (unat block_count) (object_blocks s)) 0 minimum_index n;
          index_end = index_base + n;
          new_maximum = ucast (maximum s) + n
      in if new_maximum > 0xffff then Some (Returns s)
         else bind_result (Objects_request walloc (ucast (allocation_size s) * object_size s) s) (\<lambda>(new_object_block, s).
           if new_object_block = 0 then Some (Returns s)
           else if do_extend
           then bind_result
                  (Objects_request walloc
                     (Addresses_Align_up (ucast (block_count + 1) * 8) 8 + Addresses_Align_up (ucast (block_count + 1) * 4) 8
                      + ucast (new_maximum + minimum_index) * 8) s) (\<lambda>(addr, s).
                  if addr = 0 then Some (Returns (s\<lparr>ws := wfree new_object_block (ws s)\<rparr>))
                  else let old_tables = tables s;
                           s = Objects_new_tables minimum_index block_count index_base index_end new_maximum addr s;
                           s = s\<lparr>ws := wfree old_tables (ws s)\<rparr>
                       in Some (Returns (Objects_add_block block index_base index_end new_object_block s)))
           else Some (Returns (Objects_add_block block index_base index_end new_object_block s))))"

section \<open>Allocating and freeing\<close>

definition Objects_Get_inactive :: "'w Objects_Information \<Rightarrow> uintptr \<times> 'w Objects_Information" where
  "Objects_Get_inactive s = (let (node, m) = Chain_Get_unprotected (Inactive s) (nodes s) in (node, s\<lparr>nodes := m\<rparr>))"

definition Objects_block_of :: "'w Objects_Information \<Rightarrow> uintptr \<Rightarrow> uint32" where
  "Objects_block_of s the_object =
     (ucast (Objects_Get_index (object_id s the_object)) - ucast (Objects_Get_index (minimum_id s))) div ucast (allocation_size s)"

definition Objects_Allocate_unprotected ::
    "'w allocate_fun \<Rightarrow> (uintptr \<Rightarrow> 'w \<Rightarrow> 'w) \<Rightarrow> 'w Objects_Information \<Rightarrow> (uintptr \<times> 'w Objects_Information) result" where
  "Objects_Allocate_unprotected walloc wfree s =
     (if object_size s = 0 then Some (Returns (0, s))
      else let (the_object, s) = Objects_Get_inactive s
           in if auto_extend s
              then bind_result
                     (if the_object = 0
                      then bind_result (Objects_Extend_information walloc wfree s) (\<lambda>s. Some (Returns (Objects_Get_inactive s)))
                      else Some (Returns (the_object, s))) (\<lambda>(the_object, s).
                     if the_object \<noteq> 0
                     then let block = Objects_block_of s the_object
                          in Some (Returns (the_object,
                               s\<lparr>inactive_per_block := (inactive_per_block s)[unat block := inactive_per_block s ! unat block - 1],
                                 inactive := inactive s - 1\<rparr>))
                     else Some (Returns (the_object, s)))
              else Some (Returns (the_object, s)))"

text \<open>The nodes of the block are extracted from the chain of inactive objects.\<close>

partial_function (option) Objects_Shrink_loop ::
    "uint32 \<Rightarrow> uint32 \<Rightarrow> uintptr \<Rightarrow> uintptr \<Rightarrow> 'w Objects_Information \<Rightarrow> 'w Objects_Information option" where
  "Objects_Shrink_loop index_base index_end tail node s =
     (if node \<noteq> tail
      then let index = ucast (Objects_Get_index (object_id s node));
               next_node = Chain_Next (nodes s) node
           in Objects_Shrink_loop index_base index_end tail next_node
                (if index \<ge> index_base \<and> index < index_end then s\<lparr>nodes := Chain_Extract_unprotected node (nodes s)\<rparr> else s)
      else Some s)"

lemmas [code] = Objects_Shrink_loop.simps

text \<open>The search is over the counters of the first \<^verbatim>\<open>block_count\<close> blocks.\<close>

fun Objects_Shrink_search :: "uint32 list \<Rightarrow> nat \<Rightarrow> uint32 \<Rightarrow> 'w Objects_Information \<Rightarrow> (uintptr \<Rightarrow> 'w \<Rightarrow> 'w) \<Rightarrow> 'w Objects_Information option" where
  "Objects_Shrink_search [] block index_base s wfree = Some s"
| "Objects_Shrink_search (c # cs) block index_base s wfree =
     (if c = ucast (allocation_size s)
      then let tail = Chain_Tail (Inactive s);
               index_end = index_base + ucast (allocation_size s)
           in map_option (\<lambda>s.
                s\<lparr>ws := wfree (object_blocks s ! block) (ws s),
                  object_blocks := (object_blocks s)[block := 0],
                  inactive_per_block := (inactive_per_block s)[block := 0],
                  inactive := inactive s - allocation_size s\<rparr>)
                (Objects_Shrink_loop index_base index_end tail (Chain_First (nodes s) (Inactive s)) s)
      else Objects_Shrink_search cs (Suc block) (index_base + ucast (allocation_size s)) s wfree)"

definition Objects_Shrink_information :: "(uintptr \<Rightarrow> 'w \<Rightarrow> 'w) \<Rightarrow> 'w Objects_Information \<Rightarrow> 'w Objects_Information option" where
  "Objects_Shrink_information wfree s =
     (let index_base = ucast (Objects_Get_index (minimum_id s));
          block_count = (ucast (maximum s) - index_base) div ucast (allocation_size s) :: uint32
      in Objects_Shrink_search (take (unat block_count) (inactive_per_block s)) 0 index_base s wfree)"

definition Objects_Free :: "(uintptr \<Rightarrow> 'w \<Rightarrow> 'w) \<Rightarrow> uintptr \<Rightarrow> 'w Objects_Information \<Rightarrow> 'w Objects_Information option" where
  "Objects_Free wfree the_object s =
     (let n = ucast (allocation_size s) :: uint32;
          s = s\<lparr>nodes := Chain_Append_unprotected (Inactive s) the_object (nodes s)\<rparr>
      in if auto_extend s
         then let block = Objects_block_of s the_object;
                  s = s\<lparr>inactive_per_block := (inactive_per_block s)[unat block := inactive_per_block s ! unat block + 1],
                        inactive := inactive s + 1\<rparr>
              in if ucast (inactive s) > n + drop_bit 1 n then Objects_Shrink_information wfree s else Some s
         else Some s)"

definition Objects_Active_count :: "'w Objects_Information \<Rightarrow> uint16 option" where
  "Objects_Active_count s =
     map_option (\<lambda>k. ucast ((ucast (maximum s) :: uint64) - k)) (Chain_Node_count_unprotected (nodes s) (Inactive s))"

definition Objects_Extend_size :: "'w Objects_Information \<Rightarrow> uint16" where
  "Objects_Extend_size s = (if auto_extend s then allocation_size s else 0)"

section \<open>Opening, closing and lookup\<close>

definition Objects_Set_local_object :: "uint32 \<Rightarrow> uintptr \<Rightarrow> 'w Objects_Information \<Rightarrow> 'w Objects_Information" where
  "Objects_Set_local_object index the_object s = s\<lparr>local_table := (local_table s)[unat index := the_object]\<rparr>"

definition Objects_Invalidate_Id :: "uintptr \<Rightarrow> 'w Objects_Information \<Rightarrow> 'w Objects_Information" where
  "Objects_Invalidate_Id the_object s = Objects_Set_local_object (ucast (Objects_Get_index (object_id s the_object))) 0 s"

definition Objects_Open_u32 :: "uintptr \<Rightarrow> uint32 \<Rightarrow> 'w Objects_Information \<Rightarrow> 'w Objects_Information" where
  "Objects_Open_u32 the_object name s =
     Objects_Set_local_object (ucast (Objects_Get_index (object_id s the_object))) the_object
       (s\<lparr>object_name := (object_name s)(the_object := name)\<rparr>)"

definition Objects_Namespace_remove :: "uintptr \<Rightarrow> 'w Objects_Information \<Rightarrow> 'w Objects_Information" where
  "Objects_Namespace_remove the_object s = s\<lparr>object_name := (object_name s)(the_object := 0)\<rparr>"

definition Objects_Close :: "uintptr \<Rightarrow> 'w Objects_Information \<Rightarrow> 'w Objects_Information" where
  "Objects_Close the_object s = Objects_Namespace_remove the_object (Objects_Invalidate_Id the_object s)"

definition Objects_Get :: "Objects_Id \<Rightarrow> 'w Objects_Information \<Rightarrow> uintptr" where
  "Objects_Get the_id s =
     (let index = the_id - minimum_id s + 1
      in if ucast (maximum s) \<ge> index
         then let the_object = local_table s ! unat index in if the_object \<noteq> 0 then the_object else 0
         else 0)"

definition Objects_Get_no_protection :: "Objects_Id \<Rightarrow> 'w Objects_Information \<Rightarrow> uintptr" where
  "Objects_Get_no_protection the_id s =
     (let index = the_id - minimum_id s + 1
      in if ucast (maximum s) \<ge> index
         then if local_table s ! unat index \<noteq> 0 then local_table s ! unat index else 0
         else 0)"

text \<open>The result is the object and the identifier to continue with.\<close>

partial_function (option) Objects_Get_next_loop :: "'w Objects_Information \<Rightarrow> Objects_Id \<Rightarrow> (uintptr \<times> Objects_Id) option" where
  "Objects_Get_next_loop s next_id =
     (if Objects_Get_index next_id > maximum s then Some (0, 0xffffffff)
      else let the_object = Objects_Get_no_protection next_id s; next_id = next_id + 1
           in if the_object = 0 then Objects_Get_next_loop s next_id else Some (the_object, next_id))"

lemmas [code] = Objects_Get_next_loop.simps

definition Objects_Get_next :: "Objects_Id \<Rightarrow> 'w Objects_Information \<Rightarrow> (uintptr \<times> Objects_Id) option" where
  "Objects_Get_next the_id s =
     Objects_Get_next_loop s (if Objects_Get_index the_id = 0 then minimum_id s else the_id)"

datatype Objects_Name_or_id_lookup_errors =
  OBJECTS_NAME_OR_ID_LOOKUP_SUCCESSFUL | OBJECTS_INVALID_NAME | OBJECTS_INVALID_ADDRESS | OBJECTS_INVALID_ID | OBJECTS_INVALID_NODE

text \<open>The loop over the local table, from index 1 to the maximum.\<close>

fun Objects_Name_search :: "uint32 \<Rightarrow> (uintptr \<Rightarrow> uint32) \<Rightarrow> (uintptr \<Rightarrow> Objects_Id) \<Rightarrow> uintptr list \<Rightarrow> Objects_Id option" where
  "Objects_Name_search name names ids [] = None"
| "Objects_Name_search name names ids (the_object # tab) =
     (if the_object = 0 then Objects_Name_search name names ids tab
      else if name = names the_object then Some (ids the_object)
      else Objects_Name_search name names ids tab)"

text \<open>The result has the identifier that is stored through the pointer; \<open>id_p\<close> is whether the pointer is given.\<close>

definition Objects_Name_to_id_u32 ::
    "uint32 \<Rightarrow> uint32 \<Rightarrow> bool \<Rightarrow> 'w Objects_Information \<Rightarrow> Objects_Name_or_id_lookup_errors \<times> Objects_Id option" where
  "Objects_Name_to_id_u32 name node id_p s =
     (if \<not> id_p then (OBJECTS_INVALID_ADDRESS, None)
      else if name = 0 then (OBJECTS_INVALID_NAME, None)
      else let search_local_node = (maximum s \<noteq> 0 \<and> (node = 0 \<or> node = 0x7FFFFFFF \<or> Objects_Is_local_node node))
           in if search_local_node
              then case Objects_Name_search name (object_name s) (object_id s) (take (unat (maximum s)) (drop 1 (local_table s))) of
                     Some i \<Rightarrow> (OBJECTS_NAME_OR_ID_LOOKUP_SUCCESSFUL, Some i)
                   | None \<Rightarrow> (OBJECTS_INVALID_NAME, None)
              else (OBJECTS_INVALID_NAME, None))"

text \<open>\<^verbatim>\<open>_Objects_Set_name\<close> for names that are not strings: \<open>s\<close> is the string up to its terminator.\<close>

definition Objects_Set_name :: "uint8 list \<Rightarrow> uintptr \<Rightarrow> 'w Objects_Information \<Rightarrow> bool \<times> 'w Objects_Information" where
  "Objects_Set_name name the_object s =
     (let l = min (length name) (unat (name_length s))
      in (True, s\<lparr>object_name := (object_name s)(the_object := Objects_Build_name
            (if l > 0 then name ! 0 else 0x20) (if l > 1 then name ! 1 else 0x20)
            (if l > 2 then name ! 2 else 0x20) (if l > 3 then name ! 3 else 0x20))\<rparr>))"

text \<open>\<^verbatim>\<open>_Objects_Information_table\<close>: the classes of an API, if the API has a table.\<close>

type_synonym 'i info_table = "uint32 \<Rightarrow> (uint16 \<Rightarrow> 'i option) option"

definition Objects_Get_information :: "'w Objects_Information info_table \<Rightarrow> uint32 \<Rightarrow> uint16 \<Rightarrow> 'w Objects_Information option" where
  "Objects_Get_information info_table api cls =
     (if cls = 0 then None
      else let the_class_api_maximum = Objects_API_maximum_class api
           in if the_class_api_maximum = 0 then None
              else if ucast cls > the_class_api_maximum then None
              else case info_table api of
                     None \<Rightarrow> None
                   | Some classes \<Rightarrow>
                       (case classes cls of None \<Rightarrow> None | Some info \<Rightarrow> if maximum info = 0 then None else Some info))"

definition Objects_Get_information_id :: "'w Objects_Information info_table \<Rightarrow> Objects_Id \<Rightarrow> 'w Objects_Information option" where
  "Objects_Get_information_id info_table the_id =
     Objects_Get_information info_table (Objects_Get_API the_id) (ucast (Objects_Get_class the_id))"

definition Objects_Id_to_name ::
    "'w Objects_Information info_table \<Rightarrow> Objects_Id \<Rightarrow> Objects_Id \<Rightarrow> Objects_Name_or_id_lookup_errors \<times> uint32 option" where
  "Objects_Id_to_name info_table executing_id the_id =
     (let tmp_id = (if the_id = 0 then executing_id else the_id)
      in case Objects_Get_information_id info_table tmp_id of
           None \<Rightarrow> (OBJECTS_INVALID_ID, None)
         | Some info \<Rightarrow>
             let the_object = Objects_Get tmp_id info
             in if the_object = 0 then (OBJECTS_INVALID_ID, None)
                else (OBJECTS_NAME_OR_ID_LOOKUP_SUCCESSFUL, Some (object_name info the_object)))"

text \<open>The information block \<open>s\<close> comes with its chain control, the workspace and the memory.\<close>

definition Objects_Do_initialize_information ::
    "'w allocate_fun \<Rightarrow> (uintptr \<Rightarrow> 'w \<Rightarrow> 'w) \<Rightarrow> uint32 \<Rightarrow> uint16 \<Rightarrow> uint32 \<Rightarrow> uint16 \<Rightarrow> uint32
      \<Rightarrow> 'w Objects_Information \<Rightarrow> 'w Objects_Information result" where
  "Objects_Do_initialize_information walloc wfree api cls maximum_objects sz maximum_name_length s =
     (let maximum_per_allocation = Objects_Maximum_per_allocation maximum_objects;
          s = s\<lparr>the_api := api, the_class := cls, object_size := ucast sz, tables := 0, object_blocks := [], inactive_per_block := [],
                inactive := 0, maximum := 0, auto_extend := Objects_Is_unlimited maximum_objects\<rparr>
      in if auto_extend s \<and> maximum_per_allocation = 0 then Some (Fatal INTERNAL_ERROR_UNLIMITED_AND_MAXIMUM_IS_0)
         else let minimum_index = (if maximum_per_allocation = 0 then 0 else 1);
                  s = s\<lparr>allocation_size := maximum_per_allocation, local_table := [0],
                        minimum_id := Objects_Build_id api cls (ucast Objects_Local_node) minimum_index,
                        name_length := ucast maximum_name_length,
                        nodes := Chain_Initialize_empty (Inactive s) (nodes s)\<rparr>
              in if maximum_per_allocation \<noteq> 0 then Objects_Extend_information walloc wfree s else Some (Returns s))"

end
