(* ===== verification/Objects_Inv.thy ===== *)
theory Objects_Inv
  imports Objects
begin

text \<open>
  The invariant of a class of objects and that every operation of the Object Handler keeps it: the
  blocks of objects are areas of the workspace, the inactive objects are on the chain, the local table
  leads to open objects only, and the counters per block are right.
\<close>

section \<open>Identifiers\<close>

lemma Build_id_add: "Objects_Build_id a c n i = Objects_Build_id a c n 0 + ucast i"
proof -
  let ?x = "push_bit 24 a OR push_bit 27 (ucast c) OR push_bit 16 (ucast n) :: uint32"
  have "?x + ucast i = ?x OR ucast i"
    by (rule disjunctive_add) (auto simp: bit_simps dest: bit_imp_le_length)
  then show ?thesis by (simp add: Objects_Build_id_def or.assoc)
qed

lemma masks: "(0xffff :: uint32) = mask 16" "(0xff :: uint32) = mask 8" "(0x1f :: uint32) = mask 5" "(0x7 :: uint32) = mask 3"
  by (simp_all add: mask_eq_exp_minus_1)

lemma small_bits: "(w :: 'a::len word) < 2 ^ k \<Longrightarrow> bit w n \<Longrightarrow> n < k"
proof -
  assume w: "w < 2 ^ k" and b: "bit w n"
  have "unat (2 ^ k :: 'a word) \<le> 2 ^ k" using unat_of_nat [of "2 ^ k", where ?'a = 'a] by simp
  then have "unat w < 2 ^ k" using w by (simp add: word_less_nat_alt)
  moreover have "odd (unat w div 2 ^ n)" using b by (simp add: bit_unsigned_iff flip: bit_iff_odd)
  then have "2 ^ n \<le> unat w" by (metis div_less even_zero not_less)
  ultimately show "n < k" by (metis le_less_trans numeral_One one_less_numeral_iff power_less_imp_less_exp semiring_norm(76))
qed

lemma Get_index_Build_id [simp]: "Objects_Get_index (Objects_Build_id a c n i) = i"
  by (rule bit_word_eqI)
     (auto simp: Objects_Get_index_def Objects_Build_id_def masks bit_simps dest: bit_imp_le_length)

lemma Get_node_Build_id: "Objects_Get_node (Objects_Build_id a c n i) = ucast n"
  by (rule bit_word_eqI)
     (auto simp: Objects_Get_node_def Objects_Build_id_def masks bit_simps dest: bit_imp_le_length)

lemma Get_API_Build_id:
  assumes "a < 8"
  shows "Objects_Get_API (Objects_Build_id a c n i) = a"
proof (rule bit_word_eqI)
  have a: "bit a k \<Longrightarrow> k < 3" for k using small_bits [of a 3] assms by simp
  show "bit (Objects_Get_API (Objects_Build_id a c n i)) k = bit a k" for k
    using a [of k] by (auto simp: Objects_Get_API_def Objects_Build_id_def masks bit_simps dest: bit_imp_le_length)
qed

lemma Get_class_Build_id:
  assumes "a < 8" and "c < 32"
  shows "Objects_Get_class (Objects_Build_id a c n i) = ucast c"
proof (rule bit_word_eqI)
  have a: "bit a k \<Longrightarrow> k < 3" and c: "bit c k \<Longrightarrow> k < 5" for k
    using small_bits [of a 3] small_bits [of c 5] assms by simp_all
  show "bit (Objects_Get_class (Objects_Build_id a c n i)) k = bit (ucast c :: uint32) k" for k
    using c [of k] a [of "k + 3"] by (auto simp: Objects_Get_class_def Objects_Build_id_def masks bit_simps add.commute dest: bit_imp_le_length)
qed

section \<open>The invariant\<close>

text \<open>Areas of memory by their address: not at zero, between \<open>lo\<close> and \<open>hi\<close>, and disjoint.\<close>

definition areas_ok :: "nat \<Rightarrow> nat \<Rightarrow> (uintptr \<Rightarrow> nat option) \<Rightarrow> bool" where
  "areas_ok lo hi L \<longleftrightarrow>
     (\<forall>p k. L p = Some k \<longrightarrow> p \<noteq> 0 \<and> lo \<le> unat p \<and> unat p + k \<le> hi \<and> hi < 2 ^ 64)
     \<and> (\<forall>p k q l. L p = Some k \<longrightarrow> L q = Some l \<longrightarrow> p \<noteq> q \<longrightarrow> unat p + k \<le> unat q \<or> unat q + l \<le> unat p)"

abbreviation asz :: "'w Objects_Information \<Rightarrow> nat" where "asz s \<equiv> unat (allocation_size s)"
abbreviation osz :: "'w Objects_Information \<Rightarrow> nat" where "osz s \<equiv> unat (object_size s)"

text \<open>The object \<open>k\<close> of block \<open>b\<close>, the objects there are, and the identifier of an index.\<close>

definition obj_at :: "'w Objects_Information \<Rightarrow> nat \<Rightarrow> nat \<Rightarrow> uintptr" where
  "obj_at s b k = object_blocks s ! b + of_nat (k * osz s)"

definition present :: "'w Objects_Information \<Rightarrow> nat \<Rightarrow> nat \<Rightarrow> bool" where
  "present s b k \<longleftrightarrow> b < length (object_blocks s) \<and> object_blocks s ! b \<noteq> 0 \<and> k < asz s"

definition index_at :: "'w Objects_Information \<Rightarrow> nat \<Rightarrow> nat \<Rightarrow> nat" where
  "index_at s b k = Suc (b * asz s + k)"

definition id_of :: "'w Objects_Information \<Rightarrow> nat \<Rightarrow> Objects_Id" where
  "id_of s i = Objects_Build_id (the_api s) (the_class s) (ucast Objects_Local_node) (of_nat i)"

definition objs :: "'w Objects_Information \<Rightarrow> uintptr set" where
  "objs s = {obj_at s b k |b k. present s b k}"

definition sizes_ok :: "nat \<Rightarrow> nat \<Rightarrow> 'w Objects_Information \<Rightarrow> bool" where
  "sizes_ok lo hi s \<longleftrightarrow> 0 < asz s \<and> 24 \<le> osz s \<and> osz s < 2 ^ 16 \<and> minimum_id s = id_of s 1
     \<and> length (inactive_per_block s) = length (object_blocks s) \<and> unat (maximum s) = asz s * length (object_blocks s)
     \<and> length (local_table s) = Suc (unat (maximum s)) \<and> (tables s = 0 \<longleftrightarrow> object_blocks s = [])
     \<and> distinct (footprint (Inactive s) []) \<and> 0 \<notin> set (footprint (Inactive s) [])
     \<and> (\<forall>w\<in>set (footprint (Inactive s) []). unat w < lo \<or> hi \<le> unat w)"

definition blocks_ok :: "(uintptr \<Rightarrow> nat option) \<Rightarrow> 'w Objects_Information \<Rightarrow> bool" where
  "blocks_ok L s \<longleftrightarrow> (tables s \<noteq> 0 \<longrightarrow> L (tables s) \<noteq> None)
     \<and> (\<forall>b<length (object_blocks s). object_blocks s ! b \<noteq> 0 \<longrightarrow>
          L (object_blocks s ! b) = Some (asz s * osz s) \<and> object_blocks s ! b \<noteq> tables s
          \<and> (\<forall>c<length (object_blocks s). object_blocks s ! c = object_blocks s ! b \<longrightarrow> c = b))"

text \<open>The open objects are in the table; they are not on the chain of inactive objects.\<close>

definition table_ok :: "'w Objects_Information \<Rightarrow> uintptr list \<Rightarrow> bool" where
  "table_ok s xs \<longleftrightarrow> local_table s ! 0 = 0
     \<and> (\<forall>b k. b < length (object_blocks s) \<longrightarrow> k < asz s \<longrightarrow> local_table s ! index_at s b k \<noteq> 0 \<longrightarrow>
          present s b k \<and> local_table s ! index_at s b k = obj_at s b k \<and> obj_at s b k \<notin> set xs)"

definition counts_ok :: "'w Objects_Information \<Rightarrow> uintptr list \<Rightarrow> bool" where
  "counts_ok s xs \<longleftrightarrow> auto_extend s \<longrightarrow> inactive s = of_nat (length xs)
     \<and> (\<forall>b<length (object_blocks s). inactive_per_block s ! b = of_nat (card {k. present s b k \<and> obj_at s b k \<in> set xs}))"

definition class_base :: "nat \<Rightarrow> nat \<Rightarrow> (uintptr \<Rightarrow> nat option) \<Rightarrow> 'w Objects_Information \<Rightarrow> uintptr list \<Rightarrow> bool" where
  "class_base lo hi L s xs \<longleftrightarrow> areas_ok lo hi L \<and> sizes_ok lo hi s \<and> blocks_ok L s
     \<and> (\<forall>b k. present s b k \<longrightarrow> object_id s (obj_at s b k) = id_of s (index_at s b k))
     \<and> chain_rep (nodes s) (Inactive s) xs \<and> set xs \<subseteq> objs s \<and> table_ok s xs"

definition class_ok :: "nat \<Rightarrow> nat \<Rightarrow> (uintptr \<Rightarrow> nat option) \<Rightarrow> 'w Objects_Information \<Rightarrow> uintptr list \<Rightarrow> bool" where
  "class_ok lo hi L s xs \<longleftrightarrow> class_base lo hi L s xs \<and> counts_ok s xs"

lemma class_baseD:
  assumes "class_base lo hi L s xs"
  shows "areas_ok lo hi L" "sizes_ok lo hi s" "blocks_ok L s"
    "\<And>b k. present s b k \<Longrightarrow> object_id s (obj_at s b k) = id_of s (index_at s b k)"
    "chain_rep (nodes s) (Inactive s) xs" "set xs \<subseteq> objs s" "table_ok s xs"
  using assms by (auto simp: class_base_def)

section \<open>The places of the objects\<close>

lemma unat_of_nat_64: "n < 2 ^ 64 \<Longrightarrow> unat (of_nat n :: uintptr) = n"
  by (simp add: unat_of_nat_small)

lemma unat_plus_64: "unat a + unat b < 2 ^ 64 \<Longrightarrow> unat (a + b :: uintptr) = unat a + unat b"
  by (simp add: unat_plus_no_wrap)

lemma obj_unat:
  assumes "areas_ok lo hi L" and "blocks_ok L s" and "present s b k"
  shows "unat (obj_at s b k) = unat (object_blocks s ! b) + k * osz s"
    and "lo \<le> unat (obj_at s b k)" and "unat (obj_at s b k) + osz s \<le> unat (object_blocks s ! b) + asz s * osz s"
    and "unat (object_blocks s ! b) + asz s * osz s \<le> hi" and "hi < 2 ^ 64" and "0 < unat (obj_at s b k)"
proof -
  have l: "L (object_blocks s ! b) = Some (asz s * osz s)" and k: "k < asz s" using assms(2,3) by (auto simp: blocks_ok_def present_def)
  have r: "lo \<le> unat (object_blocks s ! b)" "unat (object_blocks s ! b) + asz s * osz s \<le> hi" "hi < 2 ^ 64"
    using assms(1) l unfolding areas_ok_def by blast+
  have "k * osz s + osz s \<le> asz s * osz s" using mult_le_mono1 [of "Suc k" "asz s" "osz s"] k by simp
  moreover from this have "unat (of_nat (k * osz s) :: uintptr) = k * osz s"
    using r by (intro unat_of_nat_64) linarith
  ultimately show u: "unat (obj_at s b k) = unat (object_blocks s ! b) + k * osz s"
    using r unfolding obj_at_def by (subst unat_plus_64) linarith+
  show "lo \<le> unat (obj_at s b k)" and "unat (obj_at s b k) + osz s \<le> unat (object_blocks s ! b) + asz s * osz s"
    using \<open>k * osz s + osz s \<le> asz s * osz s\<close> r unfolding u by linarith+
  show "unat (object_blocks s ! b) + asz s * osz s \<le> hi" and "hi < 2 ^ 64" by (rule r(2), rule r(3))
  have "object_blocks s ! b \<noteq> 0" using assms(3) by (simp add: present_def)
  then show "0 < unat (obj_at s b k)" unfolding u by (simp add: unat_gt_0)
qed

lemma obj_apart:
  assumes a: "areas_ok lo hi L" and bl: "blocks_ok L s" and p: "present s b k" and q: "present s c j" and ne: "(b, k) \<noteq> (c, j)"
  shows "unat (obj_at s b k) + osz s \<le> unat (obj_at s c j) \<or> unat (obj_at s c j) + osz s \<le> unat (obj_at s b k)"
proof (cases "b = c")
  case True
  then have "k < j \<or> j < k" using ne by auto
  then have "k * osz s + osz s \<le> j * osz s \<or> j * osz s + osz s \<le> k * osz s"
    using mult_le_mono1 [of "Suc k" j "osz s"] mult_le_mono1 [of "Suc j" k "osz s"] by auto
  then show ?thesis using obj_unat(1) [OF a bl p] obj_unat(1) [OF a bl q] True by auto
next
  case False
  then have "object_blocks s ! b \<noteq> object_blocks s ! c" using bl p q by (auto simp: blocks_ok_def present_def)
  moreover have "L (object_blocks s ! b) = Some (asz s * osz s)" "L (object_blocks s ! c) = Some (asz s * osz s)"
    using bl p q by (auto simp: blocks_ok_def present_def)
  ultimately have "unat (object_blocks s ! b) + asz s * osz s \<le> unat (object_blocks s ! c)
      \<or> unat (object_blocks s ! c) + asz s * osz s \<le> unat (object_blocks s ! b)"
    using a unfolding areas_ok_def by blast
  then show ?thesis using obj_unat [OF a bl p] obj_unat [OF a bl q] by linarith
qed

lemma obj_inj:
  assumes "areas_ok lo hi L" and "blocks_ok L s" and "24 \<le> osz s" and "present s b k" and "present s c j" and "obj_at s b k = obj_at s c j"
  shows "b = c \<and> k = j"
proof (rule ccontr)
  assume "\<not> (b = c \<and> k = j)"
  then have "(b, k) \<noteq> (c, j)" by simp
  from obj_apart [OF assms(1,2,4,5) this] show False using assms(3,6) by simp
qed

lemma obj_nodes_ok:
  assumes a: "areas_ok lo hi L" and sz: "sizes_ok lo hi s" and bl: "blocks_ok L s"
  shows "nodes_ok (set (footprint (Inactive s) [])) (objs s)"
proof -
  have o: "24 \<le> osz s" and F: "\<And>w. w \<in> set (footprint (Inactive s) []) \<Longrightarrow> unat w < lo \<or> hi \<le> unat w"
    using sz by (auto simp: sizes_ok_def)
  have one: "x \<notin> set (footprint (Inactive s) []) \<and> x + 8 \<notin> set (footprint (Inactive s) []) \<and> x \<noteq> 0 \<and> x + 8 \<noteq> 0
      \<and> unat (x + 8) = unat x + 8" if x: "x \<in> objs s" for x
  proof -
    obtain b k where p: "present s b k" and e: "x = obj_at s b k" using x by (auto simp: objs_def)
    note u = obj_unat [OF a bl p, folded e]
    have e8: "unat (x + 8) = unat x + 8" using u(3-5) o unat_plus_64 [of x 8] by simp
    have "x \<noteq> 0" "x + 8 \<noteq> 0" using u(6) e8 by (metis less_irrefl unsigned_0, metis add_is_0 unsigned_0 zero_neq_numeral)
    moreover have "\<not> (unat x < lo \<or> hi \<le> unat x)" "\<not> (unat (x + 8) < lo \<or> hi \<le> unat (x + 8))" using u(2-4) o e8 by linarith+
    ultimately show ?thesis using F [of x] F [of "x + 8"] e8 by blast
  qed
  have two: "x \<noteq> y + 8" if x: "x \<in> objs s" and y: "y \<in> objs s" for x y
  proof -
    obtain b k c j where p: "present s b k" "x = obj_at s b k" and q: "present s c j" "y = obj_at s c j"
      using x y by (auto simp: objs_def)
    have "unat y + osz s \<le> unat x \<or> unat x \<le> unat y"
      using obj_apart [OF a bl p(1) q(1)] p(2) q(2) by (cases "(b, k) = (c, j)") auto
    then have "unat x \<noteq> unat (y + 8)" using one [OF y] o by linarith
    then show ?thesis by blast
  qed
  show ?thesis using one two by (auto simp: nodes_ok_def)
qed

section \<open>Indices\<close>

lemma sizes_okD:
  assumes "sizes_ok lo hi s"
  shows "0 < asz s" "24 \<le> osz s" "minimum_id s = id_of s 1" "length (inactive_per_block s) = length (object_blocks s)"
    "unat (maximum s) = asz s * length (object_blocks s)" "length (local_table s) = Suc (unat (maximum s))"
    "unat (maximum s) < 2 ^ 16"
  using assms unat_lt2p [of "maximum s"] by (simp_all add: sizes_ok_def)

lemma table_okD:
  assumes "table_ok s xs"
  shows "local_table s ! 0 = 0"
    and "b < length (object_blocks s) \<Longrightarrow> k < asz s \<Longrightarrow> local_table s ! index_at s b k \<noteq> 0 \<Longrightarrow>
      present s b k \<and> local_table s ! index_at s b k = obj_at s b k \<and> obj_at s b k \<notin> set xs"
  using assms unfolding table_ok_def by blast+

lemma index_bounds:
  assumes "sizes_ok lo hi s" and "b < length (object_blocks s)" and "k < asz s"
  shows "index_at s b k \<le> unat (maximum s)" and "index_at s b k < 2 ^ 16" and "(index_at s b k - 1) div asz s = b"
proof -
  have "b * asz s + asz s \<le> length (object_blocks s) * asz s" 
    using mult_le_mono1 [of "Suc b" "length (object_blocks s)" "asz s"] assms(2) by simp
  then show "index_at s b k \<le> unat (maximum s)" using assms(3) sizes_okD(5) [OF assms(1)] by (simp add: index_at_def mult.commute)
  then show "index_at s b k < 2 ^ 16" using sizes_okD(7) [OF assms(1)] by simp
  show "(index_at s b k - 1) div asz s = b" using assms(3) by (simp add: index_at_def)
qed

lemma index_cases:
  assumes "sizes_ok lo hi s" and "i \<le> unat (maximum s)" and "i \<noteq> 0"
  obtains b k where "b < length (object_blocks s)" "k < asz s" "i = index_at s b k"
proof
  let ?b = "(i - 1) div asz s" and ?k = "(i - 1) mod asz s"
  note z = sizes_okD(1,5) [OF assms(1)]
  show "?k < asz s" using z(1) by simp
  have "i - 1 < length (object_blocks s) * asz s" using assms(2,3) z by (simp add: mult.commute)
  then show "?b < length (object_blocks s)" by (rule less_mult_imp_div_less)
  show "i = index_at s ?b ?k" using assms(3) by (simp add: index_at_def)
qed

lemma index_inj:
  assumes "index_at s b k = index_at s c j" and "k < asz s" and "j < asz s"
  shows "b = c \<and> k = j"
proof -
  have "b * asz s + k = c * asz s + j" using assms(1) by (simp add: index_at_def)
  then have "(b * asz s + k) div asz s = (c * asz s + j) div asz s" "(b * asz s + k) mod asz s = (c * asz s + j) mod asz s" by simp_all
  then show ?thesis using assms(2,3) by simp
qed

lemma id_of_add: "i < 2 ^ 16 \<Longrightarrow> id_of s i = id_of s 0 + of_nat i"
  unfolding id_of_def by (subst Build_id_add) (simp add: unsigned_of_nat take_bit_nat_eq_self)

lemma id_of_offset: "i < 2 ^ 16 \<Longrightarrow> id_of s i - id_of s 1 + 1 = of_nat i"
  using id_of_add [of i s] id_of_add [of 1 s] by simp

lemma id_of_inj: "i < 2 ^ 16 \<Longrightarrow> j < 2 ^ 16 \<Longrightarrow> id_of s i = id_of s j \<longleftrightarrow> i = j"
proof -
  assume "i < 2 ^ 16" "j < 2 ^ 16"
  moreover from this have "(of_nat i :: uint32) = of_nat j \<longleftrightarrow> i = j" by (simp add: word_unat_eq_iff unat_of_nat)
  ultimately show ?thesis by (simp add: id_of_add [of i] id_of_add [of j])
qed

lemma Get_index_id_of: "i < 2 ^ 16 \<Longrightarrow> unat (Objects_Get_index (id_of s i)) = i"
  by (simp add: id_of_def unat_of_nat)

lemma Objects_Get_index:
  assumes "sizes_ok lo hi s" and "i \<le> unat (maximum s)"
  shows "Objects_Get (id_of s i) s = local_table s ! i"
proof -
  have i: "i < 2 ^ 16" using assms(2) sizes_okD(7) [OF assms(1)] by simp
  have u: "unat (of_nat i :: uint32) = i" using i by (simp add: unat_of_nat)
  have m: "unat (ucast (maximum s) :: uint32) = unat (maximum s)" by (rule unat_ucast_up) simp
  have "id_of s i - minimum_id s + 1 = of_nat i" unfolding sizes_okD(3) [OF assms(1)] by (rule id_of_offset [OF i])
  then show ?thesis using u m assms(2) by (simp add: Objects_Get_def Let_def word_le_nat_alt)
qed

lemma Objects_Get_nonzero:
  assumes "class_base lo hi L s xs" and "Objects_Get i s \<noteq> 0"
  obtains b k where "present s b k" "i = id_of s (index_at s b k)" "Objects_Get i s = obj_at s b k" "obj_at s b k \<notin> set xs"
proof -
  note sz = class_baseD(2) [OF assms(1)]
  define j where "j = i - minimum_id s + 1"
  have m: "unat (ucast (maximum s) :: uint32) = unat (maximum s)" by (rule unat_ucast_up) simp
  have l: "unat j \<le> unat (maximum s)" and g: "Objects_Get i s = local_table s ! unat j" "local_table s ! unat j \<noteq> 0"
    using assms(2) m by (auto simp: Objects_Get_def Let_def j_def [symmetric] word_le_nat_alt split: if_splits)
  have "unat j \<noteq> 0" using g(2) class_baseD(7) [OF assms(1)] unfolding table_ok_def by metis
  then obtain b k where bk: "b < length (object_blocks s)" "k < asz s" "unat j = index_at s b k" using index_cases [OF sz l] by blast
  have "i = id_of s (unat j)"
    using id_of_add [of "unat j" s] id_of_add [of 1 s] sizes_okD(3,7) [OF sz] l by (simp add: j_def)
  moreover have "present s b k \<and> local_table s ! unat j = obj_at s b k \<and> obj_at s b k \<notin> set xs"
    using table_okD(2) [OF class_baseD(7) [OF assms(1)], of b k] bk g(2) by metis
  ultimately show thesis using that [of b k] bk(3) g(1) by simp
qed

lemma block_of:
  assumes "class_base lo hi L s xs" and "present s b k"
  shows "unat (Objects_block_of s (obj_at s b k)) = b"
proof -
  note sz = class_baseD(2) [OF assms(1)]
  have bk: "b < length (object_blocks s)" "k < asz s" using assms(2) by (auto simp: present_def)
  note ib = index_bounds [OF sz bk]
  have "object_id s (obj_at s b k) = id_of s (index_at s b k)" using class_baseD(4) [OF assms(1)] assms(2) by simp
  then have x: "unat (ucast (Objects_Get_index (object_id s (obj_at s b k))) :: uint32) = index_at s b k"
    using Get_index_id_of [OF ib(2), of s] by (simp add: unat_ucast_up)
  have y: "unat (ucast (Objects_Get_index (minimum_id s)) :: uint32) = 1"
    using Get_index_id_of [of 1 s] sizes_okD(3) [OF sz] by (simp add: unat_ucast_up)
  have "unat (ucast (Objects_Get_index (object_id s (obj_at s b k))) - ucast (Objects_Get_index (minimum_id s)) :: uint32) = index_at s b k - 1"
    using x y by (subst unat_minus_no_wrap) (simp_all add: word_le_nat_alt index_at_def)
  then show ?thesis using ib(3) unfolding Objects_block_of_def unat_div_distrib by (simp add: unat_ucast_up)
qed

section \<open>Opening and closing\<close>

lemma same_layout:
  assumes "object_blocks s' = object_blocks s" and "allocation_size s' = allocation_size s" and "object_size s' = object_size s"
    and "the_api s' = the_api s" and "the_class s' = the_class s"
  shows "obj_at s' = obj_at s" "present s' = present s" "index_at s' = index_at s" "id_of s' = id_of s" "objs s' = objs s"
  using assms by (simp_all add: fun_eq_iff obj_at_def present_def index_at_def id_of_def objs_def)

lemma layout_simps [simp]:
  "obj_at (s\<lparr>local_table := lt\<rparr>) = obj_at s" "present (s\<lparr>local_table := lt\<rparr>) = present s" "index_at (s\<lparr>local_table := lt\<rparr>) = index_at s"
  "id_of (s\<lparr>local_table := lt\<rparr>) = id_of s" "objs (s\<lparr>local_table := lt\<rparr>) = objs s"
  "obj_at (s\<lparr>object_name := nm\<rparr>) = obj_at s" "present (s\<lparr>object_name := nm\<rparr>) = present s" "index_at (s\<lparr>object_name := nm\<rparr>) = index_at s"
  "id_of (s\<lparr>object_name := nm\<rparr>) = id_of s" "objs (s\<lparr>object_name := nm\<rparr>) = objs s"
  "obj_at (s\<lparr>nodes := m\<rparr>) = obj_at s" "present (s\<lparr>nodes := m\<rparr>) = present s" "index_at (s\<lparr>nodes := m\<rparr>) = index_at s"
  "id_of (s\<lparr>nodes := m\<rparr>) = id_of s" "objs (s\<lparr>nodes := m\<rparr>) = objs s"
  "obj_at (s\<lparr>inactive_per_block := c\<rparr>) = obj_at s" "present (s\<lparr>inactive_per_block := c\<rparr>) = present s"
  "index_at (s\<lparr>inactive_per_block := c\<rparr>) = index_at s" "id_of (s\<lparr>inactive_per_block := c\<rparr>) = id_of s" "objs (s\<lparr>inactive_per_block := c\<rparr>) = objs s"
  "obj_at (s\<lparr>inactive := n\<rparr>) = obj_at s" "present (s\<lparr>inactive := n\<rparr>) = present s" "index_at (s\<lparr>inactive := n\<rparr>) = index_at s"
  "id_of (s\<lparr>inactive := n\<rparr>) = id_of s" "objs (s\<lparr>inactive := n\<rparr>) = objs s"
  "obj_at (s\<lparr>ws := w\<rparr>) = obj_at s" "present (s\<lparr>ws := w\<rparr>) = present s" "index_at (s\<lparr>ws := w\<rparr>) = index_at s"
  "id_of (s\<lparr>ws := w\<rparr>) = id_of s" "objs (s\<lparr>ws := w\<rparr>) = objs s"
  by (intro same_layout; simp)+

lemma class_base_name [simp]: "class_base lo hi L (s\<lparr>object_name := nm\<rparr>) xs = class_base lo hi L s xs"
  and class_base_ws [simp]: "class_base lo hi L (s\<lparr>ws := w\<rparr>) xs = class_base lo hi L s xs"
  and class_base_inactive [simp]: "class_base lo hi L (s\<lparr>inactive := n\<rparr>) xs = class_base lo hi L s xs"
  by (simp_all add: class_base_def sizes_ok_def blocks_ok_def table_ok_def)

lemma class_base_counts: "length c = length (inactive_per_block s) \<Longrightarrow> class_base lo hi L (s\<lparr>inactive_per_block := c\<rparr>) xs = class_base lo hi L s xs"
  by (simp add: class_base_def sizes_ok_def blocks_ok_def table_ok_def)

lemma class_base_table:
  assumes r: "class_base lo hi L s xs" and p: "present s b k" and v: "v = 0 \<or> v = obj_at s b k \<and> obj_at s b k \<notin> set xs"
  shows "class_base lo hi L (s\<lparr>local_table := (local_table s)[index_at s b k := v]\<rparr>) xs"
proof -
  have bk: "k < asz s" using p by (simp add: present_def)
  let ?lt = "(local_table s)[index_at s b k := v]"
  note old = table_okD [OF class_baseD(7) [OF r]]
  have len: "index_at s b k < length (local_table s)"
    using index_bounds(1) [OF class_baseD(2) [OF r], of b k] p sizes_okD(6) [OF class_baseD(2) [OF r]] by (simp add: present_def)
  have "present s c j \<and> ?lt ! index_at s c j = obj_at s c j \<and> obj_at s c j \<notin> set xs"
    if c: "c < length (object_blocks s)" "j < asz s" "?lt ! index_at s c j \<noteq> 0" for c j
  proof (cases "index_at s c j = index_at s b k")
    case True
    then have "c = b \<and> j = k" by (rule index_inj [OF _ c(2) bk])
    then show ?thesis using c(3) v p len by auto
  next
    case False
    then have e: "?lt ! index_at s c j = local_table s ! index_at s c j" by simp
    show ?thesis using c old(2) [of c j] unfolding e by blast
  qed
  moreover have "?lt ! 0 = 0" using old(1) by (simp add: index_at_def)
  moreover have f: "local_table (s\<lparr>local_table := ?lt\<rparr>) = ?lt" "object_blocks (s\<lparr>local_table := ?lt\<rparr>) = object_blocks s"
    "allocation_size (s\<lparr>local_table := ?lt\<rparr>) = allocation_size s" by simp_all
  ultimately have t: "table_ok (s\<lparr>local_table := ?lt\<rparr>) xs" unfolding table_ok_def layout_simps f by blast
  then show ?thesis using r by (simp add: class_base_def sizes_ok_def blocks_ok_def)
qed

lemma counts_ok_table [simp]:
  "counts_ok (s\<lparr>local_table := lt\<rparr>) xs = counts_ok s xs" "counts_ok (s\<lparr>object_name := nm\<rparr>) xs = counts_ok s xs"
  "counts_ok (s\<lparr>ws := w\<rparr>) xs = counts_ok s xs"
  by (simp_all add: counts_ok_def)

lemma object_index:
  assumes "class_base lo hi L s xs" and "present s b k"
  shows "unat (ucast (Objects_Get_index (object_id s (obj_at s b k))) :: uint32) = index_at s b k"
  using class_baseD(4) [OF assms] Get_index_id_of index_bounds(2) [OF class_baseD(2) [OF assms(1)], of b k] assms(2)
  by (simp add: unat_ucast_up present_def)

lemma Objects_Open_ok:
  fixes name :: uint32
  assumes r: "class_ok lo hi L s xs" and p: "present s b k" and n: "obj_at s b k \<notin> set xs"
  defines "s' \<equiv> Objects_Open_u32 (obj_at s b k) name s"
  shows "class_ok lo hi L s' xs"
    and "s' = s\<lparr>object_name := (object_name s)(obj_at s b k := name), local_table := (local_table s)[index_at s b k := obj_at s b k]\<rparr>"
proof -
  have b: "class_base lo hi L s xs" and c: "counts_ok s xs" using r by (auto simp: class_ok_def)
  show e: "s' = s\<lparr>object_name := (object_name s)(obj_at s b k := name), local_table := (local_table s)[index_at s b k := obj_at s b k]\<rparr>"
    using object_index [OF b p] by (simp add: s'_def Objects_Open_u32_def Objects_Set_local_object_def)
  let ?t = "s\<lparr>object_name := (object_name s)(obj_at s b k := name)\<rparr>"
  have "class_base lo hi L (?t\<lparr>local_table := (local_table ?t)[index_at ?t b k := obj_at s b k]\<rparr>) xs"
    using b p n by (intro class_base_table) simp_all
  then show "class_ok lo hi L s' xs" unfolding e class_ok_def using c by simp
qed

lemma Objects_Close_ok:
  assumes r: "class_ok lo hi L s xs" and p: "present s b k"
  defines "s' \<equiv> Objects_Close (obj_at s b k) s"
  shows "class_ok lo hi L s' xs"
    and "s' = s\<lparr>local_table := (local_table s)[index_at s b k := 0], object_name := (object_name s)(obj_at s b k := 0)\<rparr>"
proof -
  have b: "class_base lo hi L s xs" and c: "counts_ok s xs" using r by (auto simp: class_ok_def)
  show e: "s' = s\<lparr>local_table := (local_table s)[index_at s b k := 0], object_name := (object_name s)(obj_at s b k := 0)\<rparr>"
    using object_index [OF b p] by (simp add: s'_def Objects_Close_def Objects_Invalidate_Id_def Objects_Namespace_remove_def Objects_Set_local_object_def)
  have "class_base lo hi L (s\<lparr>local_table := (local_table s)[index_at s b k := 0]\<rparr>) xs" using b p by (intro class_base_table) simp_all
  then show "class_ok lo hi L s' xs" unfolding e class_ok_def using c by simp
qed

section \<open>The chain of inactive objects\<close>

lemma class_base_chain:
  assumes "class_base lo hi L s xs" and "chain_rep m (Inactive s) ys" and "set ys \<subseteq> objs s" and "table_ok s ys"
  shows "class_base lo hi L (s\<lparr>nodes := m\<rparr>) ys"
proof -
  have "table_ok (s\<lparr>nodes := m\<rparr>) ys = table_ok s ys" by (simp add: table_ok_def)
  then show ?thesis using assms by (simp add: class_base_def sizes_ok_def blocks_ok_def)
qed

lemma table_ok_mono: "table_ok s xs \<Longrightarrow> set ys \<subseteq> set xs \<Longrightarrow> table_ok s ys"
  unfolding table_ok_def by blast

lemma objs_cases:
  assumes "x \<in> objs s"
  obtains b k where "present s b k" "x = obj_at s b k"
  using assms by (auto simp: objs_def)

lemma class_distinct: "class_base lo hi L s xs \<Longrightarrow> distinct xs"
  using class_baseD(5) by (fastforce simp: chain_rep_def footprint_def)

lemma count_insert:
  assumes r: "class_base lo hi L s ys" and p: "present s b k" and n: "obj_at s b k \<notin> X"
  shows "card {j. present s c j \<and> obj_at s c j \<in> insert (obj_at s b k) X} =
    card {j. present s c j \<and> obj_at s c j \<in> X} + (if c = b then 1 else 0)"
proof -
  note i = obj_inj [OF class_baseD(1,3) [OF r] sizes_okD(2) [OF class_baseD(2) [OF r]]]
  have fin: "finite {j. present s c j \<and> P j}" for P by (rule finite_subset [of _ "{..<asz s}"]) (auto simp: present_def)
  show ?thesis
  proof (cases "c = b")
    case True
    have "{j. present s c j \<and> obj_at s c j \<in> insert (obj_at s b k) X} = insert k {j. present s c j \<and> obj_at s c j \<in> X}"
      using i [OF _ p] p True by blast
    moreover have "k \<notin> {j. present s c j \<and> obj_at s c j \<in> X}" using n True by blast
    ultimately show ?thesis using fin True by simp
  next
    case False
    then have "{j. present s c j \<and> obj_at s c j \<in> insert (obj_at s b k) X} = {j. present s c j \<and> obj_at s c j \<in> X}"
      using i [OF _ p] by blast
    then show ?thesis using False by simp
  qed
qed

definition adjust_counts :: "nat \<Rightarrow> uint32 \<Rightarrow> uint16 \<Rightarrow> 'w Objects_Information \<Rightarrow> 'w Objects_Information" where
  "adjust_counts b d e s = s\<lparr>inactive_per_block := (inactive_per_block s)[b := inactive_per_block s ! b + d], inactive := inactive s + e\<rparr>"

lemma adjust_counts_base: "class_base lo hi L (adjust_counts b d e s) xs = class_base lo hi L s xs"
  using class_base_counts [of "(inactive_per_block s)[b := inactive_per_block s ! b + d]" "s"] by (simp add: adjust_counts_def)

lemma adjust_counts_ok:
  assumes r: "class_base lo hi L s ys" and c: "counts_ok s xs" and b: "b < length (object_blocks s)"
    and cnt: "\<And>c. c < length (object_blocks s) \<Longrightarrow>
      of_nat (card {j. present s c j \<and> obj_at s c j \<in> set zs}) = (of_nat (card {j. present s c j \<and> obj_at s c j \<in> set xs}) + (if c = b then d else 0) :: uint32)"
    and len: "of_nat (length zs) = (of_nat (length xs) + e :: uint16)"
  shows "counts_ok (adjust_counts b d e s) zs"
  using c cnt len b sizes_okD(4) [OF class_baseD(2) [OF r]]
  by (auto simp: counts_ok_def adjust_counts_def nth_list_update)

lemma take_inactive:
  assumes r: "class_base lo hi L s (x # xs)" and c: "auto_extend s \<Longrightarrow> counts_ok s (x # xs)" and m: "chain_rep m (Inactive s) xs"
  shows "class_base lo hi L (s\<lparr>nodes := m\<rparr>) xs"
    and "auto_extend s \<Longrightarrow> class_ok lo hi L (adjust_counts (unat (Objects_block_of s x)) (- 1) (- 1) (s\<lparr>nodes := m\<rparr>)) xs"
proof -
  obtain b k where p: "present s b k" and x: "x = obj_at s b k" using class_baseD(6) [OF r] objs_cases by (metis list.set_intros(1) subsetD)
  have d: "x \<notin> set xs" using class_distinct [OF r] by simp
  have bl: "b < length (object_blocks s)" using p by (simp add: present_def)
  show base: "class_base lo hi L (s\<lparr>nodes := m\<rparr>) xs"
    using class_baseD(6,7) [OF r] by (intro class_base_chain [OF r m]) (auto intro: table_ok_mono)
  assume a: "auto_extend s"
  have "counts_ok (s\<lparr>nodes := m\<rparr>) (x # xs)" using c [OF a] by (simp add: counts_ok_def)
  then have "counts_ok (adjust_counts b (- 1) (- 1) (s\<lparr>nodes := m\<rparr>)) xs"
    using count_insert [OF r p, of "set xs"] bl d x by (intro adjust_counts_ok [OF base]) auto
  then show "class_ok lo hi L (adjust_counts (unat (Objects_block_of s x)) (- 1) (- 1) (s\<lparr>nodes := m\<rparr>)) xs"
    using base block_of [OF r p] x by (simp add: class_ok_def adjust_counts_base)
qed

lemma give_inactive:
  assumes r: "class_ok lo hi L s xs" and p: "present s b k" and n: "obj_at s b k \<notin> set xs" and z: "local_table s ! index_at s b k = 0"
  defines "m \<equiv> Chain_Append_unprotected (Inactive s) (obj_at s b k) (nodes s)"
  shows "class_base lo hi L (s\<lparr>nodes := m\<rparr>) (xs @ [obj_at s b k])"
    and "auto_extend s \<Longrightarrow> class_ok lo hi L (adjust_counts b 1 1 (s\<lparr>nodes := m\<rparr>)) (xs @ [obj_at s b k])"
proof -
  have base: "class_base lo hi L s xs" and cn: "counts_ok s xs" using r by (auto simp: class_ok_def)
  note D = class_baseD [OF base]
  have o: "obj_at s b k \<in> objs s" using p by (auto simp: objs_def)
  have bl: "b < length (object_blocks s)" using p by (simp add: present_def)
  have f: "chain_fresh (Inactive s) xs (obj_at s b k)"
    by (rule nodes_ok_fresh [OF obj_nodes_ok [OF D(1-3)] _ D(6) o n]) simp
  have "table_ok s (xs @ [obj_at s b k])"
    unfolding table_ok_def
  proof (intro conjI allI impI)
    show "local_table s ! 0 = 0" by (rule table_okD(1) [OF D(7)])
    fix c j assume cj: "c < length (object_blocks s)" "j < asz s" "local_table s ! index_at s c j \<noteq> 0"
    note t = table_okD(2) [OF D(7) cj]
    show "present s c j" "local_table s ! index_at s c j = obj_at s c j" using t by simp_all
    have "obj_at s c j \<noteq> obj_at s b k"
      using obj_inj [OF D(1,3) sizes_okD(2) [OF D(2)], of c j b k] t p z cj(3) by metis
    then show "obj_at s c j \<notin> set (xs @ [obj_at s b k])" using t by simp
  qed
  then show nb: "class_base lo hi L (s\<lparr>nodes := m\<rparr>) (xs @ [obj_at s b k])"
    using Chain_Append_rep [OF D(5) f] D(6) o by (intro class_base_chain [OF base]) (auto simp: m_def)
  assume "auto_extend s"
  have "counts_ok (s\<lparr>nodes := m\<rparr>) xs" using cn by (simp add: counts_ok_def)
  then have "counts_ok (adjust_counts b 1 1 (s\<lparr>nodes := m\<rparr>)) (xs @ [obj_at s b k])"
    using count_insert [OF base p n] bl by (intro adjust_counts_ok [OF nb]) auto
  then show "class_ok lo hi L (adjust_counts b 1 1 (s\<lparr>nodes := m\<rparr>)) (xs @ [obj_at s b k])"
    using nb by (simp add: class_ok_def adjust_counts_base)
qed

end
