(* ===== verification/Objects_Extend.thy ===== *)
theory Objects_Extend
  imports Objects_Inv
begin

text \<open>
  Extending and shrinking a class of objects: a new block of objects from the workspace, the growth of
  the tables, and the release of a block without active objects keep the invariant of the class.
\<close>

section \<open>Adding a block\<close>

lemma find_block:
  "Objects_find_block bs blk base n =
     (if 0 \<in> set bs then (False, blk + of_nat (length (takeWhile (\<lambda>b. b \<noteq> 0) bs)), base + of_nat (length (takeWhile (\<lambda>b. b \<noteq> 0) bs)) * n)
      else (True, blk + of_nat (length bs), base + of_nat (length bs) * n))"
  by (induction bs blk base n rule: Objects_find_block.induct) (auto simp: algebra_simps)

definition new_objs :: "uintptr \<Rightarrow> uint64 \<Rightarrow> nat \<Rightarrow> uintptr list" where
  "new_objs p z n = map (\<lambda>k. p + of_nat k * z) [0..<n]"

lemma new_objs_Suc: "new_objs p z (Suc n) = p # new_objs (p + z) z n"
  by (simp add: new_objs_def upt_conv_Cons map_Suc_upt [symmetric] algebra_simps del: upt_Suc)

definition appended :: "nat \<Rightarrow> uintptr \<Rightarrow> uint32 \<Rightarrow> uintptr list \<Rightarrow> 'w Objects_Information \<Rightarrow> 'w Objects_Information \<Rightarrow> bool" where
  "appended n p i xs s s' \<longleftrightarrow> chain_rep (nodes s') (Inactive s) (xs @ new_objs p (object_size s) n)
     \<and> s' = s\<lparr>object_id := object_id s', nodes := nodes s'\<rparr>
     \<and> (\<forall>k<n. object_id s' (p + of_nat k * object_size s) =
          Objects_Build_id (the_api s) (the_class s) (ucast Objects_Local_node) (ucast (i + of_nat k)))
     \<and> (\<forall>a. a \<notin> set (new_objs p (object_size s) n) \<longrightarrow> object_id s' a = object_id s a)"

lemma append_loop:
  assumes "chain_rep (nodes s) (Inactive s) xs" and "nodes_ok (set (footprint (Inactive s) [])) P"
    and "set (xs @ new_objs p (object_size s) n) \<subseteq> P" and "distinct (xs @ new_objs p (object_size s) n)"
  shows "appended n p i xs s (Objects_append_loop n p i s)"
  using assms
proof (induction n arbitrary: p i s xs)
  case 0
  then show ?case by (simp add: new_objs_def appended_def)
next
  case (Suc n)
  let ?z = "object_size s" and ?id = "Objects_Build_id (the_api s) (the_class s) (ucast Objects_Local_node) (ucast i)"
  define t where "t = s\<lparr>object_id := (object_id s)(p := ?id), nodes := Chain_Append_unprotected (Inactive s) p (nodes s)\<rparr>"
  have f: "Inactive t = Inactive s" "object_size t = ?z" "the_api t = the_api s" "the_class t = the_class s" by (simp_all add: t_def)
  have loop: "Objects_append_loop (Suc n) p i s = Objects_append_loop n (p + ?z) (i + 1) t" by (simp add: t_def Let_def)
  have sub: "set (xs @ [p] @ new_objs (p + ?z) ?z n) \<subseteq> P" "distinct (xs @ [p] @ new_objs (p + ?z) ?z n)"
    using Suc.prems(3,4) unfolding new_objs_Suc by simp_all
  have "chain_fresh (Inactive s) xs p" using sub by (intro nodes_ok_fresh [OF Suc.prems(2)]) auto
  then have "chain_rep (nodes t) (Inactive t) (xs @ [p])" using Chain_Append_rep [OF Suc.prems(1)] by (simp add: t_def)
  then have IH: "appended n (p + ?z) (i + 1) (xs @ [p]) t (Objects_append_loop n (p + ?z) (i + 1) t)"
    using Suc.IH [of t "xs @ [p]" "p + ?z" "i + 1"] sub Suc.prems(2) unfolding f append_assoc by blast
  let ?s' = "Objects_append_loop n (p + ?z) (i + 1) t"
  have p: "p \<notin> set (new_objs (p + ?z) ?z n)" using sub(2) by simp
  have "object_id ?s' (p + of_nat k * ?z) = Objects_Build_id (the_api s) (the_class s) (ucast Objects_Local_node) (ucast (i + of_nat k))"
    if "k < Suc n" for k
  proof (cases k)
    case 0
    then show ?thesis using IH p by (simp add: appended_def f t_def)
  next
    case (Suc j)
    then have e: "p + of_nat k * ?z = (p + ?z) + of_nat j * ?z" "i + of_nat k = (i + 1) + of_nat j" by (simp_all add: algebra_simps)
    have "j < n" using Suc that by simp
    then show ?thesis unfolding e using IH unfolding appended_def f by blast
  qed
  moreover have "?s' = s\<lparr>object_id := object_id ?s', nodes := nodes ?s'\<rparr>"
  proof -
    have "?s' = t\<lparr>object_id := object_id ?s', nodes := nodes ?s'\<rparr>" using IH by (simp only: appended_def)
    also have "\<dots> = s\<lparr>object_id := object_id ?s', nodes := nodes ?s'\<rparr>" by (simp add: t_def)
    finally show ?thesis .
  qed
  moreover have "\<forall>a. a \<notin> set (new_objs p ?z (Suc n)) \<longrightarrow> object_id ?s' a = object_id s a"
    using IH by (auto simp: appended_def f new_objs_Suc t_def)
  moreover have "chain_rep (nodes ?s') (Inactive s) (xs @ new_objs p ?z (Suc n))"
    using IH by (simp add: appended_def f new_objs_Suc)
  ultimately show ?case unfolding loop appended_def by blast
qed

text \<open>Putting the address of a block of objects in its place, before the objects are initialised.\<close>

definition put_block :: "nat \<Rightarrow> uintptr \<Rightarrow> 'w Objects_Information \<Rightarrow> 'w Objects_Information" where
  "put_block b p s = s\<lparr>object_blocks := (object_blocks s)[b := p]\<rparr>"

lemma put_block_layout:
  assumes "b < length (object_blocks s)"
  shows "obj_at (put_block b p s) c k = (if c = b then p + of_nat (k * osz s) else obj_at s c k)"
    and "p \<noteq> 0 \<Longrightarrow> present (put_block b p s) c k = (present s c k \<or> c = b \<and> k < asz s)"
    and "index_at (put_block b p s) = index_at s" and "id_of (put_block b p s) = id_of s"
  using assms by (auto simp: put_block_def obj_at_def present_def index_at_def id_of_def nth_list_update fun_eq_iff)

lemma put_block_ok:
  assumes r: "class_base lo hi L s xs" and b: "b < length (object_blocks s)" and z: "object_blocks s ! b = 0"
    and a: "areas_ok lo hi L'" and L: "L' = L(p := Some (asz s * osz s))" and new: "L p = None" and p: "p \<noteq> 0"
  shows "sizes_ok lo hi (put_block b p s)" and "blocks_ok L' (put_block b p s)" and "table_ok (put_block b p s) xs"
proof -
  note D = class_baseD [OF r]
  show "sizes_ok lo hi (put_block b p s)" using D(2) b
    by (auto simp: sizes_ok_def put_block_layout(4) [OF b]) (auto simp: put_block_def)
  have tp: "tables s \<noteq> p" if "tables s \<noteq> 0" using D(3) new that by (auto simp: blocks_ok_def)
  have bp: "object_blocks s ! c \<noteq> p \<and> L (object_blocks s ! c) = Some (asz s * osz s) \<and> object_blocks s ! c \<noteq> tables s
      \<and> (\<forall>d<length (object_blocks s). object_blocks s ! d = object_blocks s ! c \<longrightarrow> d = c)"
    if "c < length (object_blocks s)" "object_blocks s ! c \<noteq> 0" for c
    using D(3) that new unfolding blocks_ok_def by (metis option.distinct(1))
  show "blocks_ok L' (put_block b p s)"
    using bp tp b p D(3) unfolding L blocks_ok_def put_block_def by (auto simp: nth_list_update split: if_splits)
  show "table_ok (put_block b p s) xs"
    unfolding table_ok_def
  proof (intro conjI allI impI)
    show "local_table (put_block b p s) ! 0 = 0" using table_okD(1) [OF D(7)] by (simp add: put_block_def)
    fix c k assume c: "c < length (object_blocks (put_block b p s))" "k < asz (put_block b p s)"
      "local_table (put_block b p s) ! index_at (put_block b p s) c k \<noteq> 0"
    then have t: "present s c k \<and> local_table s ! index_at s c k = obj_at s c k \<and> obj_at s c k \<notin> set xs"
      using table_okD(2) [OF D(7), of c k] unfolding put_block_layout(3) [OF b] by (simp add: put_block_def)
    moreover have "c \<noteq> b" using t z by (auto simp: present_def)
    ultimately show "present (put_block b p s) c k" "obj_at (put_block b p s) c k \<notin> set xs"
      "local_table (put_block b p s) ! index_at (put_block b p s) c k = obj_at (put_block b p s) c k"
      using put_block_layout [OF b] p by (simp_all add: put_block_def)
  qed
qed

lemma put_block_chain:
  assumes r: "class_base lo hi L s xs" and b: "b < length (object_blocks s)" and z: "object_blocks s ! b = 0"
    and a: "areas_ok lo hi L'" and L: "L' = L(p := Some (asz s * osz s))" and new: "L p = None" and p: "p \<noteq> 0"
  defines "ns \<equiv> new_objs p (object_size s) (asz s)"
  shows "nodes_ok (set (footprint (Inactive s) [])) (objs (put_block b p s))" and "set (xs @ ns) \<subseteq> objs (put_block b p s)"
    and "distinct (xs @ ns)" and "\<And>k. k < asz s \<Longrightarrow> ns ! k = obj_at (put_block b p s) b k" and "\<And>c k. present s c k \<Longrightarrow> obj_at s c k \<notin> set ns"
proof -
  let ?t = "put_block b p s"
  note D = class_baseD [OF r] and ok = put_block_ok [OF r b z a L new p] and lay = put_block_layout [OF b]
  show "nodes_ok (set (footprint (Inactive s) [])) (objs ?t)"
    using obj_nodes_ok [OF a ok(1,2)] by (simp add: put_block_def)
  have sz: "of_nat k * object_size s = (of_nat (k * osz s) :: uintptr)" for k by simp
  show nth: "ns ! k = obj_at ?t b k" if "k < asz s" for k
    using that unfolding ns_def new_objs_def lay(1) by simp
  have len: "length ns = asz s" by (simp add: ns_def new_objs_def)
  have sub: "set ns \<subseteq> {obj_at ?t b k |k. k < asz s}" 
    by (intro subsetI) (metis (mono_tags, lifting) in_set_conv_nth len mem_Collect_eq nth)
  have pr: "present ?t b k" if "k < asz s" for k using that lay(2) [OF p] by simp
  note inj = obj_inj [OF a ok(2)]
  have o: "24 \<le> osz ?t" using sizes_okD(2) [OF ok(1)] .
  have old_new: "present ?t c k \<and> obj_at ?t c k = obj_at s c k \<and> c \<noteq> b" if "present s c k" for c k
    using that z lay(1,2) p by (auto simp: present_def)
  show no: "obj_at s c k \<notin> set ns" if "present s c k" for c k
    using old_new [OF that] sub inj [OF o, of c k b] pr by fastforce
  have xo: "set xs \<subseteq> {obj_at s c k |c k. present s c k}" using D(6) by (simp add: objs_def)
  have pin: "obj_at ?t c k \<in> objs ?t" if "present ?t c k" for c k using that by (auto simp: objs_def)
  have "x \<in> objs ?t" if x: "x \<in> set xs" for x
  proof -
    obtain c k where "present s c k" "x = obj_at s c k" using xo x by blast
    then show ?thesis using old_new pin by metis
  qed
  moreover have "x \<in> objs ?t" if "x \<in> set ns" for x using sub that pin pr by blast
  ultimately show "set (xs @ ns) \<subseteq> objs ?t" by auto
  have "distinct ns"
    unfolding distinct_conv_nth
  proof (intro allI impI)
    fix i j assume ij: "i < length ns" "j < length ns" "i \<noteq> j"
    then show "ns ! i \<noteq> ns ! j" using nth [of i] nth [of j] inj [OF o, of b i b j] pr [of i] pr [of j] len by auto
  qed
  moreover have "set xs \<inter> set ns = {}" using xo no by blast
  ultimately show "distinct (xs @ ns)" using class_distinct [OF r] by simp
qed

lemma add_block_ok:
  assumes r: "class_ok lo hi L s xs" and b: "b < length (object_blocks s)" and z: "object_blocks s ! b = 0"
    and a: "areas_ok lo hi L'" and L: "L' = L(p := Some (asz s * osz s))" and new: "L p = None" and p: "p \<noteq> 0"
    and blk: "unat blk = b" and base: "base = of_nat (Suc (b * asz s))" and en: "unat (en - base) = asz s"
  shows "class_ok lo hi L' (Objects_add_block blk base en p s) (xs @ new_objs p (object_size s) (asz s))"
proof -
  have cb: "class_base lo hi L s xs" and cn: "counts_ok s xs" using r by (auto simp: class_ok_def)
  let ?t = "put_block b p s" and ?ns = "new_objs p (object_size s) (asz s)"
  note D = class_baseD [OF cb] and ok = put_block_ok [OF cb b z a L new p] and ch = put_block_chain [OF cb b z a L new p]
    and lay = put_block_layout [OF b]
  define u where "u = Objects_append_loop (asz s) p base ?t"
  have f: "nodes ?t = nodes s" "Inactive ?t = Inactive s" "object_size ?t = object_size s" "object_id ?t = object_id s"
    "the_api ?t = the_api s" "the_class ?t = the_class s" "auto_extend ?t = auto_extend s" by (simp_all add: put_block_def)
  have ap: "appended (asz s) p base xs ?t u"
    unfolding u_def by (rule append_loop [of _ _ "objs ?t"]) (use D(5) ch(1-3) in \<open>simp_all add: f\<close>)
  then have u: "u = ?t\<lparr>object_id := object_id u, nodes := nodes u\<rparr>" by (simp only: appended_def)
  obtain ids m where um: "u = ?t\<lparr>object_id := ids, nodes := m\<rparr>" using u by metis
  have lu: "obj_at u = obj_at ?t" "present u = present ?t" "index_at u = index_at ?t" "id_of u = id_of ?t" "objs u = objs ?t"
    unfolding um by (intro same_layout; simp)+
  have ids: "object_id u (obj_at u c k) = id_of u (index_at u c k)" if pr: "present u c k" for c k
  proof (cases "c = b")
    case True
    have k: "k < asz s" using pr unfolding lu by (simp add: present_def put_block_def)
    have "index_at s b k < 2 ^ 16" using index_bounds(2) [OF D(2) b k] .
    then have "ucast (base + of_nat k) = (of_nat (index_at s b k) :: uint16)"
      unfolding base by (simp add: index_at_def unsigned_of_nat take_bit_nat_eq_self flip: of_nat_add of_nat_Suc)
    then show ?thesis using ap k True unfolding lu lay appended_def f by (simp add: id_of_def)
  next
    case False
    then have ps: "present s c k" using pr lay(2) [OF p] unfolding lu by auto
    have "object_id u (obj_at s c k) = object_id s (obj_at s c k)" using ap ch(5) [OF ps] by (simp add: appended_def f)
    then show ?thesis using D(4) [OF ps] False unfolding lu lay by simp
  qed
  have new_closed: "local_table s ! index_at s b k = 0" if "k < asz s" for k
    using table_okD(2) [OF D(7) b that] z by (auto simp: present_def)
  have tab: "table_ok u (xs @ ?ns)"
    unfolding table_ok_def
  proof (intro conjI allI impI)
    show "local_table u ! 0 = 0" using table_okD(1) [OF ok(3)] by (simp add: um)
    fix c k assume c: "c < length (object_blocks u)" "k < asz u" "local_table u ! index_at u c k \<noteq> 0"
    then have t: "present ?t c k \<and> local_table ?t ! index_at ?t c k = obj_at ?t c k \<and> obj_at ?t c k \<notin> set xs"
      using table_okD(2) [OF ok(3), of c k] unfolding lu by (simp add: um)
    have "c \<noteq> b" using c new_closed [of k] unfolding lu lay by (auto simp: um put_block_def)
    then have "present s c k" using t lay(2) [OF p] by auto
    then have "obj_at ?t c k \<notin> set ?ns" using ch(5) [of c k] \<open>c \<noteq> b\<close> lay(1) by simp
    then show "present u c k" "local_table u ! index_at u c k = obj_at u c k" "obj_at u c k \<notin> set (xs @ ?ns)"
      using t unfolding lu by (simp_all add: um)
  qed
  have "sizes_ok lo hi u" "blocks_ok L' u" using ok(1,2) unfolding sizes_ok_def blocks_ok_def lu by (simp_all add: um)
  then have bu: "class_base lo hi L' u (xs @ ?ns)"
    using a ids tab ap ch(2) unfolding class_base_def appended_def f lu by (simp add: um f)
  have len: "b < length (inactive_per_block u)" using b sizes_okD(4) [OF D(2)] by (simp add: um put_block_def)
  have cu: "counts_ok (u\<lparr>inactive_per_block := (inactive_per_block u)[b := ucast (allocation_size u)], inactive := inactive u + allocation_size u\<rparr>) (xs @ ?ns)"
    unfolding counts_ok_def layout_simps
  proof (intro impI conjI allI)
    assume "auto_extend (u\<lparr>inactive_per_block := (inactive_per_block u)[b := ucast (allocation_size u)], inactive := inactive u + allocation_size u\<rparr>)"
    then have au: "auto_extend s" by (simp add: um f)
    then show "inactive (u\<lparr>inactive_per_block := (inactive_per_block u)[b := ucast (allocation_size u)], inactive := inactive u + allocation_size u\<rparr>) = of_nat (length (xs @ ?ns))"
      using cn by (simp add: counts_ok_def um put_block_def new_objs_def)
    fix c assume "c < length (object_blocks (u\<lparr>inactive_per_block := (inactive_per_block u)[b := ucast (allocation_size u)], inactive := inactive u + allocation_size u\<rparr>))"
    then have c: "c < length (object_blocks s)" by (simp add: um put_block_def)
    show "inactive_per_block (u\<lparr>inactive_per_block := (inactive_per_block u)[b := ucast (allocation_size u)], inactive := inactive u + allocation_size u\<rparr>) ! c
      = of_nat (card {k. present u c k \<and> obj_at u c k \<in> set (xs @ ?ns)})"
    proof (cases "c = b")
      case True
      have "obj_at ?t b k \<in> set ?ns" if "k < asz s" for k using ch(4) [OF that] that nth_mem [of k ?ns] by (simp add: new_objs_def)
      then have "{k. present u b k \<and> obj_at u b k \<in> set (xs @ ?ns)} = {..<asz s}"
        using lay(2) [OF p] unfolding lu by (auto simp: present_def)
      then show ?thesis using True len by (simp add: um put_block_def)
    next
      case False
      then have "{k. present u c k \<and> obj_at u c k \<in> set (xs @ ?ns)} = {k. present s c k \<and> obj_at s c k \<in> set xs}"
        using lay(1) lay(2) [OF p] ch(5) [of c] unfolding lu by auto
      then show ?thesis using False cn c au by (simp add: counts_ok_def um put_block_def)
    qed
  qed
  have e: "Objects_add_block blk base en p s =
      u\<lparr>inactive_per_block := (inactive_per_block u)[b := ucast (allocation_size u)], inactive := inactive u + allocation_size u\<rparr>"
    unfolding Objects_add_block_def blk en Let_def put_block_def [symmetric] u_def [symmetric] ..
  show ?thesis unfolding e class_ok_def using cu bu class_base_counts [of "(inactive_per_block u)[b := ucast (allocation_size u)]" u] by simp
qed

section \<open>Growing the tables\<close>

lemma write_table_snoc: "length tab = Suc (length vs) \<Longrightarrow> (write_table 0 vs tab)[length vs := v] = vs @ [v]"
proof -
  assume "length tab = Suc (length vs)"
  then have "length (drop (length vs) tab) = Suc 0" by simp
  then obtain a where "drop (length vs) tab = [a]" unfolding length_Suc_conv by auto
  then show ?thesis by (simp add: write_table_def list_update_append)
qed

lemma write_table_fill:
  "length tab = length vs + length us \<Longrightarrow> write_table (length vs) us (write_table 0 vs tab) = vs @ us"
  by (simp add: write_table_def)

definition grow :: "uintptr \<Rightarrow> 'w Objects_Information \<Rightarrow> 'w Objects_Information" where
  "grow addr s = s\<lparr>tables := addr, object_blocks := object_blocks s @ [0], inactive_per_block := inactive_per_block s @ [0],
     local_table := local_table s @ replicate (asz s) 0, maximum := of_nat (asz s * Suc (length (object_blocks s))),
     maximum_id := id_of s (asz s * Suc (length (object_blocks s)))\<rparr>"

lemma unat_of_nat_32: "n < 2 ^ 32 \<Longrightarrow> unat (of_nat n :: uint32) = n"
  by (simp add: unat_of_nat_small)

lemma new_tables_grow:
  assumes sz: "sizes_ok lo hi s" and t: "table_ok s xs" and n: "n = length (object_blocks s)" and q: "q = asz s * n" and m: "q + asz s < 2 ^ 16"
    and copy: "n = 0 \<or> 1 < q"
  shows "Objects_new_tables 1 (of_nat n) (of_nat (Suc q)) (of_nat (Suc q) + ucast (allocation_size s)) (of_nat (q + asz s)) addr s = grow addr s"
proof -
  note S = sizes_okD [OF sz] and [simp del] = of_nat_add of_nat_Suc
  have nq: "n \<le> q" using S(1) q by simp
  have mx: "ucast (maximum s) = (of_nat q :: uint32)" using S(5) n q by (metis of_nat_unat)
  have s1: "of_nat k + 1 = (of_nat (Suc k) :: uint32)" for k by (simp add: of_nat_Suc add.commute)
  have u: "unat (of_nat n :: uint32) = n" "unat (of_nat (Suc n) :: uint32) = Suc n" "unat (of_nat (Suc (q + asz s)) :: uint32) = Suc (q + asz s)"
    "unat (of_nat (Suc q) :: uint32) = Suc q"
    using nq m by (auto intro: unat_of_nat_32)
  have g: "(1 < (of_nat q :: uint32)) = (1 < q)"
    using unat_of_nat_32 [of q] m by (simp add: word_less_nat_alt)
  have d: "unat (of_nat (Suc q) + ucast (allocation_size s) - of_nat (Suc q) :: uint32) = asz s"
    by (simp add: unat_ucast_up)
  have len: "length (object_blocks s) = n" "length (inactive_per_block s) = n" "length (local_table s) = Suc q"
    using S(4-6) unfolding n q by (simp_all only:)
  have gr: "grow addr s = s\<lparr>tables := addr, object_blocks := object_blocks s @ [0], inactive_per_block := inactive_per_block s @ [0],
     local_table := local_table s @ replicate (asz s) 0, maximum := of_nat (q + asz s), maximum_id := id_of s (q + asz s)\<rparr>"
    using q len(1) by (simp add: grow_def add.commute)
  have uc: "ucast (of_nat (q + asz s) :: uint32) = (of_nat (q + asz s) :: uint16)"
    by (rule word_unat_eq_iff [THEN iffD2]) (use m in \<open>simp add: unat_of_nat_small unsigned_of_nat take_bit_nat_eq_self\<close>)
  show ?thesis
  proof (cases "n = 0")
    case True
    then have z: "q = 0" "n = 0" "object_blocks s = []" "inactive_per_block s = []" using len q by simp_all
    then have l1: "local_table s = [0]" using len(3) table_okD(1) [OF t] by (auto simp: length_Suc_conv)
    have b: "tab[0 := v] = [v]" if "length tab = Suc 0" for tab :: "'b list" and v using that by (auto simp: length_Suc_conv)
    have l: "write_table (Suc 0) (replicate (asz s) 0) (write_table 0 [0] tab) = 0 # replicate (asz s) 0"
      if "length tab = Suc (asz s)" for tab :: "uintptr list"
      using write_table_fill [of tab "[0]" "replicate (asz s) 0"] that by simp
    have u1: "unat (1 :: uint32) = Suc 0" by simp
    show ?thesis unfolding gr Objects_new_tables_def Let_def mx s1 u d g u1 uc unfolding z l1
      by (simp add: b l id_of_def)
  next
    case False
    then have c: "1 < q" using copy by simp
    have b: "(write_table 0 (object_blocks s) tab)[n := 0] = object_blocks s @ [0]" if "length tab = Suc n" for tab
      using write_table_snoc [of tab "object_blocks s" 0] that len by simp
    have p: "(write_table 0 (inactive_per_block s) tab)[n := 0] = inactive_per_block s @ [0]" if "length tab = Suc n" for tab
      using write_table_snoc [of tab "inactive_per_block s" 0] that len by simp
    have l: "write_table (Suc q) (replicate (asz s) 0) (write_table 0 (local_table s) tab) = local_table s @ replicate (asz s) 0"
      if "length tab = Suc (q + asz s)" for tab
      using write_table_fill [of tab "local_table s" "replicate (asz s) 0"] that len by simp
    have tk: "take n (object_blocks s) = object_blocks s" "take n (inactive_per_block s) = inactive_per_block s"
      "take (Suc q) (local_table s) = local_table s" using len by simp_all
    show ?thesis unfolding gr Objects_new_tables_def Let_def mx s1 u d g uc tk using c
      by (simp add: b p l id_of_def)
  qed
qed

end
