(* ===== verification/Objects_Ops.thy ===== *)
theory Objects_Ops
  imports Objects_Extend
begin

text \<open>
  The operations that allocate and free objects, over any workspace that fulfils the contract of the
  Workspace Handler: extending a class, allocating, shrinking, freeing and initialising it. Each keeps
  the invariant of the class, what the identifiers lead to, and the areas of other clients.
\<close>

section \<open>A class with grown tables\<close>

lemma areas_ok_sub: "areas_ok lo hi L' \<Longrightarrow> (\<And>p. L p = None \<or> L p = L' p) \<Longrightarrow> areas_ok lo hi L"
  unfolding areas_ok_def by (metis option.distinct(1))

lemma grow_layout:
  "b < length (object_blocks s) \<Longrightarrow> obj_at (grow addr s) b k = obj_at s b k"
  "present (grow addr s) b k = present s b k" "index_at (grow addr s) = index_at s" "id_of (grow addr s) = id_of s" "objs (grow addr s) = objs s"
proof -
  show o: "obj_at (grow addr s) b k = obj_at s b k" if "b < length (object_blocks s)" for b k using that by (simp add: obj_at_def grow_def nth_append)
  show p: "present (grow addr s) b k = present s b k" for b k by (auto simp: present_def grow_def nth_append less_Suc_eq)
  show "objs (grow addr s) = objs s" unfolding objs_def p using o by (auto simp: present_def) metis+
qed (simp_all add: fun_eq_iff index_at_def id_of_def grow_def)

lemma grow_sizes:
  assumes "sizes_ok lo hi s" and "asz s * Suc (length (object_blocks s)) < 2 ^ 16" and "addr \<noteq> 0"
  shows "sizes_ok lo hi (grow addr s)"
proof -
  have "unat (of_nat (asz s * Suc (length (object_blocks s))) :: uint16) = asz s * Suc (length (object_blocks s))"
    by (rule unat_of_nat_small) (use assms(2) in simp)
  then show ?thesis using assms(1,3) unfolding sizes_ok_def grow_layout by (simp add: grow_def del: of_nat_mult of_nat_add)
qed

lemma grow_table:
  assumes "sizes_ok lo hi s" and "table_ok s xs"
  shows "table_ok (grow addr s) xs"
  unfolding table_ok_def grow_layout
proof (intro conjI allI impI)
  note S = sizes_okD [OF assms(1)] and t = table_okD [OF assms(2)]
  show "local_table (grow addr s) ! 0 = 0" using t(1) S(6) by (simp add: grow_def nth_append)
  fix b k assume b: "b < length (object_blocks (grow addr s))" and k: "k < asz (grow addr s)" and nz: "local_table (grow addr s) ! index_at s b k \<noteq> 0"
  have ks: "k < asz s" using k by (simp add: grow_def)
  have bl: "b < length (object_blocks s)"
  proof (rule ccontr)
    assume "\<not> b < length (object_blocks s)"
    then have "b = length (object_blocks s)" using b by (simp add: grow_def)
    then show False using nz ks S(5,6) by (simp add: grow_def nth_append index_at_def mult.commute)
  qed
  have e: "local_table (grow addr s) ! index_at s b k = local_table s ! index_at s b k"
    using index_bounds(1) [OF assms(1) bl ks] S(6) by (simp add: grow_def nth_append)
  show "present s b k" "local_table (grow addr s) ! index_at s b k = obj_at (grow addr s) b k" "obj_at (grow addr s) b k \<notin> set xs"
    using t(2) [OF bl ks] nz grow_layout(1) [OF bl] unfolding e by simp_all
qed

lemma grow_ok:
  assumes r: "class_ok lo hi L s xs" and a: "areas_ok lo hi L'" and L': "L' = L(addr := Some n, tables s := None)"
    and addr: "L addr = None" "addr \<noteq> 0" and m: "asz s * Suc (length (object_blocks s)) < 2 ^ 16"
  shows "class_ok lo hi L' (grow addr s) xs"
proof -
  have base: "class_base lo hi L s xs" and cn: "counts_ok s xs" using r by (auto simp: class_ok_def)
  note D = class_baseD [OF base]
  have ne: "addr \<noteq> tables s" using addr D(3) by (auto simp: blocks_ok_def)
  have bl: "L (object_blocks s ! b) = Some (asz s * osz s)" "object_blocks s ! b \<noteq> tables s" "object_blocks s ! b \<noteq> addr"
    if "b < length (object_blocks s)" "object_blocks s ! b \<noteq> 0" for b using D(3) that addr unfolding blocks_ok_def by (metis option.distinct(1))+
  have "blocks_ok L' (grow addr s)"
    using D(3) bl ne unfolding blocks_ok_def L' by (auto simp: grow_def nth_append less_Suc_eq)
  moreover have "object_id s (obj_at (grow addr s) b k) = id_of s (index_at s b k)" if "present s b k" for b k
    using D(4) [OF that] grow_layout(1) [of b s addr k] that by (simp add: present_def)
  ultimately have "class_base lo hi L' (grow addr s) xs"
    using a grow_sizes [OF D(2) m addr(2)] grow_table [OF D(2,7)] D(5,6) unfolding class_base_def grow_layout by (simp add: grow_def)
  moreover have "counts_ok (grow addr s) xs"
  proof -
    have "{k. present s b k \<and> obj_at (grow addr s) b k \<in> set xs} = {k. present s b k \<and> obj_at s b k \<in> set xs}" for b
      by (auto simp: present_def grow_layout(1))
    moreover have "card {k. present s (length (object_blocks s)) k \<and> obj_at s (length (object_blocks s)) k \<in> set xs} = 0" by (simp add: present_def)
    ultimately show ?thesis using cn sizes_okD(4) [OF D(2)] unfolding counts_ok_def grow_layout
      by (auto simp: grow_def nth_append less_Suc_eq)
  qed
  ultimately show ?thesis by (simp add: class_ok_def)
qed

section \<open>What the operations keep\<close>

text \<open>The configuration and the names, and what each identifier leads to.\<close>

definition kept :: "'w Objects_Information \<Rightarrow> 'w Objects_Information \<Rightarrow> bool" where
  "kept s s' \<longleftrightarrow> the_api s' = the_api s \<and> the_class s' = the_class s \<and> minimum_id s' = minimum_id s \<and> auto_extend s' = auto_extend s
     \<and> allocation_size s' = allocation_size s \<and> object_size s' = object_size s \<and> Inactive s' = Inactive s
     \<and> name_length s' = name_length s \<and> object_name s' = object_name s \<and> (\<forall>i. Objects_Get i s' = Objects_Get i s)"

lemma Objects_Get_frame [simp]:
  "Objects_Get i (s\<lparr>ws := w\<rparr>) = Objects_Get i s" "Objects_Get i (s\<lparr>nodes := m\<rparr>) = Objects_Get i s"
  "Objects_Get i (s\<lparr>inactive := n\<rparr>) = Objects_Get i s" "Objects_Get i (s\<lparr>inactive_per_block := c\<rparr>) = Objects_Get i s"
  "Objects_Get i (s\<lparr>object_name := nm\<rparr>) = Objects_Get i s" "Objects_Get i (s\<lparr>object_blocks := bs\<rparr>) = Objects_Get i s"
  by (simp_all add: Objects_Get_def Let_def)

lemma kept_trans: "kept s t \<Longrightarrow> kept t u \<Longrightarrow> kept s u"
  and kept_refl [simp]: "kept s s"
  by (simp_all add: kept_def)

text \<open>The areas of the workspace the class does not own.\<close>

definition rest :: "(uintptr \<Rightarrow> nat option) \<Rightarrow> 'w Objects_Information \<Rightarrow> uintptr \<Rightarrow> nat option" where
  "rest L s p = (if p = tables s \<or> p \<in> set (object_blocks s) then None else L p)"

lemma rest_frame [simp]: "rest L (s\<lparr>ws := w\<rparr>) = rest L s" "rest L (s\<lparr>nodes := m\<rparr>) = rest L s"
  "rest L (s\<lparr>inactive := n\<rparr>) = rest L s" "rest L (s\<lparr>inactive_per_block := c\<rparr>) = rest L s"
  by (simp_all add: rest_def fun_eq_iff)

lemma append_loop_frame: "\<exists>ids m. Objects_append_loop n p i s = s\<lparr>object_id := ids, nodes := m\<rparr>"
proof (induction n p i s rule: Objects_append_loop.induct)
  case (1 p i s)
  show ?case by (rule exI [of _ "object_id s"], rule exI [of _ "nodes s"]) simp
next
  case (2 n p i s)
  then show ?case by (fastforce simp: Let_def)
qed

lemma add_block_frame:
  "\<exists>ids m c k. Objects_add_block blk base en p s =
     s\<lparr>object_blocks := (object_blocks s)[unat blk := p], object_id := ids, nodes := m, inactive_per_block := c, inactive := k\<rparr>"
proof -
  let ?t = "s\<lparr>object_blocks := (object_blocks s)[unat blk := p]\<rparr>"
  obtain ids m where "Objects_append_loop (unat (en - base)) p base ?t = ?t\<lparr>object_id := ids, nodes := m\<rparr>" using append_loop_frame by blast
  then show ?thesis unfolding Objects_add_block_def Let_def by (auto simp: exI)
qed

lemma add_block_kept: "kept s (Objects_add_block blk base en p s)"
proof -
  obtain ids m c k where e: "Objects_add_block blk base en p s =
     s\<lparr>object_blocks := (object_blocks s)[unat blk := p], object_id := ids, nodes := m, inactive_per_block := c, inactive := k\<rparr>"
    using add_block_frame by blast
  show ?thesis unfolding e by (simp add: kept_def Objects_Get_def Let_def)
qed

lemma grow_kept:
  assumes sz: "sizes_ok lo hi s" and m: "asz s * Suc (length (object_blocks s)) < 2 ^ 16"
  shows "kept s (grow addr s)"
proof -
  note S = sizes_okD [OF sz]
  have u: "unat (maximum (grow addr s)) = unat (maximum s) + asz s"
    using unat_of_nat_small [of "asz s * Suc (length (object_blocks s))", where ?'a = 16] m S(5) by (simp add: grow_def del: of_nat_mult of_nat_add)
  have "Objects_Get i (grow addr s) = Objects_Get i s" for i
  proof -
    let ?j = "i - minimum_id s + 1"
    have mn: "minimum_id (grow addr s) = minimum_id s" and lt: "local_table (grow addr s) = local_table s @ replicate (asz s) 0" by (simp_all add: grow_def)
    show ?thesis unfolding Objects_Get_def mn Let_def lt using S(6) u by (auto simp: word_le_nat_alt nth_append unat_ucast_up)
  qed
  then show ?thesis by (simp add: kept_def) (simp add: grow_def)
qed

section \<open>Extending a class\<close>

lemma Extend_inputs:
  assumes "class_base lo hi L s xs"
  shows "(ucast (Objects_Get_index (minimum_id s)) :: uint32) = 1"
    and "(if tables s = 0 then 0 else ucast (maximum s) div ucast (allocation_size s)) = (of_nat (length (object_blocks s)) :: uint32)"
    and "unat (of_nat (length (object_blocks s)) :: uint32) = length (object_blocks s)"
    and "ucast (maximum s) + ucast (allocation_size s) = (of_nat (asz s * length (object_blocks s) + asz s) :: uint32)"
    and "unat (ucast (allocation_size s) * object_size s) = asz s * osz s"
proof -
  note sz = class_baseD(2) [OF assms] note S = sizes_okD [OF sz]
  show "(ucast (Objects_Get_index (minimum_id s)) :: uint32) = 1" unfolding S(3) using Get_index_id_of [of 1 s] by (simp add: word_unat_eq_iff unat_ucast_up)
  have le: "length (object_blocks s) \<le> asz s * length (object_blocks s)" using S(1) by simp
  then have lt: "length (object_blocks s) < 2 ^ 16" using S(5,7) by linarith
  then show u: "unat (of_nat (length (object_blocks s)) :: uint32) = length (object_blocks s)" by (intro unat_of_nat_32) simp
  show "(if tables s = 0 then 0 else ucast (maximum s) div ucast (allocation_size s)) = (of_nat (length (object_blocks s)) :: uint32)"
  proof (cases "tables s = 0")
    case True
    then show ?thesis using sz by (simp add: sizes_ok_def)
  next
    case False
    have "unat (ucast (maximum s) div ucast (allocation_size s) :: uint32) = length (object_blocks s)"
      unfolding unat_div_distrib using S(1,5) by (simp add: unat_ucast_up)
    then have "(ucast (maximum s) div ucast (allocation_size s) :: uint32) = of_nat (length (object_blocks s))" unfolding word_unat_eq_iff u .
    then show ?thesis using False by simp
  qed
  have "of_nat (unat (maximum s) + asz s) = (ucast (maximum s) + ucast (allocation_size s) :: uint32)" by (simp add: of_nat_unat)
  then show "ucast (maximum s) + ucast (allocation_size s) = (of_nat (asz s * length (object_blocks s) + asz s) :: uint32)" unfolding S(5) by (rule sym)
  have "asz s * osz s < 2 ^ 16 * 2 ^ 16" using sz unat_lt2p [of "allocation_size s"] by (intro mult_strict_mono) (auto simp: sizes_ok_def)
  then show "unat (ucast (allocation_size s) * object_size s) = asz s * osz s"
    by (subst unat_mult_lem [THEN iffD1]) (simp_all add: unat_ucast_up)
qed

text \<open>The part after the objects are allocated, when the tables must grow.\<close>

definition Extend_tables ::
    "'w allocate_fun \<Rightarrow> (uintptr \<Rightarrow> 'w \<Rightarrow> 'w) \<Rightarrow> uint64 \<Rightarrow> nat \<Rightarrow> 'w Objects_Information \<Rightarrow> uintptr \<Rightarrow> 'w Objects_Information \<Rightarrow> 'w Objects_Information result" where
  "Extend_tables walloc wfree table_size n s p t =
     bind_result (Objects_request walloc table_size t) (\<lambda>(addr, u).
       if addr = 0 then Some (Returns (u\<lparr>ws := wfree p (ws u)\<rparr>))
       else let v = Objects_new_tables 1 (of_nat n) (of_nat (Suc (asz s * n))) (of_nat (Suc (asz s * n)) + ucast (allocation_size s))
                      (of_nat (asz s * n + asz s)) addr u
            in Some (Returns (Objects_add_block (of_nat n) (of_nat (Suc (asz s * n))) (of_nat (Suc (asz s * n)) + ucast (allocation_size s)) p
                 (v\<lparr>ws := wfree (tables u) (ws v)\<rparr>))))"

lemma free_block: "(0 :: uintptr) \<in> set bs \<Longrightarrow> length (takeWhile (\<lambda>b. b \<noteq> 0) bs) < length bs"
  by (induction bs) auto

lemma Extend_unfold:
  assumes r: "class_base lo hi L s xs"
  defines "n \<equiv> length (object_blocks s)" and "k \<equiv> length (takeWhile (\<lambda>b. b \<noteq> 0) (object_blocks s))"
  shows "\<exists>table_size. Objects_Extend_information walloc wfree s =
     (if 2 ^ 16 \<le> asz s * n + asz s then Some (Returns s)
      else bind_result (Objects_request walloc (ucast (allocation_size s) * object_size s) s) (\<lambda>(p, t).
        if p = 0 then Some (Returns t)
        else if 0 \<notin> set (object_blocks s) then Extend_tables walloc wfree table_size n s p t
        else Some (Returns (Objects_add_block (of_nat k) (of_nat (Suc (k * asz s))) (of_nat (Suc (k * asz s)) + ucast (allocation_size s)) p t))))"
proof -
  note I = Extend_inputs [OF r, folded n_def] and S = sizes_okD [OF class_baseD(2) [OF r], folded n_def]
  have al: "ucast (allocation_size s) = (of_nat (asz s) :: uint32)" by (simp add: of_nat_unat)
  have un: "unat (of_nat (asz s * n + asz s) :: uint32) = asz s * n + asz s"
    using S(5,7) unat_lt2p [of "allocation_size s"] by (intro unat_of_nat_32) simp
  have g: "(0xffff < (of_nat (asz s * n + asz s) :: uint32)) = (2 ^ 16 \<le> asz s * n + asz s)"
    unfolding word_less_nat_alt un by (rule iffI) simp_all
  have f: "Objects_find_block (take n (object_blocks s)) 0 1 (ucast (allocation_size s)) =
     (if 0 \<in> set (object_blocks s) then (False, of_nat k, of_nat (Suc (k * asz s))) else (True, of_nat n, of_nat (Suc (asz s * n))))"
    unfolding find_block al by (simp add: n_def k_def algebra_simps)
  show ?thesis
  proof (cases "0 \<in> set (object_blocks s)")
    case True
    show ?thesis unfolding Objects_Extend_information_def Extend_tables_def Let_def I(1,2,4) I(3) f g
      by (rule exI) (simp only: True if_True if_False prod.case not_True_eq_False)
  next
    case False
    show ?thesis unfolding Objects_Extend_information_def Extend_tables_def Let_def I(1,2,4) I(3) f g
      by (rule exI) (simp only: False if_True if_False prod.case not_False_eq_True)
  qed
qed

lemma rest_new:
  assumes "L p = None" and "tables s' = tables s" and "object_blocks s' = (object_blocks s)[b := p]"
    and "b < length (object_blocks s)" and "object_blocks s ! b = 0" and "L 0 = None"
  shows "rest (L(p := k)) s' = rest L s"
proof
  fix x
  have i: "x \<in> set (object_blocks s') \<longleftrightarrow> x = p \<or> x \<in> set (object_blocks s)" if "x \<noteq> 0"
    using assms(3-5) that by (auto simp: in_set_conv_nth nth_list_update)
  have p: "p \<in> set (object_blocks s')" unfolding assms(3) using assms(4) by (rule set_update_memI)
  show "rest (L(p := k)) s' x = rest L s x"
  proof (cases "x = p \<or> x = 0")
    case True
    then show ?thesis using assms(1,6) p by (auto simp: rest_def)
  next
    case False
    then show ?thesis using i assms(2) by (simp add: rest_def)
  qed
qed

lemma rest_grow:
  assumes "L addr = None" and "L 0 = None"
  shows "rest (L(addr := k, tables s := None)) (grow addr s) = rest L s"
proof
  fix x
  have "tables (grow addr s) = addr" "set (object_blocks (grow addr s)) = insert 0 (set (object_blocks s))" by (simp_all add: grow_def)
  then show "rest (L(addr := k, tables s := None)) (grow addr s) x = rest L s x"
    using assms unfolding rest_def by (cases "x = 0"; cases "x = addr"; simp)
qed

text \<open>A class and its areas after an operation; \<open>ys\<close> are the new objects.\<close>

definition extended ::
    "('w \<Rightarrow> (uintptr \<Rightarrow> nat option) \<Rightarrow> bool) \<Rightarrow> nat \<Rightarrow> nat \<Rightarrow> (uintptr \<Rightarrow> nat option) \<Rightarrow> 'w Objects_Information \<Rightarrow> uintptr list
     \<Rightarrow> (uintptr \<Rightarrow> nat option) \<Rightarrow> 'w Objects_Information \<Rightarrow> uintptr list \<Rightarrow> bool" where
  "extended winv lo hi L s xs L' s' ys \<longleftrightarrow> winv (ws s') L' \<and> class_ok lo hi L' s' (xs @ ys) \<and> kept s s'
     \<and> rest L' s' = rest L s \<and> objs s' \<subseteq> objs s \<union> set ys"

lemma extendedI:
  assumes "winv (ws s') L'" and "class_ok lo hi L' s' (xs @ ys)" and "kept s s'" and "rest L' s' = rest L s" and "objs s' \<subseteq> objs s \<union> set ys"
  shows "extended winv lo hi L s xs L' s' ys"
  using assms by (simp add: extended_def)

lemma add_block_objs:
  assumes "blk = of_nat b" and "unat blk = b" and "b < length (object_blocks s)"
  shows "objs (Objects_add_block blk base en p s) \<subseteq> objs s \<union> set (new_objs p (object_size s) (asz s))"
proof -
  obtain ids m c j where e: "Objects_add_block blk base en p s =
     s\<lparr>object_blocks := (object_blocks s)[unat blk := p], object_id := ids, nodes := m, inactive_per_block := c, inactive := j\<rparr>"
    using add_block_frame by blast
  have "obj_at (Objects_add_block blk base en p s) d k \<in> objs s \<union> set (new_objs p (object_size s) (asz s))"
    if "present (Objects_add_block blk base en p s) d k" for d k
  proof (cases "d = b")
    case True
    then show ?thesis using that assms(2,3) unfolding e by (simp add: present_def obj_at_def new_objs_def of_nat_mult)
  next
    case False
    then have "present s d k" "obj_at (Objects_add_block blk base en p s) d k = obj_at s d k"
      using that assms(2) unfolding e by (simp_all add: present_def obj_at_def)
    then show ?thesis by (auto simp: objs_def)
  qed
  then show ?thesis by (auto simp: objs_def)
qed

context workspace
begin

lemma areas: "winv w L \<Longrightarrow> areas_ok lo hi L"
  unfolding areas_ok_def by (rule conjI) (use area_range [of w L] in blast, use area_disjoint [of w L] in blast)

lemma no_null: "winv w L \<Longrightarrow> L 0 = None"
  using area_range [of w L 0] by (cases "L 0") simp_all

lemma request_cases:
  assumes "winv (ws s) L"
  obtains (fatal) "Objects_request walloc n s = Some (Fatal INTERNAL_ERROR_WORKSPACE_ALLOCATION)" "\<not> auto_extend s"
  | (null) w where "Objects_request walloc n s = Some (Returns (0, s\<lparr>ws := w\<rparr>))" "winv w L" "auto_extend s"
  | (area) p w where "Objects_request walloc n s = Some (Returns (p, s\<lparr>ws := w\<rparr>))" "p \<noteq> 0" "L p = None" "winv w (L(p := Some (unat n)))"
proof -
  obtain p w where e: "walloc n (ws s) = Some (p, w)" and w: "if p = 0 then winv w L else L p = None \<and> winv w (L(p := Some (unat n)))"
    using walloc_returns [OF assms] by blast
  have n: "p \<noteq> 0 \<or> auto_extend s \<Longrightarrow> Objects_request walloc n s = Some (Returns (p, s\<lparr>ws := w\<rparr>))"
    and f: "p = 0 \<Longrightarrow> \<not> auto_extend s \<Longrightarrow> Objects_request walloc n s = Some (Fatal INTERNAL_ERROR_WORKSPACE_ALLOCATION)"
    using e by (auto simp: Objects_request_def bind_result_def Workspace_Allocate_or_fatal_error_def)
  consider "p \<noteq> 0" | "p = 0" "auto_extend s" | "p = 0" "\<not> auto_extend s" by blast
  then show thesis
  proof cases
    case 1
    then show thesis using area [of p w] n w by simp
  next
    case 2
    then show thesis using null [of w] n w by simp
  next
    case 3
    then show thesis using fatal f by simp
  qed
qed

lemma add_block_extended:
  assumes r: "class_ok lo hi L s xs" and b: "b < length (object_blocks s)" and z: "object_blocks s ! b = 0"
    and p: "p \<noteq> 0" "L p = None" and w: "winv (ws s) (L(p := Some (asz s * osz s)))"
    and base: "base = of_nat (Suc (b * asz s))"
  shows "extended winv lo hi L s xs (L(p := Some (asz s * osz s)))
    (Objects_add_block (of_nat b) base (base + ucast (allocation_size s)) p s) (new_objs p (object_size s) (asz s))"
proof (rule extendedI)
  have base_ok: "class_base lo hi L s xs" using r by (simp add: class_ok_def)
  have ub: "unat (of_nat b :: uint32) = b"
    using b Extend_inputs(3) [OF base_ok] unat_lt2p [of "of_nat (length (object_blocks s)) :: uint32"] by (intro unat_of_nat_32) simp
  obtain ids m c j where e: "Objects_add_block (of_nat b) base (base + ucast (allocation_size s)) p s =
     s\<lparr>object_blocks := (object_blocks s)[b := p], object_id := ids, nodes := m, inactive_per_block := c, inactive := j\<rparr>"
    using add_block_frame [of "of_nat b"] unfolding ub by blast
  show "winv (ws (Objects_add_block (of_nat b) base (base + ucast (allocation_size s)) p s)) (L(p := Some (asz s * osz s)))"
    using w unfolding e by simp
  show "class_ok lo hi (L(p := Some (asz s * osz s))) (Objects_add_block (of_nat b) base (base + ucast (allocation_size s)) p s)
     (xs @ new_objs p (object_size s) (asz s))"
    by (rule add_block_ok [OF r b z areas [OF w] refl p(2,1) ub base]) (simp add: unat_ucast_up)
  show "kept s (Objects_add_block (of_nat b) base (base + ucast (allocation_size s)) p s)" by (rule add_block_kept)
  have "L 0 = None" using no_null [OF w] p(1) by (simp split: if_splits)
  then show "rest (L(p := Some (asz s * osz s))) (Objects_add_block (of_nat b) base (base + ucast (allocation_size s)) p s) = rest L s"
    by (intro rest_new [of _ _ _ _ b] p b z) (simp_all add: e)
  show "objs (Objects_add_block (of_nat b) base (base + ucast (allocation_size s)) p s) \<subseteq> objs s \<union> set (new_objs p (object_size s) (asz s))"
    by (rule add_block_objs [OF refl ub b])
qed

lemma grow_extended:
  assumes r: "class_ok lo hi L s xs" and p: "p \<noteq> 0" "L p = None" and addr: "addr \<noteq> 0" "L addr = None" "addr \<noteq> p"
    and w: "winv (ws s) (L(p := Some (asz s * osz s), addr := Some k))"
    and n: "n = length (object_blocks s)" and m: "asz s * n + asz s < 2 ^ 16" and q: "n = 0 \<or> 1 < asz s * n"
    and v: "v = Objects_new_tables 1 (of_nat n) (of_nat (Suc (asz s * n))) (of_nat (Suc (asz s * n)) + ucast (allocation_size s))
                              (of_nat (asz s * n + asz s)) addr s"
  shows "\<exists>L'. extended winv lo hi L s xs L' (Objects_add_block (of_nat n) (of_nat (Suc (asz s * n))) (of_nat (Suc (asz s * n)) + ucast (allocation_size s)) p
                          (v\<lparr>ws := wfree (tables s) (ws v)\<rparr>)) (new_objs p (object_size s) (asz s))"
proof -
  have base_ok: "class_base lo hi L s xs" using r by (simp add: class_ok_def)
  note D = class_baseD [OF base_ok]
  have vg: "v = grow addr s" unfolding v by (rule new_tables_grow [OF D(2,7) n refl m q])
  have ms: "asz s * Suc (length (object_blocks s)) < 2 ^ 16" using m n by simp
  let ?L = "L(addr := Some k, tables s := None)" and ?g = "grow addr s" and ?w = "wfree (tables s) (ws s)"
  have L0: "L 0 = None" using no_null [OF w] p(1) addr(1) by (simp split: if_splits)
  have pt: "p \<noteq> tables s" "addr \<noteq> tables s" using D(3) p addr by (auto simp: blocks_ok_def)
  have Lp: "?L(p := Some (asz s * osz s)) = L(p := Some (asz s * osz s), addr := Some k, tables s := None)"
    using pt addr(3) by (auto simp: fun_eq_iff)
  have w': "winv ?w (?L(p := Some (asz s * osz s)))"
  proof (cases "tables s = 0")
    case True
    then have "?L(p := Some (asz s * osz s)) = L(p := Some (asz s * osz s), addr := Some k)" unfolding Lp using L0 p(1) addr(1) by (auto simp: fun_eq_iff)
    then show ?thesis using w True by (simp add: wfree_null)
  next
    case False
    then obtain z where "L (tables s) = Some z" using D(3) by (auto simp: blocks_ok_def)
    then have "(L(p := Some (asz s * osz s), addr := Some k)) (tables s) = Some z" using pt by simp
    from wfree_area [OF w this] show ?thesis unfolding Lp .
  qed
  have gr: "class_ok lo hi ?L ?g xs"
    by (rule grow_ok [OF r _ refl addr(2,1) ms], rule areas_ok_sub [OF areas [OF w']]) (use p pt addr in auto)
  have f: "object_blocks ?g = object_blocks s @ [0]" "allocation_size ?g = allocation_size s" "object_size ?g = object_size s" by (simp_all add: grow_def)
  let ?t = "?g\<lparr>ws := ?w\<rparr>"
  have "class_ok lo hi ?L ?t xs" using gr by (simp add: class_ok_def)
  then have e: "extended winv lo hi ?L ?t xs (?L(p := Some (asz s * osz s)))
     (Objects_add_block (of_nat n) (of_nat (Suc (asz s * n))) (of_nat (Suc (asz s * n)) + ucast (allocation_size s)) p ?t) (new_objs p (object_size s) (asz s))"
    using add_block_extended [of ?L ?t xs n p "of_nat (Suc (asz s * n))"] n f p pt addr w' by (simp add: mult.commute)
  have k: "kept s ?t" using grow_kept [OF D(2) ms, of addr] by (simp add: kept_def)
  have "rest ?L ?t = rest L s" using rest_grow [OF addr(2) L0, of "Some k" s] by simp
  moreover have "objs ?t = objs s" using grow_layout(5) by simp
  ultimately have "extended winv lo hi L s xs (?L(p := Some (asz s * osz s)))
     (Objects_add_block (of_nat n) (of_nat (Suc (asz s * n))) (of_nat (Suc (asz s * n)) + ucast (allocation_size s)) p ?t) (new_objs p (object_size s) (asz s))"
    using e kept_trans [OF k] unfolding extended_def by simp
  then show ?thesis unfolding vg by (auto simp: grow_def)
qed

lemma extended_refl:
  assumes "class_ok lo hi L s xs" and "winv w L"
  shows "extended winv lo hi L s xs L (s\<lparr>ws := w\<rparr>) []"
  using assms by (simp add: extended_def class_ok_def kept_def)

lemma extended_ws: "extended winv lo hi L (s\<lparr>ws := w\<rparr>) xs L' s' ys = extended winv lo hi L s xs L' s' ys"
  by (simp add: extended_def kept_def)

lemma Extend_tables_ok:
  assumes r: "class_ok lo hi L s xs" and p: "p \<noteq> 0" "L p = None" and w: "winv w (L(p := Some (asz s * osz s)))"
    and n: "n = length (object_blocks s)" and m: "asz s * n + asz s < 2 ^ 16" and q: "n = 0 \<or> 1 < asz s * n"
  shows "Extend_tables walloc wfree table_size n s p (s\<lparr>ws := w\<rparr>) = Some (Fatal INTERNAL_ERROR_WORKSPACE_ALLOCATION) \<and> \<not> auto_extend s
    \<or> (\<exists>L' s' ys. Extend_tables walloc wfree table_size n s p (s\<lparr>ws := w\<rparr>) = Some (Returns s') \<and> extended winv lo hi L s xs L' s' ys)"
proof -
  have ws: "winv (ws (s\<lparr>ws := w\<rparr>)) (L(p := Some (asz s * osz s)))" using w by simp
  then show ?thesis
  proof (cases rule: request_cases [where n = table_size])
    case fatal
    then show ?thesis by (simp add: Extend_tables_def bind_result_def)
  next
    case (null u)
    have "winv (wfree p u) ((L(p := Some (asz s * osz s)))(p := None))" using null(2) by (rule wfree_area) simp
    then have "winv (wfree p u) L" using p(2) by (simp add: fun_upd_idem)
    from extended_refl [OF r this] show ?thesis using null(1) by (auto simp: Extend_tables_def bind_result_def)
  next
    case (area addr u)
    define t where "t = s\<lparr>ws := u\<rparr>"
    define v where "v = Objects_new_tables 1 (of_nat n) (of_nat (Suc (asz t * n))) (of_nat (Suc (asz t * n)) + ucast (allocation_size t))
      (of_nat (asz t * n + asz t)) addr t"
    have e: "Extend_tables walloc wfree table_size n s p (s\<lparr>ws := w\<rparr>) =
      Some (Returns (Objects_add_block (of_nat n) (of_nat (Suc (asz t * n))) (of_nat (Suc (asz t * n)) + ucast (allocation_size t)) p
                          (v\<lparr>ws := wfree (tables t) (ws v)\<rparr>)))"
      unfolding Extend_tables_def area(1) v_def t_def using area(2) by (simp add: bind_result_def Let_def del: of_nat_Suc of_nat_add)
    have rt: "class_ok lo hi L t xs" using r by (simp add: class_ok_def t_def)
    have f: "asz t = asz s" "osz t = osz s" "object_blocks t = object_blocks s" "ws t = u" by (simp_all add: t_def)
    have wt: "winv (ws t) (L(p := Some (asz t * osz t), addr := Some (unat table_size)))" using area(4) unfolding f .
    have "addr \<noteq> p" "L addr = None" using area(3) by (auto split: if_splits)
    from grow_extended [OF rt p area(2) this(2,1) wt n [folded f(3)] m [folded f(1)] q [folded f(1)] v_def]
    show ?thesis unfolding e by (auto simp: t_def extended_ws)
  qed
qed

theorem Extend_ok:
  assumes r: "class_ok lo hi L s xs" and w: "winv (ws s) L" and one: "allocation_size s = 1 \<Longrightarrow> length (object_blocks s) \<noteq> 1"
  shows "Objects_Extend_information walloc wfree s = Some (Fatal INTERNAL_ERROR_WORKSPACE_ALLOCATION) \<and> \<not> auto_extend s
    \<or> (\<exists>L' s' ys. Objects_Extend_information walloc wfree s = Some (Returns s') \<and> extended winv lo hi L s xs L' s' ys)"
proof -
  let ?n = "length (object_blocks s)" and ?k = "length (takeWhile (\<lambda>b. b \<noteq> 0) (object_blocks s))"
  have base: "class_base lo hi L s xs" using r by (simp add: class_ok_def)
  note D = class_baseD [OF base] note S = sizes_okD [OF D(2)]
  obtain table_size where E: "Objects_Extend_information walloc wfree s =
     (if 2 ^ 16 \<le> asz s * ?n + asz s then Some (Returns s)
      else bind_result (Objects_request walloc (ucast (allocation_size s) * object_size s) s) (\<lambda>(p, t).
        if p = 0 then Some (Returns t)
        else if 0 \<notin> set (object_blocks s) then Extend_tables walloc wfree table_size ?n s p t
        else Some (Returns (Objects_add_block (of_nat ?k) (of_nat (Suc (?k * asz s))) (of_nat (Suc (?k * asz s)) + ucast (allocation_size s)) p t))))"
    using Extend_unfold [OF base, of walloc wfree] by blast
  have q: "?n = 0 \<or> 1 < asz s * ?n"
  proof -
    have "asz s = 1 \<longleftrightarrow> allocation_size s = 1" by (simp add: word_unat_eq_iff)
    then show ?thesis using one S(1) by (cases ?n; cases "asz s"; cases "asz s - 1"; cases "?n - 1") auto
  qed
  show ?thesis
  proof (cases "2 ^ 16 \<le> asz s * ?n + asz s")
    case True
    then show ?thesis using E extended_refl [OF r w] by auto
  next
    case m: False
    from w show ?thesis
    proof (cases rule: request_cases [where n = "ucast (allocation_size s) * object_size s"])
      case fatal
      then show ?thesis using E m by (simp add: bind_result_def)
    next
      case (null w')
      then show ?thesis using E m extended_refl [OF r null(2)] by (auto simp: bind_result_def)
    next
      case (area p w')
      note a = area(1-3) area(4) [unfolded Extend_inputs(5) [OF base]]
      let ?s = "s\<lparr>ws := w'\<rparr>"
      have rs: "class_ok lo hi L ?s xs" using r by (simp add: class_ok_def)
      show ?thesis
      proof (cases "0 \<in> set (object_blocks s)")
        case True
        have kn: "?k < ?n" by (rule free_block [OF True])
        note k = kn nth_length_takeWhile [OF kn, simplified]
        have "extended winv lo hi L ?s xs (L(p := Some (asz s * osz s)))
          (Objects_add_block (of_nat ?k) (of_nat (Suc (?k * asz s))) (of_nat (Suc (?k * asz s)) + ucast (allocation_size s)) p ?s) (new_objs p (object_size s) (asz s))"
          using add_block_extended [OF rs, of ?k p "of_nat (Suc (?k * asz s))"] k a by simp
        then show ?thesis using E m a True unfolding extended_ws by (auto simp: bind_result_def)
      next
        case ext: False
        have "Objects_Extend_information walloc wfree s = Extend_tables walloc wfree table_size ?n s p ?s"
          unfolding E using m a ext by (simp add: bind_result_def)
        then show ?thesis using Extend_tables_ok [OF r a(2-4) refl _ q] m by simp
      qed
    qed
  qed
qed

end

end
