(* ===== verification/Objects_Alloc.thy ===== *)
theory Objects_Alloc
  imports Objects_Ops
begin

text \<open>
  Allocating an object and giving it back, with the class extended when there is no inactive object
  and shrunk when there are too many.
\<close>

section \<open>Allocating\<close>

lemma Get_inactive_cases:
  assumes "chain_rep (nodes s) (Inactive s) xs"
  obtains (none) "xs = []" "Objects_Get_inactive s = (0, s)"
  | (some) x ys m where "xs = x # ys" "Objects_Get_inactive s = (x, s\<lparr>nodes := m\<rparr>)" "chain_rep m (Inactive s) ys"
proof (cases xs)
  case Nil
  then show thesis using Chain_Get_rep [OF assms] none by (simp add: Objects_Get_inactive_def NULL_def)
next
  case (Cons x ys)
  then show thesis using Chain_Get_rep [OF assms] some [of x ys "snd (Chain_Get_unprotected (Inactive s) (nodes s))"]
    by (simp add: Objects_Get_inactive_def split_beta)
qed

text \<open>The object \<open>x\<close> is neither inactive nor open: it belongs to the caller.\<close>

definition idle :: "'w Objects_Information \<Rightarrow> uintptr list \<Rightarrow> uintptr \<Rightarrow> bool" where
  "idle s xs x \<longleftrightarrow> x \<notin> set xs \<and> (\<exists>b k. present s b k \<and> x = obj_at s b k \<and> local_table s ! index_at s b k = 0)"

definition allocated ::
    "('w \<Rightarrow> (uintptr \<Rightarrow> nat option) \<Rightarrow> bool) \<Rightarrow> nat \<Rightarrow> nat \<Rightarrow> (uintptr \<Rightarrow> nat option) \<Rightarrow> 'w Objects_Information \<Rightarrow> uintptr list
     \<Rightarrow> uintptr \<Rightarrow> (uintptr \<Rightarrow> nat option) \<Rightarrow> 'w Objects_Information \<Rightarrow> uintptr list \<Rightarrow> bool" where
  "allocated winv lo hi L s xs x L' s' xs' \<longleftrightarrow> winv (ws s') L' \<and> class_ok lo hi L' s' xs' \<and> kept s s' \<and> rest L' s' = rest L s
     \<and> (if x = 0 then xs = [] else idle s' xs' x) \<and> set xs \<subseteq> insert x (set xs') \<and> objs s' \<subseteq> objs s \<union> insert x (set xs')"

lemma taken:
  assumes r: "class_ok lo hi L s (x # ys)" and w: "winv (ws s) L" and m: "chain_rep m (Inactive s) ys"
    and t: "t = (if auto_extend s then adjust_counts (unat (Objects_block_of s x)) (- 1) (- 1) (s\<lparr>nodes := m\<rparr>) else s\<lparr>nodes := m\<rparr>)"
  shows "allocated winv lo hi L s (x # ys) x L t ys" and "x \<noteq> 0"
proof -
  have base: "class_base lo hi L s (x # ys)" and cn: "counts_ok s (x # ys)" using r by (auto simp: class_ok_def)
  note D = class_baseD [OF base]
  obtain b k where p: "present s b k" "x = obj_at s b k" using D(6) objs_cases by (metis list.set_intros(1) subsetD)
  show "x \<noteq> 0" using obj_unat(6) [OF D(1,3) p(1)] unfolding p(2) by (metis less_irrefl unsigned_0)
  have c: "class_ok lo hi L t ys"
    using take_inactive [OF base cn m] unfolding t by (auto simp: class_ok_def counts_ok_def)
  have "local_table s ! index_at s b k = 0" using table_okD(2) [OF D(7), of b k] p by (auto simp: present_def)
  moreover have "x \<notin> set ys" using class_distinct [OF base] by simp
  ultimately have "idle t ys x" using p by (auto simp: idle_def t adjust_counts_def)
  then show "allocated winv lo hi L s (x # ys) x L t ys"
    using c w \<open>x \<noteq> 0\<close> by (auto simp: allocated_def t adjust_counts_def kept_def)
qed

lemma allocated_after:
  assumes "extended winv lo hi L s [] L1 s1 xs1" and "allocated winv lo hi L1 s1 xs1 x L2 s2 xs2"
  shows "allocated winv lo hi L s [] x L2 s2 xs2"
  using assms kept_trans by (fastforce simp: extended_def allocated_def split: if_splits)

lemma bind_Returns [simp]: "bind_result (Some (Returns x)) f = f x"
  by (simp add: bind_result_def)

context workspace
begin

theorem Allocate_ok:
  assumes r: "class_ok lo hi L s xs" and w: "winv (ws s) L" and one: "auto_extend s \<Longrightarrow> allocation_size s = 1 \<Longrightarrow> length (object_blocks s) \<noteq> 1"
  shows "\<exists>x L' s' xs'. Objects_Allocate_unprotected walloc wfree s = Some (Returns (x, s')) \<and> allocated winv lo hi L s xs x L' s' xs'"
proof -
  have base: "class_base lo hi L s xs" using r by (simp add: class_ok_def)
  note D = class_baseD [OF base]
  have nz: "object_size s \<noteq> 0" using sizes_okD(2) [OF D(2)] by auto
  have adj: "s\<lparr>inactive_per_block := (inactive_per_block s)[b := inactive_per_block s ! b - 1], inactive := inactive s - 1\<rparr> = adjust_counts b (- 1) (- 1) s"
    for b and s :: "'a Objects_Information" by (simp add: adjust_counts_def)
  have blk: "Objects_block_of (s\<lparr>nodes := m\<rparr>) x = Objects_block_of s x" for m x and s :: "'a Objects_Information" by (simp add: Objects_block_of_def)
  from D(5) show ?thesis
  proof (cases rule: Get_inactive_cases)
    case (some x ys m)
    define t where "t = (if auto_extend s then adjust_counts (unat (Objects_block_of s x)) (- 1) (- 1) (s\<lparr>nodes := m\<rparr>) else s\<lparr>nodes := m\<rparr>)"
    note T = taken [where winv = winv, OF r [unfolded some(1)] w some(3) t_def]
    have "Objects_Allocate_unprotected walloc wfree s = Some (Returns (x, t))"
      unfolding Objects_Allocate_unprotected_def some(2) t_def using nz T(2) by (simp add: adj blk)
    then show ?thesis using T(1) some(1) by blast
  next
    case none
    show ?thesis
    proof (cases "auto_extend s")
      case False
      then have "Objects_Allocate_unprotected walloc wfree s = Some (Returns (0, s))"
        unfolding Objects_Allocate_unprotected_def none(2) using nz by simp
      moreover have "allocated winv lo hi L s xs 0 L s xs" using r w none by (simp add: allocated_def) blast
      ultimately show ?thesis by blast
    next
      case auto: True
      obtain L1 s1 xs1 where e1: "Objects_Extend_information walloc wfree s = Some (Returns s1)" and x1: "extended winv lo hi L s xs L1 s1 xs1"
        using Extend_ok [OF r w] one auto by blast
      have r1: "class_ok lo hi L1 s1 xs1" and w1: "winv (ws s1) L1" and auto1: "auto_extend s1" using x1 none(1) auto by (auto simp: extended_def kept_def)
      have "chain_rep (nodes s1) (Inactive s1) xs1" using r1 by (simp add: class_ok_def class_base_def)
      then show ?thesis
      proof (cases rule: Get_inactive_cases)
        case n1: none
        have "Objects_Allocate_unprotected walloc wfree s = Some (Returns (0, s1))"
          unfolding Objects_Allocate_unprotected_def none(2) using nz auto e1 n1(2) by simp
        moreover have "allocated winv lo hi L s xs 0 L1 s1 xs1" using x1 none(1) n1(1) by (auto simp: allocated_def extended_def)
        ultimately show ?thesis by blast
      next
        case (some x ys m)
        define t where "t = (if auto_extend s1 then adjust_counts (unat (Objects_block_of s1 x)) (- 1) (- 1) (s1\<lparr>nodes := m\<rparr>) else s1\<lparr>nodes := m\<rparr>)"
        note T = taken [where winv = winv, OF r1 [unfolded some(1)] w1 some(3) t_def]
        have "Objects_Allocate_unprotected walloc wfree s = Some (Returns (x, t))"
          unfolding Objects_Allocate_unprotected_def none(2) t_def using nz auto auto1 e1 some(2) T(2) by (simp add: adj blk)
        then show ?thesis using allocated_after x1 T(1) some(1) none(1) by blast
      qed
    qed
  qed
qed

end

section \<open>Shrinking\<close>

abbreviation obj_index :: "'w Objects_Information \<Rightarrow> uintptr \<Rightarrow> uint32" where
  "obj_index s x \<equiv> ucast (Objects_Get_index (object_id s x))"

lemma Shrink_loop_filter:
  assumes "chain_rep (nodes s) c (ds @ ns)" and "c + 8 \<notin> set ns"
  shows "\<exists>m. Objects_Shrink_loop base en (c + 8) (hd (ns @ [c + 8])) s = Some (s\<lparr>nodes := m\<rparr>)
    \<and> chain_rep m c (ds @ filter (\<lambda>x. \<not> (base \<le> obj_index s x \<and> obj_index s x < en)) ns)"
  using assms
proof (induction ns arbitrary: s ds)
  case Nil
  then show ?case by (intro exI [of _ "nodes s"]) (simp add: Objects_Shrink_loop.simps)
next
  case (Cons x ns)
  let ?P = "base \<le> obj_index s x \<and> obj_index s x < en"
  have nx: "Chain_Next (nodes s) x = hd (ns @ [c + 8])" using chain_rep_middle(1) [OF Cons.prems(1)] by (simp add: Chain_Next_def)
  have ne: "x \<noteq> c + 8" "c + 8 \<notin> set ns" using Cons.prems(2) by auto
  show ?case
  proof (cases ?P)
    case True
    let ?t = "s\<lparr>nodes := Chain_Extract_unprotected x (nodes s)\<rparr>"
    have "chain_rep (nodes ?t) c (ds @ ns)" using chain_rep_extract [OF Cons.prems(1)] by simp
    from Cons.IH [OF this ne(2)] show ?thesis using True ne(1) nx
      by (subst Objects_Shrink_loop.simps) (simp add: Let_def)
  next
    case False
    have "chain_rep (nodes s) c ((ds @ [x]) @ ns)" using Cons.prems(1) by simp
    from Cons.IH [OF this ne(2)] show ?thesis using False ne(1) nx
      by (subst Objects_Shrink_loop.simps) (auto simp: Let_def)
  qed
qed

lemma Shrink_search_cases:
  obtains (none) "Objects_Shrink_search cs blk base s wfree = Some s"
  | (some) i where "i < length cs" "cs ! i = ucast (allocation_size s)"
      "Objects_Shrink_search cs blk base s wfree = map_option (\<lambda>t.
          t\<lparr>ws := wfree (object_blocks t ! (blk + i)) (ws t), object_blocks := (object_blocks t)[blk + i := 0],
            inactive_per_block := (inactive_per_block t)[blk + i := 0], inactive := inactive t - allocation_size t\<rparr>)
        (Objects_Shrink_loop (base + of_nat i * ucast (allocation_size s)) (base + of_nat i * ucast (allocation_size s) + ucast (allocation_size s))
           (Chain_Tail (Inactive s)) (Chain_First (nodes s) (Inactive s)) s)"
proof (induction cs arbitrary: blk base thesis)
  case Nil
  then show ?case by simp
next
  case (Cons c cs)
  show ?case
  proof (cases "c = ucast (allocation_size s)")
    case True
    show ?thesis by (rule Cons.prems(2) [of 0]) (simp_all add: True Let_def)
  next
    case False
    then have e: "Objects_Shrink_search (c # cs) blk base s wfree = Objects_Shrink_search cs (Suc blk) (base + ucast (allocation_size s)) s wfree" by simp
    show ?thesis
    proof (rule Cons.IH [of "Suc blk" "base + ucast (allocation_size s)"])
      assume "Objects_Shrink_search cs (Suc blk) (base + ucast (allocation_size s)) s wfree = Some s"
      then show ?thesis using Cons.prems(1) e by simp
    next
      fix i assume a: "i < length cs" "cs ! i = ucast (allocation_size s)"
        and eq: "Objects_Shrink_search cs (Suc blk) (base + ucast (allocation_size s)) s wfree = map_option (\<lambda>t.
          t\<lparr>ws := wfree (object_blocks t ! (Suc blk + i)) (ws t), object_blocks := (object_blocks t)[Suc blk + i := 0],
            inactive_per_block := (inactive_per_block t)[Suc blk + i := 0], inactive := inactive t - allocation_size t\<rparr>)
        (Objects_Shrink_loop (base + ucast (allocation_size s) + of_nat i * ucast (allocation_size s))
           (base + ucast (allocation_size s) + of_nat i * ucast (allocation_size s) + ucast (allocation_size s))
           (Chain_Tail (Inactive s)) (Chain_First (nodes s) (Inactive s)) s)"
      show ?thesis by (rule Cons.prems(2) [of "Suc i"]) (use a e eq in \<open>simp_all add: algebra_simps\<close>)
    qed
  qed
qed

text \<open>The class without the objects of block \<open>b\<close>.\<close>

definition drop_block :: "nat \<Rightarrow> chain_mem \<Rightarrow> 'w \<Rightarrow> 'w Objects_Information \<Rightarrow> 'w Objects_Information" where
  "drop_block b m w s = s\<lparr>nodes := m, ws := w, object_blocks := (object_blocks s)[b := 0],
     inactive_per_block := (inactive_per_block s)[b := 0], inactive := inactive s - allocation_size s\<rparr>"

lemma drop_block_layout:
  shows "c \<noteq> b \<Longrightarrow> obj_at (drop_block b m w s) c k = obj_at s c k"
    and "b < length (object_blocks s) \<Longrightarrow> present (drop_block b m w s) c k = (present s c k \<and> c \<noteq> b)"
    and "index_at (drop_block b m w s) = index_at s" and "id_of (drop_block b m w s) = id_of s"
  by (auto simp: drop_block_def obj_at_def present_def index_at_def id_of_def fun_eq_iff nth_list_update)

lemma in_block:
  assumes r: "class_base lo hi L s xs" and p: "present s c k" and b: "b < length (object_blocks s)"
    and base: "base = of_nat (Suc (b * asz s))" and en: "en = base + ucast (allocation_size s)"
  shows "(base \<le> obj_index s (obj_at s c k) \<and> obj_index s (obj_at s c k) < en) = (c = b)"
proof -
  note sz = class_baseD(2) [OF r] note S = sizes_okD [OF sz]
  have bb: "b * asz s + asz s \<le> unat (maximum s)"
    using mult_le_mono1 [of "Suc b" "length (object_blocks s)" "asz s"] b S(5) by (simp add: mult.commute)
  have ub: "unat base = Suc (b * asz s)" unfolding base using bb S(7) by (intro unat_of_nat_32) simp
  have ue: "unat en = Suc (b * asz s) + asz s" unfolding en
    by (subst unat_plus_no_wrap) (use ub bb S(7) in \<open>simp_all add: unat_ucast_up\<close>)
  have k: "k < asz s" using p by (simp add: present_def)
  have "c * asz s + k < b * asz s" if "c < b" using mult_le_mono1 [of "Suc c" b "asz s"] that k by simp
  moreover have "b * asz s + asz s \<le> c * asz s" if "b < c" using mult_le_mono1 [of "Suc b" c "asz s"] that by simp
  ultimately show ?thesis
    unfolding word_le_nat_alt word_less_nat_alt object_index [OF r p] ub ue index_at_def using k
    by (cases "c < b"; cases "b < c"; simp)
qed

lemma full_block:
  assumes r: "class_ok lo hi L s xs" and auto: "auto_extend s" and b: "b < length (object_blocks s)"
    and full: "inactive_per_block s ! b = ucast (allocation_size s)"
  shows "k < asz s \<Longrightarrow> present s b k \<and> obj_at s b k \<in> set xs" and "object_blocks s ! b \<noteq> 0"
proof -
  let ?K = "{k. present s b k \<and> obj_at s b k \<in> set xs}"
  have base: "class_base lo hi L s xs" and cn: "inactive_per_block s ! b = of_nat (card ?K)" using r auto b by (auto simp: class_ok_def counts_ok_def)
  have sub: "?K \<subseteq> {..<asz s}" by (auto simp: present_def)
  then have "card ?K \<le> asz s" using card_mono [OF _ sub] by simp
  then have u: "unat (of_nat (card ?K) :: uint32) = card ?K" using unat_lt2p [of "allocation_size s"] by (intro unat_of_nat_32) simp
  have "card ?K = unat (inactive_per_block s ! b)" unfolding cn u ..
  also have "\<dots> = asz s" unfolding full by (rule unat_ucast_up) simp
  finally have "card ?K = asz s" .
  then have "?K = {..<asz s}" using card_subset_eq [OF _ sub] by simp
  then show p: "k < asz s \<Longrightarrow> present s b k \<and> obj_at s b k \<in> set xs" for k by blast
  show "object_blocks s ! b \<noteq> 0" using p [of 0] sizes_okD(1) [OF class_baseD(2) [OF base]] by (simp add: present_def)
qed

lemma block_length:
  assumes r: "class_ok lo hi L s xs" and all: "\<And>k. k < asz s \<Longrightarrow> present s b k \<and> obj_at s b k \<in> set xs"
  shows "length xs = length (filter (\<lambda>x. \<forall>k<asz s. x \<noteq> obj_at s b k) xs) + asz s"
proof -
  have base: "class_base lo hi L s xs" using r by (simp add: class_ok_def)
  note i = obj_inj [OF class_baseD(1,3) [OF base] sizes_okD(2) [OF class_baseD(2) [OF base]]]
  let ?ys = "filter (\<lambda>x. \<not> (\<forall>k<asz s. x \<noteq> obj_at s b k)) xs"
  have "set ?ys = obj_at s b ` {..<asz s}" using all by auto
  moreover have "inj_on (obj_at s b) {..<asz s}" by (rule inj_onI) (use i [of b _ b] all in \<open>blast dest: lessThan_iff [THEN iffD1]\<close>)
  ultimately have "card (set ?ys) = asz s" by (simp add: card_image)
  moreover have "distinct ?ys" using class_distinct [OF base] by simp
  ultimately show ?thesis using distinct_card [of ?ys] sum_length_filter_compl [of "\<lambda>x. \<forall>k<asz s. x \<noteq> obj_at s b k" xs] by simp
qed

lemma drop_block_ok:
  assumes r: "class_ok lo hi L s xs" and auto: "auto_extend s" and b: "b < length (object_blocks s)"
    and full: "inactive_per_block s ! b = ucast (allocation_size s)"
    and a: "areas_ok lo hi L'" and L': "L' = L(object_blocks s ! b := None)"
    and ys: "ys = filter (\<lambda>x. \<forall>k<asz s. x \<noteq> obj_at s b k) xs" and m: "chain_rep m (Inactive s) ys"
  shows "class_ok lo hi L' (drop_block b m w s) ys"
proof -
  note F = full_block [OF r auto b full]
  have base: "class_base lo hi L s xs" and cn: "counts_ok s xs" using r by (auto simp: class_ok_def)
  note D = class_baseD [OF base] note lay = drop_block_layout(1) [of _ b m w s] drop_block_layout(2) [OF b, of m w] drop_block_layout(3,4) [of b m w s]
  let ?t = "drop_block b m w s"
  have tf: "object_blocks ?t = (object_blocks s)[b := 0]" "tables ?t = tables s" "allocation_size ?t = allocation_size s" "object_size ?t = object_size s"
    "local_table ?t = local_table s" "nodes ?t = m" "Inactive ?t = Inactive s" "object_id ?t = object_id s" "auto_extend ?t = auto_extend s"
    "inactive ?t = inactive s - allocation_size s" "inactive_per_block ?t = (inactive_per_block s)[b := 0]" by (simp_all add: drop_block_def)
  note i = obj_inj [OF D(1,3) sizes_okD(2) [OF D(2)]]
  have sep: "obj_at s c k \<noteq> obj_at s b j" if "present s c k" "c \<noteq> b" "j < asz s" for c k j using i [OF that(1), of b j] F(1) [OF that(3)] that(2) by blast
  have "sizes_ok lo hi ?t"
    using D(2) unfolding sizes_ok_def lay(4) by (simp add: drop_block_def)
  moreover have "blocks_ok L' ?t"
    using D(3) F(2) b unfolding blocks_ok_def tf L' by (auto simp: nth_list_update)
  moreover have "object_id ?t (obj_at ?t c k) = id_of ?t (index_at ?t c k)" if "present ?t c k" for c k
    using D(4) [of c k] that lay unfolding tf by simp
  moreover have "set ys \<subseteq> objs ?t"
  proof
    fix x assume x: "x \<in> set ys"
    then have "x \<in> objs s" using D(6) ys by auto
    then obtain c k where ck: "present s c k" "x = obj_at s c k" by (rule objs_cases)
    have "c \<noteq> b" using x ys ck by (auto simp: present_def)
    then have "present ?t c k" "x = obj_at ?t c k" using ck lay(1,2) by simp_all
    then show "x \<in> objs ?t" unfolding objs_def by blast
  qed
  moreover have "table_ok ?t ys" unfolding table_ok_def tf lay(3)
  proof (intro conjI allI impI)
    show "local_table s ! 0 = 0" by (rule table_okD(1) [OF D(7)])
    fix c k assume c: "c < length ((object_blocks s)[b := 0])" "k < asz s" "local_table s ! index_at s c k \<noteq> 0"
    note t = table_okD(2) [OF D(7) c(1) [simplified] c(2,3)]
    have "c \<noteq> b" using t F(1) [OF c(2)] by auto
    then have e: "present ?t c k = present s c k" "obj_at ?t c k = obj_at s c k" using lay(1,2) by simp_all
    show "present ?t c k" "local_table s ! index_at s c k = obj_at ?t c k" "obj_at ?t c k \<notin> set ys" unfolding e ys using t by simp_all
  qed
  ultimately have "class_base lo hi L' ?t ys" using a m unfolding class_base_def tf by blast
  moreover have "counts_ok ?t ys"
  proof -
    have "length xs = length ys + asz s" unfolding ys by (rule block_length [OF r]) (rule F(1))
    then have "of_nat (length xs) = (of_nat (length ys) + allocation_size s :: uint16)" by (simp add: of_nat_unat)
    then have "inactive ?t = of_nat (length ys)" using cn auto by (simp add: counts_ok_def tf)
    moreover have "{k. present ?t c k \<and> obj_at ?t c k \<in> set ys} = (if c = b then {} else {k. present s c k \<and> obj_at s c k \<in> set xs})" for c
    proof (cases "c = b")
      case False
      then have e: "present ?t c k = present s c k" "obj_at ?t c k = obj_at s c k" for k using lay(1,2) by simp_all
      show ?thesis unfolding e ys using False sep by auto
    qed (simp add: lay(2))
    ultimately show ?thesis using cn auto b sizes_okD(4) [OF D(2)] unfolding counts_ok_def tf by (simp add: nth_list_update)
  qed
  ultimately show ?thesis by (simp add: class_ok_def)
qed

definition shrunk ::
    "('w \<Rightarrow> (uintptr \<Rightarrow> nat option) \<Rightarrow> bool) \<Rightarrow> nat \<Rightarrow> nat \<Rightarrow> (uintptr \<Rightarrow> nat option) \<Rightarrow> 'w Objects_Information \<Rightarrow> uintptr list
     \<Rightarrow> (uintptr \<Rightarrow> nat option) \<Rightarrow> 'w Objects_Information \<Rightarrow> uintptr list \<Rightarrow> bool" where
  "shrunk winv lo hi L s xs L' s' xs' \<longleftrightarrow> winv (ws s') L' \<and> class_ok lo hi L' s' xs' \<and> kept s s' \<and> rest L' s' = rest L s
     \<and> set xs' \<subseteq> set xs \<and> objs s' \<subseteq> objs s \<and> objs s' \<inter> set xs \<subseteq> set xs'"

lemma drop_block_objs:
  assumes r: "class_ok lo hi L s xs" and b: "b < length (object_blocks s)" and all: "\<And>k. k < asz s \<Longrightarrow> present s b k"
  shows "objs (drop_block b m w s) \<subseteq> objs s" and "objs (drop_block b m w s) \<inter> set xs \<subseteq> set (filter (\<lambda>x. \<forall>k<asz s. x \<noteq> obj_at s b k) xs)"
proof -
  have base: "class_base lo hi L s xs" using r by (simp add: class_ok_def)
  note i = obj_inj [OF class_baseD(1,3) [OF base] sizes_okD(2) [OF class_baseD(2) [OF base]]]
  have o: "x \<in> objs s \<and> (\<forall>k<asz s. x \<noteq> obj_at s b k)" if x: "x \<in> objs (drop_block b m w s)" for x
  proof -
    obtain c k where "present (drop_block b m w s) c k" "x = obj_at (drop_block b m w s) c k" using x by (rule objs_cases)
    then have ck: "present s c k" "c \<noteq> b" "x = obj_at s c k" using drop_block_layout(1) [of c b m w s k] drop_block_layout(2) [OF b, of m w c k] by simp_all
    then have "x \<noteq> obj_at s b j" if "j < asz s" for j using i [OF ck(1) all [OF that]] by auto
    then show ?thesis using ck unfolding objs_def by blast
  qed
  then show "objs (drop_block b m w s) \<subseteq> objs s" and "objs (drop_block b m w s) \<inter> set xs \<subseteq> set (filter (\<lambda>x. \<forall>k<asz s. x \<noteq> obj_at s b k) xs)"
    by auto
qed

lemma shrunk_refl: "class_ok lo hi L s xs \<Longrightarrow> winv (ws s) L \<Longrightarrow> shrunk winv lo hi L s xs L s xs"
  by (auto simp: shrunk_def)

lemma rest_drop:
  assumes "L' = L(object_blocks s ! b := None)" and "b < length (object_blocks s)" and "L 0 = None"
  shows "rest L' (drop_block b m w s) = rest L s"
proof
  fix x
  show "rest L' (drop_block b m w s) x = rest L s x"
  proof (cases "x = 0 \<or> x = object_blocks s ! b")
    case True
    then show ?thesis using assms nth_mem [OF assms(2)] by (auto simp: rest_def)
  next
    case False
    then have "x \<in> set ((object_blocks s)[b := 0]) \<longleftrightarrow> x \<in> set (object_blocks s)"
      using assms(2) by (auto simp: in_set_conv_nth nth_list_update)
    then show ?thesis using False assms(1) by (simp add: rest_def drop_block_def)
  qed
qed

context workspace
begin

theorem Shrink_ok:
  assumes r: "class_ok lo hi L s xs" and auto: "auto_extend s" and w: "winv (ws s) L"
  shows "\<exists>L' s' xs'. Objects_Shrink_information wfree s = Some s' \<and> shrunk winv lo hi L s xs L' s' xs'"
proof -
  have base: "class_base lo hi L s xs" using r by (simp add: class_ok_def)
  note D = class_baseD [OF base] note S = sizes_okD [OF D(2)]
  define cs where "cs = take (unat ((ucast (maximum s) - ucast (Objects_Get_index (minimum_id s))) div ucast (allocation_size s) :: uint32)) (inactive_per_block s)"
  have e: "Objects_Shrink_information wfree s = Objects_Shrink_search cs 0 1 s wfree"
    unfolding Objects_Shrink_information_def Let_def cs_def Extend_inputs(1) [OF base] ..
  show ?thesis
  proof (cases rule: Shrink_search_cases [of cs 0 1 s wfree])
    case none
    then show ?thesis using e shrunk_refl [where winv = winv, OF r w] by metis
  next
    case (some b)
    have b: "b < length (object_blocks s)" and full: "inactive_per_block s ! b = ucast (allocation_size s)"
      using some(1,2) S(4) by (simp_all add: cs_def)
    note F = full_block [OF r auto b full]
    let ?base = "1 + of_nat b * ucast (allocation_size s) :: uint32"
    have bs: "?base = of_nat (Suc (b * asz s))" by (simp add: of_nat_unat)
    have tail: "Inactive s + 8 \<notin> set xs" using chain_rep_walk(2) [OF D(5)] .
    let ?P = "\<lambda>x. \<not> (?base \<le> obj_index s x \<and> obj_index s x < ?base + ucast (allocation_size s))"
    define ys where "ys = filter (\<lambda>x. \<forall>k<asz s. x \<noteq> obj_at s b k) xs"
    have P: "filter ?P xs = ys" unfolding ys_def
    proof (rule filter_cong [OF refl])
      fix x assume "x \<in> set xs"
      then have "x \<in> objs s" using D(6) by blast
      then obtain c k where ck: "present s c k" "x = obj_at s c k" by (rule objs_cases)
      have "(c = b) = (\<exists>k<asz s. x = obj_at s b k)"
        using obj_inj [OF D(1,3) S(2) ck(1)] F(1) ck by (metis present_def)
      then show "?P x = (\<forall>k<asz s. x \<noteq> obj_at s b k)" unfolding ck(2) in_block [OF base ck(1) b bs refl] by blast
    qed
    obtain m where sl: "Objects_Shrink_loop ?base (?base + ucast (allocation_size s)) (Inactive s + 8) (hd (xs @ [Inactive s + 8])) s = Some (s\<lparr>nodes := m\<rparr>)"
      and m: "chain_rep m (Inactive s) ys"
      using Shrink_loop_filter [of s "Inactive s" "[]" xs ?base "?base + ucast (allocation_size s)"] D(5) tail unfolding P by auto
    define t where "t = drop_block b m (wfree (object_blocks s ! b) (ws s)) s"
    have "Chain_First (nodes s) (Inactive s) = hd (xs @ [Inactive s + 8])" using chain_rep_ends(1) [OF D(5)] by (simp add: chain_accessors)
    then have et: "Objects_Shrink_information wfree s = Some t"
      unfolding e some(3) Chain_Tail_def using sl by (simp add: t_def drop_block_def)
    let ?L = "L(object_blocks s ! b := None)"
    have "L (object_blocks s ! b) = Some (asz s * osz s)" using D(3) b F(2) by (simp add: blocks_ok_def)
    then have w': "winv (ws t) ?L" using wfree_area [OF w] by (simp add: t_def drop_block_def)
    have "shrunk winv lo hi L s xs ?L t ys"
      unfolding shrunk_def
    proof (intro conjI)
      show "class_ok lo hi ?L t ys" unfolding t_def by (rule drop_block_ok [OF r auto b full areas [OF w'] refl ys_def m])
      show "kept s t" by (simp add: t_def drop_block_def kept_def)
      show "rest ?L t = rest L s" unfolding t_def by (rule rest_drop) (use b no_null [OF w] in simp_all)
      show "set ys \<subseteq> set xs" by (auto simp: ys_def)
      show "objs t \<subseteq> objs s" "objs t \<inter> set xs \<subseteq> set ys"
        unfolding t_def ys_def by (rule drop_block_objs [OF r b]; simp add: F(1))+
    qed (rule w')
    then show ?thesis using et by blast
  qed
qed

theorem Free_ok:
  assumes r: "class_ok lo hi L s xs" and w: "winv (ws s) L" and x: "idle s xs x"
  shows "\<exists>L' s' xs'. Objects_Free wfree x s = Some s' \<and> shrunk winv lo hi L s (xs @ [x]) L' s' xs'"
proof -
  obtain b k where p: "present s b k" "x = obj_at s b k" "local_table s ! index_at s b k = 0" "x \<notin> set xs" using x by (auto simp: idle_def)
  have base: "class_base lo hi L s xs" using r by (simp add: class_ok_def)
  let ?t = "s\<lparr>nodes := Chain_Append_unprotected (Inactive s) x (nodes s)\<rparr>" and ?n = "ucast (allocation_size s) :: uint32"
  note G = give_inactive [OF r p(1) p(4) [unfolded p(2)] p(3), folded p(2)]
  show ?thesis
  proof (cases "auto_extend s")
    case False
    have "class_ok lo hi L ?t (xs @ [x])" using G(1) False by (simp add: class_ok_def counts_ok_def)
    then have "shrunk winv lo hi L s (xs @ [x]) L ?t (xs @ [x])" using w by (auto simp: shrunk_def kept_def)
    moreover have "Objects_Free wfree x s = Some ?t" using False by (simp add: Objects_Free_def)
    ultimately show ?thesis by blast
  next
    case True
    define u where "u = adjust_counts b 1 1 ?t"
    have u: "class_ok lo hi L u (xs @ [x])" unfolding u_def by (rule G(2) [OF True])
    have ub: "Objects_block_of ?t x = Objects_block_of s x" by (simp add: Objects_block_of_def)
    have f: "Objects_Free wfree x s = (if ucast (inactive u) > ?n + drop_bit 1 ?n then Objects_Shrink_information wfree u else Some u)"
      using True block_of [OF base p(1)] p(2) ub by (simp add: Objects_Free_def Let_def u_def adjust_counts_def)
    have su: "shrunk winv lo hi L s (xs @ [x]) L' s' xs'" if "shrunk winv lo hi L u (xs @ [x]) L' s' xs'" for L' s' xs'
      using that by (simp add: shrunk_def kept_def u_def adjust_counts_def)
    have wu: "winv (ws u) L" and au: "auto_extend u" using w True by (simp_all add: u_def adjust_counts_def)
    show ?thesis
    proof (cases "ucast (inactive u) > ?n + drop_bit 1 ?n")
      case True
      then show ?thesis using f Shrink_ok [OF u au wu] su by (metis (full_types))
    next
      case False
      then show ?thesis using f su shrunk_refl [where winv = winv, OF u wu] by (metis (full_types))
    qed
  qed
qed

end

section \<open>The first block of a class of fixed size\<close>

lemma request_fixed:
  assumes "\<not> auto_extend s" and "Objects_request walloc n s = Some (Returns (p, t))"
  shows "p \<noteq> 0" and "\<exists>w. t = s\<lparr>ws := w\<rparr>"
  using assms by (auto simp: Objects_request_def bind_result_def Workspace_Allocate_or_fatal_error_def split: option.splits if_splits outcome.splits)

lemma bind_ReturnsE:
  assumes "bind_result r f = Some (Returns y)"
  obtains x where "r = Some (Returns x)" "f x = Some (Returns y)"
  using assms by (auto simp: bind_result_def split: option.splits outcome.splits)

lemma Extend_fixed:
  assumes r: "class_base lo hi L s xs" and a: "\<not> auto_extend s" and n: "object_blocks s = []"
    and e: "Objects_Extend_information walloc wfree s = Some (Returns s')"
  shows "0 \<notin> set (object_blocks s')"
proof -
  note D = class_baseD [OF r]
  have lt: "\<not> 2 ^ 16 \<le> asz s" using unat_lt2p [of "allocation_size s"] by simp
  obtain z where E: "Objects_Extend_information walloc wfree s =
    bind_result (Objects_request walloc (ucast (allocation_size s) * object_size s) s) (\<lambda>(p, t).
        if p = 0 then Some (Returns t) else Extend_tables walloc wfree z 0 s p t)"
    using Extend_unfold [OF r, of walloc wfree] lt n by (auto cong: if_cong)
  obtain p t where p: "Objects_request walloc (ucast (allocation_size s) * object_size s) s = Some (Returns (p, t))"
    and x: "(if p = 0 then Some (Returns t) else Extend_tables walloc wfree z 0 s p t) = Some (Returns s')"
    using e unfolding E by (elim bind_ReturnsE) (auto simp only: split_paired_all prod.case)
  obtain w where t: "t = s\<lparr>ws := w\<rparr>" and pz: "p \<noteq> 0" using request_fixed [OF a p] by blast
  obtain addr u where q: "Objects_request walloc z t = Some (Returns (addr, u))"
    and y: "(if addr = 0 then Some (Returns (u\<lparr>ws := wfree p (ws u)\<rparr>))
       else let v = Objects_new_tables 1 (of_nat 0) (of_nat (Suc (asz s * 0))) (of_nat (Suc (asz s * 0)) + ucast (allocation_size s))
                      (of_nat (asz s * 0 + asz s)) addr u
            in Some (Returns (Objects_add_block (of_nat 0) (of_nat (Suc (asz s * 0))) (of_nat (Suc (asz s * 0)) + ucast (allocation_size s)) p
                 (v\<lparr>ws := wfree (tables u) (ws v)\<rparr>)))) = Some (Returns s')"
    using x pz unfolding Extend_tables_def if_not_P [OF pz] by (elim bind_ReturnsE) (auto simp only: split_paired_all prod.case)
  have "\<not> auto_extend t" using a t by simp
  then obtain w' where u: "u = t\<lparr>ws := w'\<rparr>" and az: "addr \<noteq> 0" using request_fixed [OF _ q] by blast
  have su: "sizes_ok lo hi u" "table_ok u xs" "asz u = asz s" "object_blocks u = []" "allocation_size u = allocation_size s"
    using D(2,7) n unfolding t u by (simp_all add: sizes_ok_def table_ok_def)
  have "Objects_new_tables 1 (of_nat 0) (of_nat (Suc (asz u * 0))) (of_nat (Suc (asz u * 0)) + ucast (allocation_size u)) (of_nat (asz u * 0 + asz u)) addr u = grow addr u"
    by (rule new_tables_grow [OF su(1,2)]) (use su(4) lt su(3) in simp_all)
  then have "s' = Objects_add_block (of_nat 0) (of_nat (Suc (asz s * 0))) (of_nat (Suc (asz s * 0)) + ucast (allocation_size s)) p
                 ((grow addr u)\<lparr>ws := wfree (tables u) (ws (grow addr u))\<rparr>)"
    using y az unfolding su(3,5) by (simp only: if_False Let_def option.inject outcome.inject)
  moreover have "object_blocks (grow addr u) = [0]" using su(4) by (simp add: grow_def)
  ultimately have "object_blocks s' = [p]"
    using add_block_frame [of "of_nat 0" "of_nat (Suc (asz s * 0))" "of_nat (Suc (asz s * 0)) + ucast (allocation_size s)" p
      "(grow addr u)\<lparr>ws := wfree (tables u) (ws (grow addr u))\<rparr>"] by (auto simp del: of_nat_Suc)
  then show ?thesis using pz by simp
qed

section \<open>Initialising a class\<close>

text \<open>Before the first block there are no objects.\<close>

lemma empty_class:
  assumes "areas_ok lo hi L" and "0 < asz s" and "24 \<le> osz s" and "osz s < 2 ^ 16" and "minimum_id s = id_of s 1"
    and "maximum s = 0" and "local_table s = [0]" and "tables s = 0" and "object_blocks s = []" and "inactive_per_block s = []" and "inactive s = 0"
    and "distinct (footprint (Inactive s) [])" and "0 \<notin> set (footprint (Inactive s) [])"
    and "\<forall>w\<in>set (footprint (Inactive s) []). unat w < lo \<or> hi \<le> unat w" and "nodes s = Chain_Initialize_empty (Inactive s) m"
  shows "class_ok lo hi L s []"
  using assms Chain_Initialize_empty_rep [OF assms(12,13)]
  by (simp add: class_ok_def class_base_def sizes_ok_def blocks_ok_def table_ok_def counts_ok_def present_def objs_def)

context workspace
begin

text \<open>The node of the chain control lies outside the workspace.\<close>

theorem Do_initialize_ok:
  assumes w: "winv (ws s) L" and mx: "Objects_Maximum_per_allocation mo \<noteq> 0" and osz: "24 \<le> sz"
    and ctl: "distinct (footprint (Inactive s) [])" "0 \<notin> set (footprint (Inactive s) [])"
      "\<forall>w\<in>set (footprint (Inactive s) []). unat w < lo \<or> hi \<le> unat w"
  shows "Objects_Do_initialize_information walloc wfree api cls mo sz nl s = Some (Fatal INTERNAL_ERROR_WORKSPACE_ALLOCATION) \<and> \<not> Objects_Is_unlimited mo
    \<or> (\<exists>L' s' xs. Objects_Do_initialize_information walloc wfree api cls mo sz nl s = Some (Returns s') \<and> winv (ws s') L' \<and> class_ok lo hi L' s' xs
        \<and> auto_extend s' = Objects_Is_unlimited mo \<and> allocation_size s' = Objects_Maximum_per_allocation mo
        \<and> (\<forall>i. Objects_Get i s' = 0) \<and> rest L' s' = L \<and> objs s' \<subseteq> set xs \<and> (auto_extend s' \<or> 0 \<notin> set (object_blocks s'))
        \<and> object_size s' = ucast sz \<and> the_api s' = api \<and> the_class s' = cls)"
proof -
  define t where "t = s\<lparr>the_api := api, the_class := cls, object_size := ucast sz, tables := 0, object_blocks := [], inactive_per_block := [],
      inactive := 0, maximum := 0, auto_extend := Objects_Is_unlimited mo, allocation_size := Objects_Maximum_per_allocation mo, local_table := [0],
      minimum_id := Objects_Build_id api cls (ucast Objects_Local_node) 1, name_length := ucast nl, nodes := Chain_Initialize_empty (Inactive s) (nodes s)\<rparr>"
  have e: "Objects_Do_initialize_information walloc wfree api cls mo sz nl s = Objects_Extend_information walloc wfree t"
    using mx by (simp add: Objects_Do_initialize_information_def Let_def t_def)
  have tf: "object_size t = ucast sz" "tables t = 0" "object_blocks t = []" "inactive_per_block t = []" "inactive t = 0" "maximum t = 0"
    "auto_extend t = Objects_Is_unlimited mo" "allocation_size t = Objects_Maximum_per_allocation mo" "local_table t = [0]" "Inactive t = Inactive s"
    "nodes t = Chain_Initialize_empty (Inactive s) (nodes s)" "minimum_id t = id_of t 1" "ws t = ws s" "the_api t = api" "the_class t = cls" by (simp_all add: t_def id_of_def)
  have "0 < unat (Objects_Maximum_per_allocation mo)" using mx by (simp add: unat_gt_0)
  moreover have "24 \<le> unat (ucast sz :: uint64)" "unat (ucast sz :: uint64) < 2 ^ 16"
    using osz unat_lt2p [of sz] by (simp_all add: unat_ucast_up word_le_nat_alt)
  ultimately have c: "class_ok lo hi L t []"
    using ctl by (intro empty_class [where m = "nodes s"]) (simp_all only: tf areas [OF w] not_False_eq_True)
  have "winv (ws t) L" using w by (simp add: tf)
  moreover have "length (object_blocks t) \<noteq> 1" by (simp add: tf)
  ultimately have x: "Objects_Extend_information walloc wfree t = Some (Fatal INTERNAL_ERROR_WORKSPACE_ALLOCATION) \<and> \<not> auto_extend t
    \<or> (\<exists>L' s' ys. Objects_Extend_information walloc wfree t = Some (Returns s') \<and> extended winv lo hi L t [] L' s' ys)" by (intro Extend_ok c)
  have g: "Objects_Get i t = 0" for i by (simp add: Objects_Get_def tf Let_def unat_eq_zero)
  have "rest L t = L" using no_null [OF w] by (auto simp: rest_def fun_eq_iff tf)
  moreover have "objs t = {}" by (simp add: objs_def present_def tf)
  moreover have "auto_extend t \<or> 0 \<notin> set (object_blocks s')" if "Objects_Extend_information walloc wfree t = Some (Returns s')" for s'
    using Extend_fixed [of lo hi L t "[]"] c that by (auto simp: class_ok_def tf)
  ultimately show ?thesis using x g unfolding e by (auto simp: extended_def kept_def tf)
qed

end

end
