(* ===== verification/Objects_Client.thy ===== *)
theory Objects_Client
  imports Objects_Alloc
begin

text \<open>
  What a manager of the API sees of a class of objects: a finite map from identifiers to open objects.
  Creating an object adds a fresh identifier with a fresh object, deleting one removes its identifier,
  and lookup reads the map.
\<close>

section \<open>The open objects\<close>

definition live :: "'w Objects_Information \<Rightarrow> Objects_Id \<Rightarrow> uintptr option" where
  "live s i = (let x = Objects_Get i s in if x = 0 then None else Some x)"

lemma live_kept: "kept s s' \<Longrightarrow> live s' = live s"
  by (simp add: kept_def live_def fun_eq_iff)

lemma live_SomeD:
  assumes "class_base lo hi L s xs" and "live s i = Some x"
  obtains b k where "present s b k" "i = id_of s (index_at s b k)" "x = obj_at s b k" "x \<notin> set xs" "x \<noteq> 0"
proof -
  have "Objects_Get i s \<noteq> 0" "x = Objects_Get i s" using assms(2) by (auto simp: live_def Let_def split: if_splits)
  then show thesis using that Objects_Get_nonzero [OF assms(1)] by metis
qed

lemma live_at:
  assumes r: "class_base lo hi L s xs" and p: "present s b k"
  shows "live s (id_of s (index_at s b k)) = (if local_table s ! index_at s b k = 0 then None else Some (obj_at s b k))"
proof -
  have bk: "b < length (object_blocks s)" "k < asz s" using p by (auto simp: present_def)
  note i = index_bounds [OF class_baseD(2) [OF r] bk]
  show ?thesis using Objects_Get_index [OF class_baseD(2) [OF r] i(1)] table_okD(2) [OF class_baseD(7) [OF r] bk] by (auto simp: live_def Let_def)
qed

lemma live_object_id:
  assumes "class_base lo hi L s xs" and "live s i = Some x"
  shows "object_id s x = i"
proof -
  obtain b k where "present s b k" "i = id_of s (index_at s b k)" "x = obj_at s b k" using live_SomeD [OF assms] by metis
  then show ?thesis using class_baseD(4) [OF assms(1)] by simp
qed

lemma live_inj: "class_base lo hi L s xs \<Longrightarrow> live s i = Some x \<Longrightarrow> live s j = Some x \<Longrightarrow> i = j"
  using live_object_id by metis

lemma live_objs: "class_base lo hi L s xs \<Longrightarrow> ran (live s) \<subseteq> objs s - set xs"
  by (auto simp: ran_def objs_def elim!: live_SomeD)

text \<open>An update of one entry of the table changes the map at one identifier.\<close>

lemma live_update:
  assumes r: "class_base lo hi L s xs" and r': "class_base lo hi L s' xs'" and p: "present s b k" and same: "minimum_id s' = minimum_id s"
    "maximum s' = maximum s" and t: "local_table s' = (local_table s)[index_at s b k := v]" and v: "v = 0 \<or> v = obj_at s b k"
  shows "live s' = (live s)(id_of s (index_at s b k) := (if v = 0 then None else Some v))"
proof
  fix i
  have bk: "b < length (object_blocks s)" "k < asz s" using p by (auto simp: present_def)
  note sz = class_baseD(2) [OF r] note ib = index_bounds [OF sz bk] and S = sizes_okD [OF sz]
  have off: "id_of s (index_at s b k) - minimum_id s + 1 = of_nat (index_at s b k)" unfolding S(3) by (rule id_of_offset [OF ib(2)])
  have u: "unat (of_nat (index_at s b k) :: uint32) = index_at s b k" using ib(2) by (intro unat_of_nat_32) simp
  have len: "index_at s b k < length (local_table s)" using ib(1) S(6) by simp
  have mx: "of_nat (index_at s b k) \<le> (ucast (maximum s) :: uint32)" using ib(1) u by (simp add: word_le_nat_alt unat_ucast_up)
  have G: "Objects_Get j s' = (if j - minimum_id s + 1 \<le> ucast (maximum s) then (local_table s)[index_at s b k := v] ! unat (j - minimum_id s + 1) else 0)" for j
    using same t by (simp add: Objects_Get_def Let_def)
  show "live s' i = ((live s)(id_of s (index_at s b k) := (if v = 0 then None else Some v))) i"
  proof (cases "i = id_of s (index_at s b k)")
    case True
    then show ?thesis using G [of i] mx len u unfolding live_def Let_def True off by simp
  next
    case False
    have "unat (i - minimum_id s + 1) \<noteq> index_at s b k"
    proof
      assume "unat (i - minimum_id s + 1) = index_at s b k"
      then have "i - minimum_id s + 1 = id_of s (index_at s b k) - minimum_id s + 1" unfolding off word_unat_eq_iff u .
      then show False using False by simp
    qed
    then have "Objects_Get i s' = Objects_Get i s" unfolding G by (simp add: Objects_Get_def Let_def)
    then show ?thesis using False by (simp add: live_def)
  qed
qed

section \<open>Opening and closing\<close>

lemma Open_live:
  fixes name :: uint32
  assumes r: "class_ok lo hi L s xs" and x: "idle s xs x"
  defines "s' \<equiv> Objects_Open_u32 x name s"
  shows "class_ok lo hi L s' xs" and "live s (object_id s x) = None" and "live s' = (live s)(object_id s x := Some x)"
    and "object_name s' = (object_name s)(x := name)" and "x \<notin> ran (live s)"
    and "objs s' = objs s" and "rest L s' = rest L s" and "ws s' = ws s" and "object_blocks s' = object_blocks s"
    and "auto_extend s' = auto_extend s" and "allocation_size s' = allocation_size s"
proof -
  have base: "class_base lo hi L s xs" using r by (simp add: class_ok_def)
  note D = class_baseD [OF base]
  obtain b k where p: "present s b k" and xo: "x = obj_at s b k" and z: "local_table s ! index_at s b k = 0" and n: "x \<notin> set xs"
    using x by (auto simp: idle_def)
  have oid: "object_id s x = id_of s (index_at s b k)" using D(4) [OF p] xo by simp
  have nz: "x \<noteq> 0" using obj_unat(6) [OF D(1,3) p] xo by (metis less_irrefl unsigned_0)
  note O = Objects_Open_ok [OF r p n [unfolded xo], of name, folded xo s'_def]
  show ok: "class_ok lo hi L s' xs" by (rule O(1))
  show none: "live s (object_id s x) = None" unfolding oid live_at [OF base p] using z by simp
  have b': "class_base lo hi L s' xs" using ok by (simp add: class_ok_def)
  have "local_table s' = (local_table s)[index_at s b k := x]" "minimum_id s' = minimum_id s" "maximum s' = maximum s" unfolding O(2) by simp_all
  from live_update [OF base b' p this(2,3,1)] show "live s' = (live s)(object_id s x := Some x)" using nz xo oid by simp
  show "x \<notin> ran (live s)" using live_object_id [OF base] none by (auto simp: ran_def)
  show "object_name s' = (object_name s)(x := name)" "objs s' = objs s" "rest L s' = rest L s" "ws s' = ws s" "object_blocks s' = object_blocks s"
    "auto_extend s' = auto_extend s" "allocation_size s' = allocation_size s" unfolding O(2) by (simp_all add: rest_def fun_eq_iff)
qed

lemma Close_live:
  assumes r: "class_ok lo hi L s xs" and l: "live s i = Some x"
  defines "s' \<equiv> Objects_Close x s"
  shows "class_ok lo hi L s' xs" and "live s' = (live s)(i := None)" and "idle s' xs x"
    and "object_name s' = (object_name s)(x := 0)" and "objs s' = objs s" and "rest L s' = rest L s" and "ws s' = ws s"
    and "object_blocks s' = object_blocks s" and "auto_extend s' = auto_extend s" and "allocation_size s' = allocation_size s"
proof -
  have base: "class_base lo hi L s xs" using r by (simp add: class_ok_def)
  obtain b k where p: "present s b k" and i: "i = id_of s (index_at s b k)" and xo: "x = obj_at s b k" and n: "x \<notin> set xs"
    using live_SomeD [OF base l] by metis
  note C = Objects_Close_ok [OF r p, folded xo s'_def]
  show ok: "class_ok lo hi L s' xs" by (rule C(1))
  have b': "class_base lo hi L s' xs" using ok by (simp add: class_ok_def)
  have t: "local_table s' = (local_table s)[index_at s b k := 0]" "minimum_id s' = minimum_id s" "maximum s' = maximum s" unfolding C(2) by simp_all
  from live_update [OF base b' p t(2,3,1)] show "live s' = (live s)(i := None)" using i by simp
  have "index_at s b k < length (local_table s)"
    using index_bounds(1) [OF class_baseD(2) [OF base], of b k] p sizes_okD(6) [OF class_baseD(2) [OF base]] by (simp add: present_def)
  moreover have "present s' b k" "x = obj_at s' b k" "index_at s' b k = index_at s b k" unfolding C(2) using p xo by simp_all
  ultimately show "idle s' xs x" unfolding idle_def using n t(1) by (metis nth_list_update_eq)
  show "object_name s' = (object_name s)(x := 0)" "objs s' = objs s" "rest L s' = rest L s" "ws s' = ws s" "object_blocks s' = object_blocks s"
    "auto_extend s' = auto_extend s" "allocation_size s' = allocation_size s" unfolding C(2) by (simp_all add: rest_def fun_eq_iff)
qed

section \<open>A class between the calls of its manager\<close>

text \<open>
  Every object is inactive or open. \<open>R\<close> are the areas of the other clients of the workspace; it stays
  the same. A class that extends itself has more than one object per block, see \<open>Extend_ok\<close>; a class of fixed
  size has all its objects.
\<close>

definition class_inv ::
    "('w \<Rightarrow> (uintptr \<Rightarrow> nat option) \<Rightarrow> bool) \<Rightarrow> nat \<Rightarrow> nat \<Rightarrow> (uintptr \<Rightarrow> nat option) \<Rightarrow> 'w Objects_Information \<Rightarrow> bool" where
  "class_inv winv lo hi R s \<longleftrightarrow> (\<exists>L xs. winv (ws s) L \<and> class_ok lo hi L s xs \<and> rest L s = R \<and> objs s \<subseteq> set xs \<union> ran (live s))
     \<and> (if auto_extend s then allocation_size s \<noteq> 1 else 0 \<notin> set (object_blocks s))"

text \<open>The configuration of the class, which stays the same.\<close>

definition same_class :: "'w Objects_Information \<Rightarrow> 'w Objects_Information \<Rightarrow> bool" where
  "same_class s s' \<longleftrightarrow> the_api s' = the_api s \<and> the_class s' = the_class s \<and> auto_extend s' = auto_extend s
     \<and> allocation_size s' = allocation_size s \<and> object_size s' = object_size s"

lemma same_class_trans: "same_class s t \<Longrightarrow> same_class t u \<Longrightarrow> same_class s u"
  and same_class_kept: "kept s s' \<Longrightarrow> same_class s s'"
  and same_class_Open [simp]: "same_class s (Objects_Open_u32 x name s)"
  and same_class_Close [simp]: "same_class s (Objects_Close x s)"
  by (simp_all add: same_class_def kept_def Objects_Open_u32_def Objects_Close_def Objects_Namespace_remove_def Objects_Invalidate_Id_def
      Objects_Set_local_object_def)

lemma class_invI:
  assumes "winv (ws s) L" and "class_ok lo hi L s xs" and "rest L s = R" and "objs s \<subseteq> set xs \<union> ran (live s)"
    and "if auto_extend s then allocation_size s \<noteq> 1 else 0 \<notin> set (object_blocks s)"
  shows "class_inv winv lo hi R s"
  using assms unfolding class_inv_def by blast

lemma class_invE:
  assumes "class_inv winv lo hi R s"
  obtains L xs where "winv (ws s) L" "class_ok lo hi L s xs" "class_base lo hi L s xs" "rest L s = R" "objs s \<subseteq> set xs \<union> ran (live s)"
    "if auto_extend s then allocation_size s \<noteq> 1 else 0 \<notin> set (object_blocks s)"
  using assms that unfolding class_inv_def by (auto simp: class_ok_def)

lemma class_inv_live:
  assumes "class_inv winv lo hi R s"
  shows "live s i = Some x \<Longrightarrow> object_id s x = i \<and> x \<noteq> 0" and "live s i = Some x \<Longrightarrow> live s j = Some x \<Longrightarrow> i = j"
  using assms by (auto elim!: class_invE simp: live_object_id live_inj dest: live_inj) (auto simp: live_def Let_def split: if_splits)

lemma class_inv_range:
  assumes c: "class_inv winv lo hi R s" and l: "live s i = Some x"
  shows "lo \<le> unat x" and "unat x + osz s \<le> hi" and "hi < 2 ^ 64"
proof -
  obtain L xs where r: "class_base lo hi L s xs" using c by (rule class_invE)
  obtain b k where p: "present s b k" and x: "x = obj_at s b k" using live_SomeD [OF r l] by metis
  note u = obj_unat [OF class_baseD(1,3) [OF r] p, folded x]
  show "lo \<le> unat x" by (rule u(2))
  show "unat x + osz s \<le> hi" using u(3,4) by linarith
  show "hi < 2 ^ 64" by (rule u(5))
qed

lemma Allocate_fixed:
  assumes "\<not> auto_extend s" and "Objects_Allocate_unprotected walloc wfree s = Some (Returns (x, s'))"
  shows "object_blocks s' = object_blocks s"
  using assms by (auto simp: Objects_Allocate_unprotected_def Objects_Get_inactive_def Let_def split: if_splits prod.splits)

lemma Free_fixed:
  assumes "\<not> auto_extend s" and "Objects_Free wfree x s = Some s'"
  shows "object_blocks s' = object_blocks s"
  using assms by (auto simp: Objects_Free_def Let_def)

context workspace
begin

theorem create_object:
  assumes i: "class_inv winv lo hi R s"
  obtains (full) s' where "Objects_Allocate_unprotected walloc wfree s = Some (Returns (0, s'))" "class_inv winv lo hi R s'"
      "live s' = live s" "object_name s' = object_name s" "objs s \<subseteq> ran (live s)" "same_class s s'"
  | (made) x s' where "x \<noteq> 0" "Objects_Allocate_unprotected walloc wfree s = Some (Returns (x, s'))" "live s' = live s"
      "object_name s' = object_name s" "live s (object_id s' x) = None" "x \<notin> ran (live s)"
      "same_class s s'" "\<And>name. class_inv winv lo hi R (Objects_Open_u32 x name s')"
      "\<And>name. live (Objects_Open_u32 x name s') = (live s)(object_id s' x := Some x)"
      "\<And>name. object_name (Objects_Open_u32 x name s') = (object_name s)(x := name)"
proof -
  from i obtain L xs where w: "winv (ws s) L" and r: "class_ok lo hi L s xs" and R: "rest L s = R" and c: "objs s \<subseteq> set xs \<union> ran (live s)"
    and f: "if auto_extend s then allocation_size s \<noteq> 1 else 0 \<notin> set (object_blocks s)" by (rule class_invE)
  obtain x L' s' xs' where e: "Objects_Allocate_unprotected walloc wfree s = Some (Returns (x, s'))" and a: "allocated winv lo hi L s xs x L' s' xs'"
    using Allocate_ok [OF r w] f by (metis (full_types))
  have A: "winv (ws s') L'" "class_ok lo hi L' s' xs'" "kept s s'" "rest L' s' = rest L s"
    "if x = 0 then xs = [] else idle s' xs' x" "set xs \<subseteq> insert x (set xs')" "objs s' \<subseteq> objs s \<union> insert x (set xs')"
    using a by (auto simp: allocated_def)
  have l: "live s' = live s" by (rule live_kept [OF A(3)])
  have f': "if auto_extend s' then allocation_size s' \<noteq> 1 else 0 \<notin> set (object_blocks s')"
    using f A(3) Allocate_fixed [OF _ e] by (simp add: kept_def)
  have base: "class_base lo hi L' s' xs'" using A(2) by (simp add: class_ok_def)
  have nz: "0 \<notin> objs s'" using obj_unat(6) [OF class_baseD(1,3) [OF base]] by (auto simp: objs_def) (metis less_irrefl unsigned_0)
  show thesis
  proof (cases "x = 0")
    case True
    have "objs s' \<subseteq> set xs' \<union> ran (live s')" unfolding l using A(6,7) c True A(5) nz by auto
    then have "class_inv winv lo hi R s'" using A(1,2,4) R f' by (intro class_invI) auto
    then show thesis using full [of s'] e True l A(3,5) c same_class_kept [OF A(3)] by (simp add: kept_def)
  next
    case False
    then have id: "idle s' xs' x" using A(5) by simp
    note O = Open_live [OF A(2) id]
    have "class_inv winv lo hi R (Objects_Open_u32 x name s')" for name
    proof (rule class_invI)
      show "winv (ws (Objects_Open_u32 x name s')) L'" "class_ok lo hi L' (Objects_Open_u32 x name s') xs'"
        "rest L' (Objects_Open_u32 x name s') = R" using O(1,7,8) A(1,4) R by simp_all
      have "ran (live (Objects_Open_u32 x name s')) = insert x (ran (live s))" unfolding O(3) l using O(2) [unfolded l] by simp
      then show "objs (Objects_Open_u32 x name s') \<subseteq> set xs' \<union> ran (live (Objects_Open_u32 x name s'))"
        unfolding O(6) using A(6,7) c by auto
      show "if auto_extend (Objects_Open_u32 x name s') then allocation_size (Objects_Open_u32 x name s') \<noteq> 1
        else 0 \<notin> set (object_blocks (Objects_Open_u32 x name s'))" using f' O(9-11) by simp
    qed
    then show thesis using made [of x s'] False e l O(2-5) A(3) same_class_kept [OF A(3)] by (simp add: kept_def)
  qed
qed

theorem delete_object:
  assumes i: "class_inv winv lo hi R s" and x: "live s i = Some x"
  obtains s' where "Objects_Free wfree x (Objects_Close x s) = Some s'" "class_inv winv lo hi R s'" "live s' = (live s)(i := None)"
    "object_name s' = (object_name s)(x := 0)" "same_class s s'"
proof -
  from i obtain L xs where w: "winv (ws s) L" and r: "class_ok lo hi L s xs" and base: "class_base lo hi L s xs" and R: "rest L s = R"
    and c: "objs s \<subseteq> set xs \<union> ran (live s)" and f: "if auto_extend s then allocation_size s \<noteq> 1 else 0 \<notin> set (object_blocks s)" by (rule class_invE)
  note C = Close_live [OF r x]
  obtain L' s' xs' where e: "Objects_Free wfree x (Objects_Close x s) = Some s'" and a: "shrunk winv lo hi L (Objects_Close x s) (xs @ [x]) L' s' xs'"
    using Free_ok [OF C(1) _ C(3)] w C(7) by auto
  have A: "winv (ws s') L'" "class_ok lo hi L' s' xs'" "kept (Objects_Close x s) s'" "rest L' s' = rest L s" "objs s' \<subseteq> objs s"
    "objs s' \<inter> insert x (set xs) \<subseteq> set xs'"
    using a C(5,6) by (auto simp: shrunk_def)
  have l: "live s' = (live s)(i := None)" using live_kept [OF A(3)] C(2) by simp
  have "ran (live s) \<subseteq> insert x (ran (live s'))" unfolding l using x by (auto simp: ran_def) (metis option.inject)
  then have "objs s' \<subseteq> set xs' \<union> ran (live s')" using A(5,6) c by blast
  moreover have "if auto_extend s' then allocation_size s' \<noteq> 1 else 0 \<notin> set (object_blocks s')"
    using f A(3) C(8-10) Free_fixed [OF _ e] by (simp add: kept_def)
  ultimately have "class_inv winv lo hi R s'" using A(1,2,4) R by (intro class_invI) auto
  moreover have "same_class s s'" using same_class_trans [OF same_class_Close same_class_kept [OF A(3)]] .
  ultimately show thesis using that [of s'] e l A(3) C(4) by (simp add: kept_def)
qed

end

section \<open>A new class\<close>

context workspace
begin

theorem init_class:
  assumes w: "winv (ws s) L" and mx: "Objects_Maximum_per_allocation mo \<noteq> 0" and osz: "24 \<le> sz"
    and ctl: "distinct (footprint (Inactive s) [])" "0 \<notin> set (footprint (Inactive s) [])"
      "\<forall>w\<in>set (footprint (Inactive s) []). unat w < lo \<or> hi \<le> unat w"
    and one: "Objects_Is_unlimited mo \<Longrightarrow> Objects_Maximum_per_allocation mo \<noteq> 1"
  shows "Objects_Do_initialize_information walloc wfree api cls mo sz nl s = Some (Fatal INTERNAL_ERROR_WORKSPACE_ALLOCATION) \<and> \<not> Objects_Is_unlimited mo
    \<or> (\<exists>s'. Objects_Do_initialize_information walloc wfree api cls mo sz nl s = Some (Returns s') \<and> class_inv winv lo hi L s' \<and> live s' = (\<lambda>_. None)
        \<and> object_size s' = ucast sz \<and> the_api s' = api \<and> the_class s' = cls)"
proof -
  have "class_inv winv lo hi L s' \<and> live s' = (\<lambda>_. None)"
    if "winv (ws s') L'" "class_ok lo hi L' s' xs" "auto_extend s' = Objects_Is_unlimited mo" "allocation_size s' = Objects_Maximum_per_allocation mo"
      "\<forall>i. Objects_Get i s' = 0" "rest L' s' = L" "objs s' \<subseteq> set xs" "auto_extend s' \<or> 0 \<notin> set (object_blocks s')" for L' s' xs
    using that one by (intro conjI class_invI [of winv s' L' lo hi xs]) (auto simp: live_def fun_eq_iff)
  then show ?thesis using Do_initialize_ok [OF w mx osz ctl, of api cls nl] by blast
qed

end

section \<open>Counting\<close>

lemma card_objs:
  assumes "class_base lo hi L s xs"
  shows "card (objs s) = asz s * length (filter (\<lambda>b. b \<noteq> 0) (object_blocks s))" and "finite (objs s)"
proof -
  note D = class_baseD [OF assms]
  let ?B = "{b. b < length (object_blocks s) \<and> object_blocks s ! b \<noteq> 0}"
  have o: "objs s = (\<lambda>(b, k). obj_at s b k) ` (?B \<times> {..<asz s})" by (auto simp: objs_def present_def image_iff)
  have "inj_on (\<lambda>(b, k). obj_at s b k) (?B \<times> {..<asz s})"
  proof (rule inj_onI, clarify)
    fix b k c j assume "b < length (object_blocks s)" "object_blocks s ! b \<noteq> 0" "k < asz s" "c < length (object_blocks s)" "object_blocks s ! c \<noteq> 0"
      "j < asz s" "obj_at s b k = obj_at s c j"
    then show "b = c \<and> k = j" by (intro obj_inj [OF D(1,3) sizes_okD(2) [OF D(2)]]) (simp_all add: present_def)
  qed
  then have "card (objs s) = card ?B * asz s" unfolding o by (simp add: card_image card_cartesian_product)
  then show "card (objs s) = asz s * length (filter (\<lambda>b. b \<noteq> 0) (object_blocks s))" by (simp add: length_filter_conv_card mult.commute)
  show "finite (objs s)" unfolding o by simp
qed

lemma card_live:
  assumes "class_base lo hi L s xs" and "objs s \<subseteq> set xs \<union> ran (live s)"
  shows "card (dom (live s)) + length xs = asz s * length (filter (\<lambda>b. b \<noteq> 0) (object_blocks s))"
proof -
  have o: "objs s = set xs \<union> ran (live s)" "set xs \<inter> ran (live s) = {}"
    using assms(2) live_objs [OF assms(1)] class_baseD(6) [OF assms(1)] by auto
  have fin: "finite (ran (live s))" using card_objs(2) [OF assms(1)] o by (metis finite_Un)
  have "inj_on (\<lambda>i. the (live s i)) (dom (live s))" using live_inj [OF assms(1)] by (auto simp: inj_on_def)
  moreover have "ran (live s) = (\<lambda>i. the (live s i)) ` dom (live s)" by (auto simp: ran_def dom_def image_iff) force
  ultimately have "card (ran (live s)) = card (dom (live s))" by (simp add: card_image)
  moreover have "card (objs s) = card (set xs) + card (ran (live s))" unfolding o(1) using fin o(2) by (simp add: card_Un_disjoint)
  ultimately show ?thesis using card_objs(1) [OF assms(1)] class_distinct [OF assms(1)] by (simp add: distinct_card)
qed

lemma Active_count_live:
  assumes "class_inv winv lo hi R s"
  shows "Objects_Active_count s = Some (of_nat (card (dom (live s)) + asz s * length (filter (\<lambda>b. b = 0) (object_blocks s))))"
proof -
  obtain L xs where b: "class_base lo hi L s xs" and o: "objs s \<subseteq> set xs \<union> ran (live s)" using assms by (rule class_invE)
  note D = class_baseD [OF b] note S = sizes_okD [OF D(2)]
  have "unat (maximum s) = asz s * length (filter (\<lambda>b. b \<noteq> 0) (object_blocks s)) + asz s * length (filter (\<lambda>b. b = 0) (object_blocks s))"
    unfolding S(5) using sum_length_filter_compl [of "\<lambda>b. b \<noteq> 0" "object_blocks s"] by (simp flip: distrib_left)
  then have m: "unat (maximum s) = card (dom (live s)) + asz s * length (filter (\<lambda>b. b = 0) (object_blocks s)) + length xs"
    using card_live [OF b o] by linarith
  have "(ucast (maximum s) :: uint64) = of_nat (unat (maximum s))" by (simp add: of_nat_unat)
  then have "(ucast (maximum s) :: uint64) - of_nat (length xs) = of_nat (card (dom (live s)) + asz s * length (filter (\<lambda>b. b = 0) (object_blocks s)))"
    unfolding m by (simp del: of_nat_mult)
  moreover have "(ucast (of_nat n :: uint64) :: uint16) = of_nat n" for n
    by (rule word_unat_eq_iff [THEN iffD2]) (simp add: unsigned_ucast_eq unsigned_of_nat)
  ultimately show ?thesis unfolding Objects_Active_count_def Chain_Node_count_rep [OF D(5)] by (simp del: of_nat_add of_nat_mult)
qed

lemma fixed_capacity:
  assumes "class_inv winv lo hi R s" and "\<not> auto_extend s"
  shows "card (dom (live s)) \<le> unat (maximum s)" and "objs s \<subseteq> ran (live s) \<longleftrightarrow> card (dom (live s)) = unat (maximum s)"
proof -
  obtain L xs where b: "class_base lo hi L s xs" and o: "objs s \<subseteq> set xs \<union> ran (live s)"
    and z: "if auto_extend s then allocation_size s \<noteq> 1 else 0 \<notin> set (object_blocks s)" using assms(1) by (rule class_invE)
  have "filter (\<lambda>b. b \<noteq> 0) (object_blocks s) = object_blocks s" using z assms(2) by (auto simp: filter_id_conv)
  then have c: "card (dom (live s)) + length xs = unat (maximum s)" using card_live [OF b o] sizes_okD(5) [OF class_baseD(2) [OF b]] by simp
  then show "card (dom (live s)) \<le> unat (maximum s)" by simp
  have "objs s \<subseteq> ran (live s) \<longleftrightarrow> xs = []" using o live_objs [OF b] class_baseD(6) [OF b] by (cases xs) auto
  then show "objs s \<subseteq> ran (live s) \<longleftrightarrow> card (dom (live s)) = unat (maximum s)" using c by (cases xs) auto
qed

section \<open>Names\<close>

lemma Name_search_find:
  "Objects_Name_search name names ids tab = map_option ids (find (\<lambda>x. x \<noteq> 0 \<and> names x = name) tab)"
  by (induction tab) auto

lemma live_index:
  assumes r: "class_base lo hi L s xs" and n: "n < unat (maximum s)" and x: "local_table s ! Suc n \<noteq> 0"
  shows "live s (id_of s (Suc n)) = Some (local_table s ! Suc n)" and "object_id s (local_table s ! Suc n) = id_of s (Suc n)"
proof -
  note D = class_baseD [OF r]
  obtain b k where bk: "b < length (object_blocks s)" "k < asz s" "Suc n = index_at s b k" using index_cases [OF D(2), of "Suc n"] n by auto
  then have p: "present s b k" and o: "local_table s ! Suc n = obj_at s b k" using table_okD(2) [OF D(7) bk(1,2)] x by auto
  show l: "live s (id_of s (Suc n)) = Some (local_table s ! Suc n)" using live_at [OF r p] x o unfolding bk(3) by simp
  show "object_id s (local_table s ! Suc n) = id_of s (Suc n)" by (rule live_object_id [OF r l])
qed

lemma live_at_index:
  assumes r: "class_base lo hi L s xs" and l: "live s i = Some x"
  obtains n where "n < unat (maximum s)" "i = id_of s (Suc n)" "local_table s ! Suc n = x" "x \<noteq> 0" "unat (Objects_Get_index i) = Suc n"
proof -
  obtain b k where p: "present s b k" and i: "i = id_of s (index_at s b k)" and x: "x = obj_at s b k" and nz: "x \<noteq> 0"
    using live_SomeD [OF r l] by metis
  have bk: "b < length (object_blocks s)" "k < asz s" using p by (auto simp: present_def)
  note ib = index_bounds [OF class_baseD(2) [OF r] bk]
  have "local_table s ! index_at s b k = x" using l live_at [OF r p] i table_okD(2) [OF class_baseD(7) [OF r] bk] x by (auto split: if_splits)
  then show thesis using that [of "b * asz s + k"] ib Get_index_id_of [OF ib(2), of s] i nz by (simp add: index_at_def)
qed

lemma Name_to_id_live:
  assumes c: "class_inv winv lo hi R s" and n: "name \<noteq> 0"
  shows "case Objects_Name_to_id_u32 name 0 True s of
      (OBJECTS_NAME_OR_ID_LOOKUP_SUCCESSFUL, Some i) \<Rightarrow> (\<exists>x. live s i = Some x \<and> object_name s x = name)
        \<and> (\<forall>j x. live s j = Some x \<and> object_name s x = name \<longrightarrow> Objects_Get_index i \<le> Objects_Get_index j)
    | (e, None) \<Rightarrow> e = OBJECTS_INVALID_NAME \<and> (\<forall>j x. live s j = Some x \<longrightarrow> object_name s x \<noteq> name)
    | _ \<Rightarrow> False"
proof -
  obtain L xs where r: "class_base lo hi L s xs" using c by (rule class_invE)
  note S = sizes_okD [OF class_baseD(2) [OF r]]
  let ?tab = "take (unat (maximum s)) (drop 1 (local_table s))" and ?P = "\<lambda>x. x \<noteq> 0 \<and> object_name s x = name"
  have at: "?tab ! m = local_table s ! Suc m" if "m < unat (maximum s)" for m using that S(6) by simp
  have len: "length ?tab = unat (maximum s)" using S(6) by simp
  have e: "Objects_Name_to_id_u32 name 0 True s = (case find ?P ?tab of Some x \<Rightarrow> (OBJECTS_NAME_OR_ID_LOOKUP_SUCCESSFUL, Some (object_id s x))
     | None \<Rightarrow> (OBJECTS_INVALID_NAME, None))"
    using n by (cases "maximum s = 0") (auto simp: Objects_Name_to_id_u32_def Let_def Name_search_find split: option.split)
  show ?thesis
  proof (cases "find ?P ?tab")
    case None
    then have no: "\<not> ?P (?tab ! m)" if "m < unat (maximum s)" for m using that len unfolding find_None_iff in_set_conv_nth by metis
    have "object_name s x \<noteq> name" if "live s j = Some x" for j x
      using live_at_index [OF r that] no at by metis
    then show ?thesis unfolding e None by simp
  next
    case (Some x)
    then obtain m where m: "m < unat (maximum s)" "?P (?tab ! m)" "x = ?tab ! m" "\<And>j. j < m \<Longrightarrow> \<not> ?P (?tab ! j)"
      unfolding find_Some_iff len by auto
    have x: "x = local_table s ! Suc m" "x \<noteq> 0" "object_name s x = name" using m at by auto
    note li = live_index [OF r m(1) x(2) [unfolded x(1)], folded x(1)]
    have "unat (Objects_Get_index (object_id s x)) = Suc m" unfolding li(2) using Get_index_id_of [of "Suc m" s] m(1) S(7) by simp
    then have "Objects_Get_index (object_id s x) \<le> Objects_Get_index j" if l: "live s j = Some y" and nm: "object_name s y = name" for j y
    proof -
      obtain q where q: "q < unat (maximum s)" "local_table s ! Suc q = y" "y \<noteq> 0" "unat (Objects_Get_index j) = Suc q"
        using live_at_index [OF r l] by metis
      then have "\<not> q < m" using m(4) [of q] at nm by metis
      then show ?thesis using q(4) \<open>unat (Objects_Get_index (object_id s x)) = Suc m\<close> by (simp add: word_le_nat_alt)
    qed
    then show ?thesis unfolding e Some using li x(3) by auto
  qed
qed

section \<open>A class over a new heap\<close>

text \<open>
  The heap is set up over \<open>n\<close> bytes at \<open>b\<close>, which hold neither its free list head nor the chain control
  \<open>ctl\<close> of the class. A class without limit has more than one object per block.
\<close>

definition boot_ok :: "Heap_Control \<Rightarrow> uintptr \<Rightarrow> uintptr \<Rightarrow> uintptr \<Rightarrow> uintptr \<Rightarrow> uint32 \<Rightarrow> uint16 \<Rightarrow> bool" where
  "boot_ok h b n pg ctl mo sz \<longleftrightarrow>
     (unat (free_list h) + 32 \<le> unat b \<or> unat b + unat n \<le> unat (free_list h))
     \<and> unat pg \<le> 2 ^ 62 \<and> unat b + unat pg + 24 \<le> 2 ^ 64 \<and> unat b + unat n < 2 ^ 64
     \<and> ctl \<noteq> 0 \<and> unat ctl + 24 < 2 ^ 64 \<and> (unat ctl + 24 \<le> unat b \<or> unat b + unat n \<le> unat ctl)
     \<and> 24 \<le> sz \<and> Objects_Maximum_per_allocation mo \<noteq> 0
     \<and> (Objects_Is_unlimited mo \<longrightarrow> Objects_Maximum_per_allocation mo \<noteq> 1)"

lemma control_words:
  assumes "ctl \<noteq> 0" and "unat ctl + 24 < 2 ^ 64" and "unat ctl + 24 \<le> lo \<or> hi \<le> unat ctl"
  shows "distinct (footprint ctl [])" and "0 \<notin> set (footprint ctl [])" and "\<forall>w\<in>set (footprint ctl []). unat w < lo \<or> hi \<le> unat w"
proof -
  have u: "unat (ctl + 8) = unat ctl + 8" "unat (ctl + 16) = unat ctl + 16" using assms(2) by (simp_all add: unat_plus_no_wrap)
  have p: "0 < unat ctl" using assms(1) by (simp add: unat_gt_0)
  show "distinct (footprint ctl [])" by (simp add: footprint_def)
  have "0 < unat (ctl + 8)" "0 < unat (ctl + 16)" unfolding u using p by simp_all
  then show "0 \<notin> set (footprint ctl [])" using assms(1) by (simp add: footprint_def) (metis less_irrefl unsigned_0)
  show "\<forall>w\<in>set (footprint ctl []). unat w < lo \<or> hi \<le> unat w" using u assms(3) by (auto simp: footprint_def)
qed

lemma ws_inv_init:
  assumes "unat (free_list h) + 32 \<le> unat b \<or> unat b + unat n \<le> unat (free_list h)" and "unat pg \<le> 2 ^ 62" "unat b + unat pg + 24 \<le> 2 ^ 64"
    and "unat b + unat n < 2 ^ 64" and "Heap_Initialize h b n pg m = (r, w)" "r \<noteq> 0"
  obtains a S where "ws_inv a S w (\<lambda>_. None)" "unat b \<le> a" "a + S + 16 \<le> unat b + unat n"
proof -
  obtain a S where s: "heap_rep (fst w) (snd w) a [(S, False)] [W a]" "unat b \<le> a" "a + S + 16 \<le> unat b + unat n"
    using Heap_Initialize_rep [OF assms(1-3), of m] assms(5,6) by (cases w) auto
  have "ws_inv a S w (\<lambda>_. None)" unfolding ws_inv_def using s assms(4) by (auto intro!: exI [of _ "[(S, False)]"] exI [of _ "[W a]"])
  then show thesis using that s by blast
qed

theorem class_boot:
  assumes ok: "boot_ok h b n pg (Inactive s) mo sz" and h: "Heap_Initialize h b n pg m = (r, ws s)" "r \<noteq> 0"
  shows "Objects_Do_initialize_information Workspace_Allocate Workspace_Free api cls mo sz nl s = Some (Fatal INTERNAL_ERROR_WORKSPACE_ALLOCATION)
      \<and> \<not> Objects_Is_unlimited mo
    \<or> (\<exists>a S s'. Objects_Do_initialize_information Workspace_Allocate Workspace_Free api cls mo sz nl s = Some (Returns s')
        \<and> unat b \<le> a \<and> a + S + 16 \<le> unat b + unat n
        \<and> class_inv (ws_inv a S) a (a + S + 8) (\<lambda>_. None) s' \<and> live s' = (\<lambda>_. None)
        \<and> object_size s' = ucast sz \<and> the_api s' = api \<and> the_class s' = cls)"
proof -
  obtain a S where w: "ws_inv a S (ws s) (\<lambda>_. None)" and a: "unat b \<le> a" "a + S + 16 \<le> unat b + unat n"
    by (rule ws_inv_init [OF _ _ _ _ h]) (use ok in \<open>auto simp: boot_ok_def\<close>)
  have c: "Inactive s \<noteq> 0" "unat (Inactive s) + 24 < 2 ^ 64" "unat (Inactive s) + 24 \<le> a \<or> a + S + 8 \<le> unat (Inactive s)"
    using ok a by (auto simp: boot_ok_def)
  have m: "Objects_Maximum_per_allocation mo \<noteq> 0" "24 \<le> sz" "Objects_Is_unlimited mo \<Longrightarrow> Objects_Maximum_per_allocation mo \<noteq> 1"
    using ok by (auto simp: boot_ok_def)
  show ?thesis using heap_workspace.init_class [OF w m(1,2) control_words [OF c] m(3)] a by blast
qed

end
