(* ===== verification/Ports.thy ===== *)
theory Ports
  imports Objects_Client Heap_Props Status
begin

text \<open>
  The Dual Ported Memory Manager of the Classic API, \<^verbatim>\<open>rtems/src/dpmem*.c\<close>: ports that translate addresses
  between the internal and the external view of a memory. A port is an object of a class of the Object
  Handler; the directives refine a map from identifiers to ports.
\<close>

section \<open>What the managers of the Classic API share\<close>

definition rtems_is_name_valid :: "uint32 \<Rightarrow> bool" where
  "rtems_is_name_valid name \<longleftrightarrow> name \<noteq> 0"

primrec Status_Object_name_errors_to_status :: "Objects_Name_or_id_lookup_errors \<Rightarrow> rtems_status_code" where
  "Status_Object_name_errors_to_status OBJECTS_NAME_OR_ID_LOOKUP_SUCCESSFUL = RTEMS_SUCCESSFUL"
| "Status_Object_name_errors_to_status OBJECTS_INVALID_NAME = RTEMS_INVALID_NAME"
| "Status_Object_name_errors_to_status OBJECTS_INVALID_ADDRESS = RTEMS_INVALID_ADDRESS"
| "Status_Object_name_errors_to_status OBJECTS_INVALID_ID = RTEMS_INVALID_ID"
| "Status_Object_name_errors_to_status OBJECTS_INVALID_NODE = RTEMS_INVALID_NODE"

definition Addresses_Add_offset :: "uintptr \<Rightarrow> uintptr \<Rightarrow> uintptr" where
  "Addresses_Add_offset base offset = base + offset"

text \<open>The difference is converted to 32 bits.\<close>

definition Addresses_Subtract :: "uintptr \<Rightarrow> uintptr \<Rightarrow> uint32" where
  "Addresses_Subtract left right = ucast (left - right)"

definition Addresses_Is_aligned :: "uintptr \<Rightarrow> bool" where
  "Addresses_Is_aligned address \<longleftrightarrow> address mod 8 = 0"

definition Addresses_Is_in_range :: "uintptr \<Rightarrow> uintptr \<Rightarrow> uintptr \<Rightarrow> bool" where
  "Addresses_Is_in_range address base limit \<longleftrightarrow> address \<ge> base \<and> address \<le> limit"

section \<open>Directives\<close>

record Dual_ported_memory_Control =
  internal_base :: uintptr
  external_base :: uintptr
  port_length :: uint32

text \<open>The information of the class and the control blocks by address. A directive gives its status and what it stores through its pointer.\<close>

record 'w port_manager =
  Dual_ported_memory_Information :: "'w Objects_Information"
  ports :: "uintptr \<Rightarrow> Dual_ported_memory_Control"

definition rtems_port_create ::
    "'w allocate_fun \<Rightarrow> (uintptr \<Rightarrow> 'w \<Rightarrow> 'w) \<Rightarrow> uint32 \<Rightarrow> uintptr \<Rightarrow> uintptr \<Rightarrow> uint32 \<Rightarrow> bool \<Rightarrow> 'w port_manager
     \<Rightarrow> (rtems_status_code \<times> Objects_Id option \<times> 'w port_manager) result" where
  "rtems_port_create walloc wfree name internal_start external_start len id_p st =
     (if \<not> rtems_is_name_valid name then Some (Returns (RTEMS_INVALID_NAME, None, st))
      else if \<not> id_p then Some (Returns (RTEMS_INVALID_ADDRESS, None, st))
      else if \<not> Addresses_Is_aligned internal_start \<or> \<not> Addresses_Is_aligned external_start
      then Some (Returns (RTEMS_INVALID_ADDRESS, None, st))
      else bind_result (Objects_Allocate_unprotected walloc wfree (Dual_ported_memory_Information st)) (\<lambda>(the_port, info).
        if the_port = 0 then Some (Returns (RTEMS_TOO_MANY, None, st\<lparr>Dual_ported_memory_Information := info\<rparr>))
        else let control = \<lparr>internal_base = internal_start, external_base = external_start, port_length = len - 1\<rparr>;
                 info = Objects_Open_u32 the_port name info
             in Some (Returns (RTEMS_SUCCESSFUL, Some (object_id info the_port),
                  st\<lparr>Dual_ported_memory_Information := info, ports := (ports st)(the_port := control)\<rparr>))))"

definition rtems_port_delete ::
    "(uintptr \<Rightarrow> 'w \<Rightarrow> 'w) \<Rightarrow> Objects_Id \<Rightarrow> 'w port_manager \<Rightarrow> (rtems_status_code \<times> 'w port_manager) option" where
  "rtems_port_delete wfree i st =
     (let the_port = Objects_Get i (Dual_ported_memory_Information st)
      in if the_port = 0 then Some (RTEMS_INVALID_ID, st)
         else map_option (\<lambda>info. (RTEMS_SUCCESSFUL, st\<lparr>Dual_ported_memory_Information := info\<rparr>))
                (Objects_Free wfree the_port (Objects_Close the_port (Dual_ported_memory_Information st))))"

definition rtems_port_ident :: "uint32 \<Rightarrow> bool \<Rightarrow> 'w port_manager \<Rightarrow> rtems_status_code \<times> Objects_Id option" where
  "rtems_port_ident name id_p st =
     (let (status, i) = Objects_Name_to_id_u32 name 0 id_p (Dual_ported_memory_Information st)
      in (Status_Object_name_errors_to_status status, i))"

definition rtems_port_external_to_internal :: "Objects_Id \<Rightarrow> uintptr \<Rightarrow> bool \<Rightarrow> 'w port_manager \<Rightarrow> rtems_status_code \<times> uintptr option" where
  "rtems_port_external_to_internal i external internal_p st =
     (if \<not> internal_p then (RTEMS_INVALID_ADDRESS, None)
      else let the_port = Objects_Get i (Dual_ported_memory_Information st)
           in if the_port = 0 then (RTEMS_INVALID_ID, None)
              else let c = ports st the_port; ending = Addresses_Subtract external (external_base c)
                   in (RTEMS_SUCCESSFUL,
                       Some (if ending > port_length c then external else Addresses_Add_offset (internal_base c) (ucast ending))))"

definition rtems_port_internal_to_external :: "Objects_Id \<Rightarrow> uintptr \<Rightarrow> bool \<Rightarrow> 'w port_manager \<Rightarrow> rtems_status_code \<times> uintptr option" where
  "rtems_port_internal_to_external i internal external_p st =
     (if \<not> external_p then (RTEMS_INVALID_ADDRESS, None)
      else let the_port = Objects_Get i (Dual_ported_memory_Information st)
           in if the_port = 0 then (RTEMS_INVALID_ID, None)
              else let c = ports st the_port; ending = Addresses_Subtract internal (internal_base c)
                   in (RTEMS_SUCCESSFUL,
                       Some (if ending > port_length c then internal else Addresses_Add_offset (external_base c) (ucast ending))))"

text \<open>The control block has 56 bytes; \<open>maximum_ports\<close> is the configured number.\<close>

definition Dual_ported_memory_Manager_initialization ::
    "'w allocate_fun \<Rightarrow> (uintptr \<Rightarrow> 'w \<Rightarrow> 'w) \<Rightarrow> uint32 \<Rightarrow> 'w port_manager \<Rightarrow> 'w port_manager result" where
  "Dual_ported_memory_Manager_initialization walloc wfree maximum_ports st =
     bind_result (Objects_Do_initialize_information walloc wfree 2 7 maximum_ports 56 4 (Dual_ported_memory_Information st))
       (\<lambda>info. Some (Returns (st\<lparr>Dual_ported_memory_Information := info\<rparr>)))"

section \<open>Sequences of directives\<close>

datatype port_call =
    Port_create uint32 uintptr uintptr uint32 bool
  | Port_delete Objects_Id
  | Port_ident uint32 bool
  | Port_to_internal Objects_Id uintptr bool
  | Port_to_external Objects_Id uintptr bool

datatype port_reply = Port_id rtems_status_code "Objects_Id option" | Port_address rtems_status_code "uintptr option"

definition port_call :: "'w allocate_fun \<Rightarrow> (uintptr \<Rightarrow> 'w \<Rightarrow> 'w) \<Rightarrow> port_call \<Rightarrow> 'w port_manager \<Rightarrow> (port_reply \<times> 'w port_manager) result" where
  "port_call walloc wfree c st = (case c of
     Port_create name a b n p \<Rightarrow>
       bind_result (rtems_port_create walloc wfree name a b n p st) (\<lambda>(sc, i, st). Some (Returns (Port_id sc i, st)))
   | Port_delete i \<Rightarrow> map_option (\<lambda>(sc, st). Returns (Port_id sc None, st)) (rtems_port_delete wfree i st)
   | Port_ident name p \<Rightarrow> let (sc, i) = rtems_port_ident name p st in Some (Returns (Port_id sc i, st))
   | Port_to_internal i a p \<Rightarrow> let (sc, r) = rtems_port_external_to_internal i a p st in Some (Returns (Port_address sc r, st))
   | Port_to_external i a p \<Rightarrow> let (sc, r) = rtems_port_internal_to_external i a p st in Some (Returns (Port_address sc r, st)))"

fun port_calls :: "'w allocate_fun \<Rightarrow> (uintptr \<Rightarrow> 'w \<Rightarrow> 'w) \<Rightarrow> port_call list \<Rightarrow> 'w port_manager \<Rightarrow> (port_reply list \<times> 'w port_manager) result" where
  "port_calls walloc wfree [] st = Some (Returns ([], st))"
| "port_calls walloc wfree (c # cs) st =
     bind_result (port_call walloc wfree c st) (\<lambda>(r, st).
       bind_result (port_calls walloc wfree cs st) (\<lambda>(rs, st). Some (Returns (r # rs, st))))"

section \<open>The specification\<close>

text \<open>
  A map from identifiers to ports, each with its name. The identifier of a new port is one that is not in
  the map; a port may be refused.
\<close>

type_synonym port_map = "Objects_Id \<Rightarrow> (uint32 \<times> Dual_ported_memory_Control) option"

definition port_translate :: "uintptr \<Rightarrow> uintptr \<Rightarrow> uint32 \<Rightarrow> uintptr \<Rightarrow> uintptr" where
  "port_translate from_base to_base window a =
     (let offset = (a - from_base) mod 2 ^ 32 in if offset \<le> ucast window then to_base + offset else a)"

fun port_spec :: "port_map \<Rightarrow> port_call \<Rightarrow> port_reply \<Rightarrow> port_map \<Rightarrow> bool" where
  "port_spec m (Port_create name a b n p) r m' =
     (if name = 0 then r = Port_id RTEMS_INVALID_NAME None \<and> m' = m
      else if \<not> p \<or> \<not> Addresses_Is_aligned a \<or> \<not> Addresses_Is_aligned b then r = Port_id RTEMS_INVALID_ADDRESS None \<and> m' = m
      else r = Port_id RTEMS_TOO_MANY None \<and> m' = m
        \<or> (\<exists>i. r = Port_id RTEMS_SUCCESSFUL (Some i) \<and> m i = None
             \<and> m' = m(i := Some (name, \<lparr>internal_base = a, external_base = b, port_length = n - 1\<rparr>))))"
| "port_spec m (Port_delete i) r m' =
     (if m i = None then r = Port_id RTEMS_INVALID_ID None \<and> m' = m
      else r = Port_id RTEMS_SUCCESSFUL None \<and> m' = m(i := None))"
| "port_spec m (Port_ident name p) r m' \<longleftrightarrow> m' = m \<and>
     (if \<not> p then r = Port_id RTEMS_INVALID_ADDRESS None
      else if name \<noteq> 0 \<and> (\<exists>i c. m i = Some (name, c)) then \<exists>i c. r = Port_id RTEMS_SUCCESSFUL (Some i) \<and> m i = Some (name, c)
      else r = Port_id RTEMS_INVALID_NAME None)"
| "port_spec m (Port_to_internal i a p) r m' \<longleftrightarrow> m' = m \<and>
     (if \<not> p then r = Port_address RTEMS_INVALID_ADDRESS None
      else case m i of None \<Rightarrow> r = Port_address RTEMS_INVALID_ID None
        | Some (_, c) \<Rightarrow> r = Port_address RTEMS_SUCCESSFUL (Some (port_translate (external_base c) (internal_base c) (port_length c) a)))"
| "port_spec m (Port_to_external i a p) r m' \<longleftrightarrow> m' = m \<and>
     (if \<not> p then r = Port_address RTEMS_INVALID_ADDRESS None
      else case m i of None \<Rightarrow> r = Port_address RTEMS_INVALID_ID None
        | Some (_, c) \<Rightarrow> r = Port_address RTEMS_SUCCESSFUL (Some (port_translate (internal_base c) (external_base c) (port_length c) a)))"

inductive port_specs :: "port_map \<Rightarrow> port_call list \<Rightarrow> port_reply list \<Rightarrow> port_map \<Rightarrow> bool" where
  none: "port_specs m [] [] m"
| call: "port_spec m c r m' \<Longrightarrow> port_specs m' cs rs m'' \<Longrightarrow> port_specs m (c # cs) (r # rs) m''"

section \<open>The directives refine the specification\<close>

definition port_abs :: "'w port_manager \<Rightarrow> port_map" where
  "port_abs st i = map_option (\<lambda>x. (object_name (Dual_ported_memory_Information st) x, ports st x)) (live (Dual_ported_memory_Information st) i)"

lemma low_bits: "ucast (ucast (a :: uint64) :: uint32) = a mod 2 ^ 32"
  unfolding take_bit_eq_mod [symmetric] by (rule bit_word_eqI) (auto simp: bit_simps)

lemma translate: "(if Addresses_Subtract a b > n then a else Addresses_Add_offset c (ucast (Addresses_Subtract a b))) = port_translate b c n a"
proof -
  have "(n < ucast (a - b)) = ((ucast n :: uint64) < ucast (ucast (a - b) :: uint32))" by (simp add: word_less_nat_alt unat_ucast_up)
  then show ?thesis unfolding low_bits by (simp add: port_translate_def Addresses_Subtract_def Addresses_Add_offset_def low_bits Let_def not_less [symmetric])
qed

lemma Get_live: "Objects_Get i s = 0 \<longleftrightarrow> live s i = None" "live s i = Some x \<Longrightarrow> Objects_Get i s = x"
  by (auto simp: live_def Let_def split: if_splits)

lemma translate_ok:
  "port_spec (port_abs st) (Port_to_internal i a p) (case rtems_port_external_to_internal i a p st of (sc, r) \<Rightarrow> Port_address sc r) (port_abs st)"
  "port_spec (port_abs st) (Port_to_external i a p) (case rtems_port_internal_to_external i a p st of (sc, r) \<Rightarrow> Port_address sc r) (port_abs st)"
proof -
  let ?s = "Dual_ported_memory_Information st"
  have g: "Objects_Get i ?s = (case live ?s i of None \<Rightarrow> 0 | Some x \<Rightarrow> x)" by (auto simp: live_def Let_def)
  have nz: "live ?s i = Some x \<Longrightarrow> x \<noteq> 0" for x by (auto simp: live_def Let_def split: if_splits)
  show "port_spec (port_abs st) (Port_to_internal i a p) (case rtems_port_external_to_internal i a p st of (sc, r) \<Rightarrow> Port_address sc r) (port_abs st)"
    unfolding port_spec.simps rtems_port_external_to_internal_def Let_def g port_abs_def translate using nz
    by (cases "live ?s i") simp_all
  show "port_spec (port_abs st) (Port_to_external i a p) (case rtems_port_internal_to_external i a p st of (sc, r) \<Rightarrow> Port_address sc r) (port_abs st)"
    unfolding port_spec.simps rtems_port_internal_to_external_def Let_def g port_abs_def translate using nz
    by (cases "live ?s i") simp_all
qed

lemma ident_ok:
  assumes c: "class_inv winv lo hi R (Dual_ported_memory_Information st)"
  shows "port_spec (port_abs st) (Port_ident name p) (case rtems_port_ident name p st of (sc, i) \<Rightarrow> Port_id sc i) (port_abs st)"
proof -
  let ?s = "Dual_ported_memory_Information st"
  have ex: "port_abs st i = Some (name, c) \<longleftrightarrow> (\<exists>x. live ?s i = Some x \<and> object_name ?s x = name \<and> c = ports st x)" for i c
    by (auto simp: port_abs_def)
  show ?thesis
  proof (cases "p \<and> name \<noteq> 0")
    case False
    then show ?thesis by (auto simp: rtems_port_ident_def Objects_Name_to_id_u32_def)
  next
    case True
    obtain e r where er: "Objects_Name_to_id_u32 name 0 True ?s = (e, r)" by (cases "Objects_Name_to_id_u32 name 0 True ?s")
    note N = Name_to_id_live [OF c, of name, unfolded er prod.case]
    show ?thesis
    proof (cases r)
      case None
      then have "e = OBJECTS_INVALID_NAME" "\<forall>j x. live ?s j = Some x \<longrightarrow> object_name ?s x \<noteq> name" using N True by (auto split: Objects_Name_or_id_lookup_errors.splits)
      then show ?thesis using True er None ex by (auto simp: rtems_port_ident_def)
    next
      case (Some i)
      then obtain x where "e = OBJECTS_NAME_OR_ID_LOOKUP_SUCCESSFUL" "live ?s i = Some x" "object_name ?s x = name"
        using N True by (auto split: Objects_Name_or_id_lookup_errors.splits)
      then show ?thesis using True er Some ex by (auto simp: rtems_port_ident_def)
    qed
  qed
qed

lemma port_abs_open:
  assumes "live info = (live (Dual_ported_memory_Information st))(i := Some x)" and "x \<notin> ran (live (Dual_ported_memory_Information st))"
    and "object_name info = (object_name (Dual_ported_memory_Information st))(x := name)"
  shows "port_abs (st\<lparr>Dual_ported_memory_Information := info, ports := (ports st)(x := c)\<rparr>) = (port_abs st)(i := Some (name, c))"
  using assms by (auto simp: port_abs_def fun_eq_iff ran_def intro!: option.map_cong)

lemma port_abs_close:
  assumes l: "live info = (live (Dual_ported_memory_Information st))(i := None)" and x: "live (Dual_ported_memory_Information st) i = Some x"
    and inj: "\<And>j. live (Dual_ported_memory_Information st) j = Some x \<Longrightarrow> j = i"
    and n: "object_name info = (object_name (Dual_ported_memory_Information st))(x := 0)"
  shows "port_abs (st\<lparr>Dual_ported_memory_Information := info\<rparr>) = (port_abs st)(i := None)"
  using inj by (auto simp: port_abs_def fun_eq_iff l n intro!: option.map_cong)

context workspace
begin

lemma port_create_ok:
  assumes i: "class_inv winv lo hi R (Dual_ported_memory_Information st)"
  shows "\<exists>sc r st'. rtems_port_create walloc wfree name a b n p st = Some (Returns (sc, r, st'))
    \<and> class_inv winv lo hi R (Dual_ported_memory_Information st')
    \<and> same_class (Dual_ported_memory_Information st) (Dual_ported_memory_Information st') \<and> port_spec (port_abs st) (Port_create name a b n p) (Port_id sc r) (port_abs st')"
proof (cases "name = 0 \<or> \<not> p \<or> \<not> Addresses_Is_aligned a \<or> \<not> Addresses_Is_aligned b")
  case True
  then show ?thesis using i by (auto simp: rtems_port_create_def rtems_is_name_valid_def same_class_def)
next
  case ok: False
  then have e: "rtems_port_create walloc wfree name a b n p st =
      bind_result (Objects_Allocate_unprotected walloc wfree (Dual_ported_memory_Information st)) (\<lambda>(the_port, info).
        if the_port = 0 then Some (Returns (RTEMS_TOO_MANY, None, st\<lparr>Dual_ported_memory_Information := info\<rparr>))
        else let control = \<lparr>internal_base = a, external_base = b, port_length = n - 1\<rparr>;
                 info = Objects_Open_u32 the_port name info
             in Some (Returns (RTEMS_SUCCESSFUL, Some (object_id info the_port),
                  st\<lparr>Dual_ported_memory_Information := info, ports := (ports st)(the_port := control)\<rparr>)))"
    by (simp add: rtems_port_create_def rtems_is_name_valid_def)
  from i show ?thesis
  proof (cases rule: create_object)
    case (full s')
    have "port_abs (st\<lparr>Dual_ported_memory_Information := s'\<rparr>) = port_abs st" using full(3,4) by (simp add: port_abs_def fun_eq_iff)
    then show ?thesis using e full(1,2,6) ok by auto
  next
    case (made x s')
    let ?c = "\<lparr>internal_base = a, external_base = b, port_length = n - 1\<rparr>" and ?o = "Objects_Open_u32 x name s'"
    have id: "object_id ?o x = object_id s' x" by (simp add: Objects_Open_u32_def Objects_Set_local_object_def)
    have "port_abs (st\<lparr>Dual_ported_memory_Information := ?o, ports := (ports st)(x := ?c)\<rparr>) = (port_abs st)(object_id s' x := Some (name, ?c))"
      by (rule port_abs_open) (rule made)+
    moreover have "port_abs st (object_id s' x) = None" using made(5) by (simp add: port_abs_def)
    moreover have "same_class (Dual_ported_memory_Information st) ?o" by (rule same_class_trans [OF made(7)]) simp
    ultimately show ?thesis using e made(1,2,8) ok id by auto
  qed
qed

lemma port_delete_ok:
  assumes i: "class_inv winv lo hi R (Dual_ported_memory_Information st)"
  shows "\<exists>sc st'. rtems_port_delete wfree j st = Some (sc, st')
    \<and> class_inv winv lo hi R (Dual_ported_memory_Information st')
    \<and> same_class (Dual_ported_memory_Information st) (Dual_ported_memory_Information st') \<and> port_spec (port_abs st) (Port_delete j) (Port_id sc None) (port_abs st')"
proof (cases "live (Dual_ported_memory_Information st) j")
  case None
  then show ?thesis using i by (auto simp: rtems_port_delete_def Get_live port_abs_def same_class_def)
next
  case (Some x)
  obtain s' where d: "Objects_Free wfree x (Objects_Close x (Dual_ported_memory_Information st)) = Some s'" "class_inv winv lo hi R s'"
    "live s' = (live (Dual_ported_memory_Information st))(j := None)" "object_name s' = (object_name (Dual_ported_memory_Information st))(x := 0)"
    "same_class (Dual_ported_memory_Information st) s'" by (rule delete_object [OF i Some])
  have "rtems_port_delete wfree j st = Some (RTEMS_SUCCESSFUL, st\<lparr>Dual_ported_memory_Information := s'\<rparr>)"
    using Some d(1) class_inv_live(1) [OF i Some] by (simp add: rtems_port_delete_def Get_live(2))
  moreover have "port_abs (st\<lparr>Dual_ported_memory_Information := s'\<rparr>) = (port_abs st)(j := None)"
    using class_inv_live(2) [OF i] Some by (intro port_abs_close [OF d(3) Some _ d(4)]) blast
  moreover have "port_abs st j \<noteq> None" using Some by (simp add: port_abs_def)
  ultimately show ?thesis using d(2,5) by auto
qed

lemma port_call_ok:
  assumes i: "class_inv winv lo hi R (Dual_ported_memory_Information st)"
  shows "\<exists>r st'. port_call walloc wfree c st = Some (Returns (r, st'))
    \<and> class_inv winv lo hi R (Dual_ported_memory_Information st')
    \<and> same_class (Dual_ported_memory_Information st) (Dual_ported_memory_Information st') \<and> port_spec (port_abs st) c r (port_abs st')"
proof (cases c)
  case (Port_create name a b n p)
  then show ?thesis using port_create_ok [OF i, of name a b n p] by (auto simp: port_call_def simp del: port_spec.simps)
next
  case (Port_delete j)
  then show ?thesis using port_delete_ok [OF i, of j] by (auto simp: port_call_def simp del: port_spec.simps)
next
  case (Port_ident name p)
  then show ?thesis using ident_ok [OF i, of name p] i by (auto simp: port_call_def split_beta same_class_def simp del: port_spec.simps)
next
  case (Port_to_internal j a p)
  then show ?thesis using translate_ok(1) [of st j a p] i by (auto simp: port_call_def split_beta same_class_def simp del: port_spec.simps)
next
  case (Port_to_external j a p)
  then show ?thesis using translate_ok(2) [of st j a p] i by (auto simp: port_call_def split_beta same_class_def simp del: port_spec.simps)
qed

theorem port_calls_ok:
  assumes "class_inv winv lo hi R (Dual_ported_memory_Information st)"
  shows "\<exists>rs st'. port_calls walloc wfree cs st = Some (Returns (rs, st'))
    \<and> class_inv winv lo hi R (Dual_ported_memory_Information st')
    \<and> same_class (Dual_ported_memory_Information st) (Dual_ported_memory_Information st') \<and> port_specs (port_abs st) cs rs (port_abs st')"
  using assms
proof (induction cs arbitrary: st)
  case Nil
  then show ?case by (auto intro: port_specs.none simp: same_class_def)
next
  case (Cons c cs)
  obtain r st1 where 1: "port_call walloc wfree c st = Some (Returns (r, st1))" "class_inv winv lo hi R (Dual_ported_memory_Information st1)"
    "same_class (Dual_ported_memory_Information st) (Dual_ported_memory_Information st1)" "port_spec (port_abs st) c r (port_abs st1)" using port_call_ok [OF Cons.prems] by blast
  obtain rs st2 where 2: "port_calls walloc wfree cs st1 = Some (Returns (rs, st2))" "class_inv winv lo hi R (Dual_ported_memory_Information st2)"
    "same_class (Dual_ported_memory_Information st1) (Dual_ported_memory_Information st2)" "port_specs (port_abs st1) cs rs (port_abs st2)" using Cons.IH [OF 1(2)] by blast
  then show ?case using 1 same_class_trans [OF 1(3) 2(3)] by (auto intro: port_specs.call)
qed

end

lemma ports_boot:
  assumes "boot_ok h b n pg (Inactive (Dual_ported_memory_Information st)) maximum_ports 56"
    and "Heap_Initialize h b n pg m = (r, ws (Dual_ported_memory_Information st))" "r \<noteq> 0"
  obtains (fatal) "Dual_ported_memory_Manager_initialization Workspace_Allocate Workspace_Free maximum_ports st = Some (Fatal INTERNAL_ERROR_WORKSPACE_ALLOCATION)"
      "\<not> Objects_Is_unlimited maximum_ports"
  | (up) a S st0 where "Dual_ported_memory_Manager_initialization Workspace_Allocate Workspace_Free maximum_ports st = Some (Returns st0)"
      "class_inv (ws_inv a S) a (a + S + 8) (\<lambda>_. None) (Dual_ported_memory_Information st0)" "port_abs st0 = (\<lambda>_. None)"
      "the_api (Dual_ported_memory_Information st0) = 2" "the_class (Dual_ported_memory_Information st0) = 7"
  using class_boot [OF assms, of 2 7 4]
proof (elim disjE exE conjE)
  assume "Objects_Do_initialize_information Workspace_Allocate Workspace_Free 2 7 maximum_ports 56 4 (Dual_ported_memory_Information st)
      = Some (Fatal INTERNAL_ERROR_WORKSPACE_ALLOCATION)" "\<not> Objects_Is_unlimited maximum_ports"
  then show thesis using fatal by (simp add: Dual_ported_memory_Manager_initialization_def bind_result_def)
next
  fix a S s'
  assume e: "Objects_Do_initialize_information Workspace_Allocate Workspace_Free 2 7 maximum_ports 56 4 (Dual_ported_memory_Information st) = Some (Returns s')"
    and c: "class_inv (ws_inv a S) a (a + S + 8) (\<lambda>_. None) s'" and l: "live s' = (\<lambda>_. None)" and f: "the_api s' = 2" "the_class s' = 7"
  have "port_abs (st\<lparr>Dual_ported_memory_Information := s'\<rparr>) = (\<lambda>_. None)" using l by (simp add: port_abs_def fun_eq_iff)
  then show thesis using up [of "st\<lparr>Dual_ported_memory_Information := s'\<rparr>" a S] e c f by (simp add: Dual_ported_memory_Manager_initialization_def)
qed

lemma ports_run:
  assumes c: "class_inv (ws_inv a S) a (a + S + 8) (\<lambda>_. None) (Dual_ported_memory_Information st0)"
  shows "\<exists>rs st'. port_calls Workspace_Allocate Workspace_Free cs st0 = Some (Returns (rs, st'))
    \<and> class_inv (ws_inv a S) a (a + S + 8) (\<lambda>_. None) (Dual_ported_memory_Information st')
    \<and> same_class (Dual_ported_memory_Information st0) (Dual_ported_memory_Information st') \<and> port_specs (port_abs st0) cs rs (port_abs st')"
  using heap_workspace.port_calls_ok [OF c, of cs] by auto

section \<open>Properties\<close>

text \<open>A class before its initialisation, over the example heap.\<close>

definition ex_class :: "heap_state Objects_Information" where
  "ex_class = \<lparr>the_api = 0, the_class = 0, minimum_id = 0, maximum_id = 0, maximum = 0, auto_extend = False, allocation_size = 0, object_size = 0,
     local_table = [], Inactive = 200, inactive = 0, inactive_per_block = [], tables = 0, object_blocks = [], name_length = 0, nodes = \<lambda>_. 0,
     object_id = \<lambda>_. 0, object_name = \<lambda>_. 0, ws = snd ex_init, uninit = \<lambda>_. 0\<rparr>"

definition ex_ports :: "heap_state port_manager" where
  "ex_ports = \<lparr>Dual_ported_memory_Information = ex_class, ports = \<lambda>_. \<lparr>internal_base = 0, external_base = 0, port_length = 0\<rparr>\<rparr>"

lemma ex_boot: "boot_ok ex_control 1000 1000 8 (Inactive ex_class) 0x80000002 sz \<longleftrightarrow> 24 \<le> sz"
  by (simp add: boot_ok_def ex_control_def ex_class_def Objects_Maximum_per_allocation_def Objects_Is_unlimited_def)

lemma ex_heap: "Heap_Initialize ex_control 1000 1000 8 ex_memory = (fst ex_init, ws ex_class)" "fst ex_init \<noteq> 0"
proof -
  show "Heap_Initialize ex_control 1000 1000 8 ex_memory = (fst ex_init, ws ex_class)" by (simp add: ex_class_def ex_init_def)
  show "fst ex_init \<noteq> 0" using ex_init_values by simp
qed

text \<open>C2: Over a workspace heap that \<^verbatim>\<open>_Heap_Initialize\<close> accepted, the initialisation of the Dual Ported Memory Manager
  ends in the fatal workspace error or succeeds; after that every sequence of \<^verbatim>\<open>rtems_port_*\<close> directives
  returns, and its replies are those of a map from identifiers to ports: create adds an identifier that was not in use, with its name and addresses, or refuses;
  delete and the translations act on the port of the identifier and reject any other identifier, deleted ones included; ident
  finds a port of the name if there is one. The Object Handler, the workspace, the heap and the chains are
  the detailed ones.\<close>
theorem ports_refine_map:
  assumes "boot_ok h b n pg (Inactive (Dual_ported_memory_Information st)) maximum_ports 56"
    and "Heap_Initialize h b n pg m = (r, ws (Dual_ported_memory_Information st))" "r \<noteq> 0"
  shows "Dual_ported_memory_Manager_initialization Workspace_Allocate Workspace_Free maximum_ports st = Some (Fatal INTERNAL_ERROR_WORKSPACE_ALLOCATION)
      \<and> \<not> Objects_Is_unlimited maximum_ports
    \<or> (\<exists>st0. Dual_ported_memory_Manager_initialization Workspace_Allocate Workspace_Free maximum_ports st = Some (Returns st0)
        \<and> (\<forall>cs. \<exists>rs st'. port_calls Workspace_Allocate Workspace_Free cs st0 = Some (Returns (rs, st'))
             \<and> port_specs (\<lambda>_. None) cs rs (port_abs st')))"
  using assms
proof (cases rule: ports_boot)
  case (up a S st0)
  then show ?thesis using ports_run [OF up(2)] by (simp add: up(3)) metis
qed simp

theorem ports_refine_map_witness:
  "\<exists>st0 rs st'. Dual_ported_memory_Manager_initialization Workspace_Allocate Workspace_Free 0x80000002 ex_ports = Some (Returns st0)
     \<and> port_calls Workspace_Allocate Workspace_Free
         [Port_create 1 4096 8192 16 True, Port_to_internal 0x3a010001 8200 True, Port_delete 0x3a010001] st0 = Some (Returns (rs, st'))
     \<and> port_specs (\<lambda>_. None) [Port_create 1 4096 8192 16 True, Port_to_internal 0x3a010001 8200 True, Port_delete 0x3a010001] rs (port_abs st')"
proof -
  have i: "Dual_ported_memory_Information ex_ports = ex_class" by (simp add: ex_ports_def)
  have "Objects_Is_unlimited 0x80000002" "24 \<le> (56 :: uint16)" by (simp_all add: Objects_Is_unlimited_def)
  then show ?thesis
    using ports_refine_map [where st = ex_ports and maximum_ports = "0x80000002", unfolded i, OF ex_boot [THEN iffD2] ex_heap] by blast
qed

lemma port_window:
  assumes p: "port_abs st i = Some (name, c)" and k: "unat k \<le> unat (port_length c)"
  shows "rtems_port_external_to_internal i (external_base c + k) True st = (RTEMS_SUCCESSFUL, Some (internal_base c + k))"
    and "rtems_port_internal_to_external i (internal_base c + k) True st = (RTEMS_SUCCESSFUL, Some (external_base c + k))"
    and "rtems_port_external_to_internal i (external_base c + 2 ^ 32 + k) True st = (RTEMS_SUCCESSFUL, Some (internal_base c + k))"
    and "unat (port_length c) < unat j \<Longrightarrow> unat j < 2 ^ 32 \<Longrightarrow> rtems_port_external_to_internal i (external_base c + j) True st = (RTEMS_SUCCESSFUL, Some (external_base c + j))"
proof -
  have lt: "unat k < 2 ^ 32" using k unat_lt2p [of "port_length c"] by simp
  have m: "k mod 2 ^ 32 = k" "(2 ^ 32 + k) mod 2 ^ 32 = k"
  proof -
    have u: "unat (2 ^ 32 :: uint64) = 2 ^ 32" by simp
    have s: "unat (2 ^ 32 + k) = 2 ^ 32 + unat k" using lt by (subst unat_plus_no_wrap) simp_all
    show "k mod 2 ^ 32 = k" "(2 ^ 32 + k) mod 2 ^ 32 = k" unfolding word_unat_eq_iff unat_mod u s using lt by simp_all
  qed
  have le: "k \<le> ucast (port_length c)" using k by (simp add: word_le_nat_alt unat_ucast_up)
  have E: "rtems_port_external_to_internal i a True st = (RTEMS_SUCCESSFUL, Some (port_translate (external_base c) (internal_base c) (port_length c) a))" for a
    using translate_ok(1) [of st i a True] p by (simp split: prod.splits)
  have I: "rtems_port_internal_to_external i a True st = (RTEMS_SUCCESSFUL, Some (port_translate (internal_base c) (external_base c) (port_length c) a))" for a
    using translate_ok(2) [of st i a True] p by (simp split: prod.splits)
  show "rtems_port_external_to_internal i (external_base c + k) True st = (RTEMS_SUCCESSFUL, Some (internal_base c + k))"
    "rtems_port_internal_to_external i (internal_base c + k) True st = (RTEMS_SUCCESSFUL, Some (external_base c + k))"
    unfolding E I port_translate_def Let_def using m(1) le by simp_all
  have "external_base c + 2 ^ 32 + k - external_base c = 2 ^ 32 + k" by simp
  then show "rtems_port_external_to_internal i (external_base c + 2 ^ 32 + k) True st = (RTEMS_SUCCESSFUL, Some (internal_base c + k))"
    unfolding E port_translate_def Let_def using m(2) le by (simp only: if_True)
  assume j: "unat (port_length c) < unat j" "unat j < 2 ^ 32"
  have "j mod 2 ^ 32 = j" unfolding word_unat_eq_iff unat_mod using j by simp
  moreover have "\<not> j \<le> ucast (port_length c)" using j by (simp add: word_le_nat_alt unat_ucast_up)
  ultimately show "rtems_port_external_to_internal i (external_base c + j) True st = (RTEMS_SUCCESSFUL, Some (external_base c + j))"
    unfolding E port_translate_def Let_def by simp
qed

text \<open>C19: An address in the window of a port is translated to the address at the same offset on the other side, and
  back to itself; an external address beyond the window, by less than \<open>2 ^ 32\<close>, is returned unchanged. An address that lies \<open>2 ^ 32\<close> bytes beyond one in the window is
  translated like the one in the window, because the offset is computed in 32 bits.\<close>
theorem port_translation:
  assumes "port_abs st i = Some (name, c)" and "unat k \<le> unat (port_length c)" and "unat (port_length c) < unat j" "unat j < 2 ^ 32"
  shows "rtems_port_external_to_internal i (external_base c + k) True st = (RTEMS_SUCCESSFUL, Some (internal_base c + k))
    \<and> rtems_port_internal_to_external i (internal_base c + k) True st = (RTEMS_SUCCESSFUL, Some (external_base c + k))
    \<and> rtems_port_external_to_internal i (external_base c + j) True st = (RTEMS_SUCCESSFUL, Some (external_base c + j))
    \<and> rtems_port_external_to_internal i (external_base c + 2 ^ 32 + k) True st = (RTEMS_SUCCESSFUL, Some (internal_base c + k))"
  using port_window [OF assms(1,2)] assms(3,4) by blast

definition ex_open_port :: "heap_state port_manager" where
  "ex_open_port = ex_ports\<lparr>Dual_ported_memory_Information := ex_class\<lparr>minimum_id := 1, maximum := 1, local_table := [0, 1016]\<rparr>,
     ports := \<lambda>_. \<lparr>internal_base = 4096, external_base = 8192, port_length = 15\<rparr>\<rparr>"

theorem port_translation_witness:
  "rtems_port_external_to_internal 1 8200 True ex_open_port = (RTEMS_SUCCESSFUL, Some 4104)
   \<and> rtems_port_external_to_internal 1 8208 True ex_open_port = (RTEMS_SUCCESSFUL, Some 8208)
   \<and> rtems_port_external_to_internal 1 4294975496 True ex_open_port = (RTEMS_SUCCESSFUL, Some 4104)"
proof -
  have "port_abs ex_open_port 1 = Some (0, \<lparr>internal_base = 4096, external_base = 8192, port_length = 15\<rparr>)"
    by (simp add: port_abs_def ex_open_port_def ex_ports_def ex_class_def live_def Objects_Get_def)
  then show ?thesis using port_translation [of ex_open_port 1 0 _ 8 16] by simp
qed

end
