(* ===== verification/Partitions.thy ===== *)
theory Partitions
  imports Ports
begin

text \<open>
  The Partition Manager of the Classic API, \<^verbatim>\<open>rtems/src/part*.c\<close> and \<^verbatim>\<open>partimpl.h\<close>: pools of buffers of one size
  in memory of the application. The free buffers are on a chain, with its links in the buffers. The
  memory of a partition is its own: partitions overlap neither each other nor the memory of the kernel.
\<close>

section \<open>Directives\<close>

text \<open>\<open>Memory\<close> is the address of the chain control; \<open>buffers\<close> are the words of the chain control and of the buffers.\<close>

record Partition_Control =
  starting_address :: uintptr
  part_length :: uint64
  buffer_size :: uint32
  attribute_set :: uint32
  number_of_used_blocks :: uint32
  Memory :: uintptr
  buffers :: chain_mem

definition Partition_Allocate_buffer :: "Partition_Control \<Rightarrow> uintptr \<times> Partition_Control" where
  "Partition_Allocate_buffer the_partition =
     (let (b, m) = Chain_Get_unprotected (Memory the_partition) (buffers the_partition) in (b, the_partition\<lparr>buffers := m\<rparr>))"

definition Partition_Free_buffer :: "Partition_Control \<Rightarrow> uintptr \<Rightarrow> Partition_Control" where
  "Partition_Free_buffer the_partition the_buffer =
     the_partition\<lparr>buffers := Chain_Append_unprotected (Memory the_partition) the_buffer (buffers the_partition)\<rparr>"

definition Partition_Is_buffer_on_boundary :: "uintptr \<Rightarrow> Partition_Control \<Rightarrow> bool" where
  "Partition_Is_buffer_on_boundary the_buffer the_partition \<longleftrightarrow>
     Addresses_Subtract the_buffer (starting_address the_partition) mod buffer_size the_partition = 0"

definition Partition_Is_buffer_valid :: "uintptr \<Rightarrow> Partition_Control \<Rightarrow> bool" where
  "Partition_Is_buffer_valid the_buffer the_partition \<longleftrightarrow>
     (let starting = starting_address the_partition;
          ending = Addresses_Add_offset starting (part_length the_partition)
      in Addresses_Is_in_range the_buffer starting ending \<and> Partition_Is_buffer_on_boundary the_buffer the_partition)"

definition Partition_Is_buffer_size_aligned :: "uint32 \<Rightarrow> bool" where
  "Partition_Is_buffer_size_aligned sz \<longleftrightarrow> sz mod 8 = 0"

definition Partition_Initialize :: "uintptr \<Rightarrow> uint32 \<Rightarrow> uint32 \<Rightarrow> uint32 \<Rightarrow> Partition_Control \<Rightarrow> Partition_Control" where
  "Partition_Initialize start len sz attributes the_partition =
     the_partition\<lparr>starting_address := start, part_length := ucast len, buffer_size := sz, attribute_set := attributes,
       number_of_used_blocks := 0,
       buffers := Chain_Initialize (Memory the_partition) start (ucast (len div sz)) (ucast sz) (buffers the_partition)\<rparr>"

text \<open>The chain control is 64 bytes into the control block.\<close>

record 'w part_manager =
  Partition_Information :: "'w Objects_Information"
  partitions :: "uintptr \<Rightarrow> Partition_Control"

definition rtems_partition_create ::
    "'w allocate_fun \<Rightarrow> (uintptr \<Rightarrow> 'w \<Rightarrow> 'w) \<Rightarrow> uint32 \<Rightarrow> uintptr \<Rightarrow> uint32 \<Rightarrow> uint32 \<Rightarrow> uint32 \<Rightarrow> bool \<Rightarrow> 'w part_manager
     \<Rightarrow> (rtems_status_code \<times> Objects_Id option \<times> 'w part_manager) result" where
  "rtems_partition_create walloc wfree name start len sz attributes id_p st =
     (if \<not> rtems_is_name_valid name then Some (Returns (RTEMS_INVALID_NAME, None, st))
      else if start = 0 then Some (Returns (RTEMS_INVALID_ADDRESS, None, st))
      else if \<not> id_p then Some (Returns (RTEMS_INVALID_ADDRESS, None, st))
      else if len = 0 \<or> sz = 0 \<or> len < sz \<or> \<not> Partition_Is_buffer_size_aligned sz
      then Some (Returns (RTEMS_INVALID_SIZE, None, st))
      else if \<not> Addresses_Is_aligned start then Some (Returns (RTEMS_INVALID_ADDRESS, None, st))
      else bind_result (Objects_Allocate_unprotected walloc wfree (Partition_Information st)) (\<lambda>(the_partition, info).
        if the_partition = 0 then Some (Returns (RTEMS_TOO_MANY, None, st\<lparr>Partition_Information := info\<rparr>))
        else let control = Partition_Initialize start len sz attributes ((partitions st the_partition)\<lparr>Memory := the_partition + 64\<rparr>);
                 info = Objects_Open_u32 the_partition name info
             in Some (Returns (RTEMS_SUCCESSFUL, Some (object_id info the_partition),
                  st\<lparr>Partition_Information := info, partitions := (partitions st)(the_partition := control)\<rparr>))))"

definition rtems_partition_delete ::
    "(uintptr \<Rightarrow> 'w \<Rightarrow> 'w) \<Rightarrow> Objects_Id \<Rightarrow> 'w part_manager \<Rightarrow> (rtems_status_code \<times> 'w part_manager) option" where
  "rtems_partition_delete wfree i st =
     (let the_partition = Objects_Get i (Partition_Information st)
      in if the_partition = 0 then Some (RTEMS_INVALID_ID, st)
         else if number_of_used_blocks (partitions st the_partition) \<noteq> 0 then Some (RTEMS_RESOURCE_IN_USE, st)
         else map_option (\<lambda>info. (RTEMS_SUCCESSFUL, st\<lparr>Partition_Information := info\<rparr>))
                (Objects_Free wfree the_partition (Objects_Close the_partition (Partition_Information st))))"

definition rtems_partition_get_buffer :: "Objects_Id \<Rightarrow> bool \<Rightarrow> 'w part_manager \<Rightarrow> rtems_status_code \<times> uintptr option \<times> 'w part_manager" where
  "rtems_partition_get_buffer i buffer_p st =
     (if \<not> buffer_p then (RTEMS_INVALID_ADDRESS, None, st)
      else let the_partition = Objects_Get i (Partition_Information st)
           in if the_partition = 0 then (RTEMS_INVALID_ID, None, st)
              else let (the_buffer, c) = Partition_Allocate_buffer (partitions st the_partition)
                   in if the_buffer = 0 then (RTEMS_UNSATISFIED, None, st\<lparr>partitions := (partitions st)(the_partition := c)\<rparr>)
                      else (RTEMS_SUCCESSFUL, Some the_buffer,
                        st\<lparr>partitions := (partitions st)(the_partition := c\<lparr>number_of_used_blocks := number_of_used_blocks c + 1\<rparr>)\<rparr>))"

definition rtems_partition_return_buffer :: "Objects_Id \<Rightarrow> uintptr \<Rightarrow> 'w part_manager \<Rightarrow> rtems_status_code \<times> 'w part_manager" where
  "rtems_partition_return_buffer i buffer st =
     (let the_partition = Objects_Get i (Partition_Information st)
      in if the_partition = 0 then (RTEMS_INVALID_ID, st)
         else if \<not> Partition_Is_buffer_valid buffer (partitions st the_partition) then (RTEMS_INVALID_ADDRESS, st)
         else let c = Partition_Free_buffer (partitions st the_partition) buffer
              in (RTEMS_SUCCESSFUL,
                  st\<lparr>partitions := (partitions st)(the_partition := c\<lparr>number_of_used_blocks := number_of_used_blocks c - 1\<rparr>)\<rparr>))"

definition rtems_partition_ident :: "uint32 \<Rightarrow> uint32 \<Rightarrow> bool \<Rightarrow> 'w part_manager \<Rightarrow> rtems_status_code \<times> Objects_Id option" where
  "rtems_partition_ident name node id_p st =
     (let (status, i) = Objects_Name_to_id_u32 name node id_p (Partition_Information st)
      in (Status_Object_name_errors_to_status status, i))"

text \<open>The control block has 88 bytes; \<open>maximum_partitions\<close> is the configured number.\<close>

definition Partition_Manager_initialization ::
    "'w allocate_fun \<Rightarrow> (uintptr \<Rightarrow> 'w \<Rightarrow> 'w) \<Rightarrow> uint32 \<Rightarrow> 'w part_manager \<Rightarrow> 'w part_manager result" where
  "Partition_Manager_initialization walloc wfree maximum_partitions st =
     bind_result (Objects_Do_initialize_information walloc wfree 2 5 maximum_partitions 88 4 (Partition_Information st))
       (\<lambda>info. Some (Returns (st\<lparr>Partition_Information := info\<rparr>)))"

section \<open>A partition\<close>

text \<open>The buffers of a partition, and its free buffers in order with those in use.\<close>

definition part_all :: "uintptr \<Rightarrow> nat \<Rightarrow> nat \<Rightarrow> uintptr list" where
  "part_all start len sz = map (\<lambda>k. start + of_nat (k * sz)) [0..<len div sz]"

record part =
  part_name :: uint32
  p_start :: uintptr
  p_len :: nat
  p_size :: nat
  p_free :: "uintptr list"
  p_used :: "uintptr set"

text \<open>The area does not wrap around and lies outside of the workspace, from \<open>lo\<close> to \<open>hi\<close>.\<close>

definition part_area :: "nat \<Rightarrow> nat \<Rightarrow> uintptr \<Rightarrow> nat \<Rightarrow> nat \<Rightarrow> bool" where
  "part_area lo hi start len sz \<longleftrightarrow> start \<noteq> 0 \<and> 16 \<le> sz \<and> sz < 2 ^ 32 \<and> len < 2 ^ 32 \<and> unat start + len < 2 ^ 64
     \<and> (unat start + len \<le> lo \<or> hi \<le> unat start)"

definition part_wf :: "nat \<Rightarrow> nat \<Rightarrow> part \<Rightarrow> bool" where
  "part_wf lo hi p \<longleftrightarrow> part_area lo hi (p_start p) (p_len p) (p_size p) \<and> p_used p \<inter> set (p_free p) = {}
     \<and> p_used p \<union> set (p_free p) = set (part_all (p_start p) (p_len p) (p_size p))"

definition part_rep :: "uintptr \<Rightarrow> Partition_Control \<Rightarrow> part \<Rightarrow> bool" where
  "part_rep x c p \<longleftrightarrow> starting_address c = p_start p \<and> part_length c = of_nat (p_len p) \<and> buffer_size c = of_nat (p_size p)
     \<and> number_of_used_blocks c = of_nat (card (p_used p)) \<and> Memory c = x + 64 \<and> chain_rep (buffers c) (x + 64) (p_free p)"

lemma part_all_unat:
  assumes a: "part_area lo hi start len sz" and k: "k < len div sz"
  shows "unat (start + of_nat (k * sz)) = unat start + k * sz" and "k * sz + sz \<le> len"
proof -
  have "Suc k * sz \<le> len div sz * sz" using k by (intro mult_le_mono1) simp
  also have "\<dots> \<le> len" by simp
  finally show l: "k * sz + sz \<le> len" by simp
  then have "unat (of_nat (k * sz) :: uintptr) = k * sz" using a by (intro unat_of_nat_64) (simp add: part_area_def)
  then show "unat (start + of_nat (k * sz)) = unat start + k * sz" using a l unfolding part_area_def by (subst unat_plus_64) simp_all
qed

lemma part_all_nodes:
  assumes a: "part_area lo hi start len sz" and x: "lo \<le> unat x" "unat x + 88 \<le> hi" "hi < 2 ^ 64"
  shows "nodes_ok (set (footprint (x + 64) [])) (set (part_all start len sz))" and "distinct (part_all start len sz)"
    and "distinct (footprint (x + 64) [])" and "0 \<notin> set (footprint (x + 64) [])"
proof -
  have u: "unat (x + 64) = unat x + 64" using x by (subst unat_plus_64) simp_all
  have u8: "unat (x + 64 + 8) = unat x + 72" "unat (x + 64 + 16) = unat x + 80" using x u by (simp_all add: unat_plus_64)
  have f: "w \<in> set (footprint (x + 64) []) \<Longrightarrow> lo + 64 \<le> unat w \<and> unat w + 8 \<le> hi" for w
    using u u8 x unfolding footprint_def by auto
  show "distinct (footprint (x + 64) [])" by (simp add: footprint_def)
  show "0 \<notin> set (footprint (x + 64) [])" using f [of 0] by auto
  have el: "\<exists>k. t = start + of_nat (k * sz) \<and> unat t = unat start + k * sz \<and> k * sz + sz \<le> len" if "t \<in> set (part_all start len sz)" for t
    using that part_all_unat [OF a] unfolding part_all_def by auto
  show "distinct (part_all start len sz)"
  proof -
    have "inj_on (\<lambda>k. start + of_nat (k * sz)) {0..<len div sz}"
    proof (rule inj_onI)
      fix k j assume kj: "k \<in> {0..<len div sz}" "j \<in> {0..<len div sz}" "start + of_nat (k * sz) = start + of_nat (j * sz)"
      then have "unat start + k * sz = unat start + j * sz" using part_all_unat(1) [OF a] by (metis atLeastLessThan_iff)
      then show "k = j" using a by (simp add: part_area_def)
    qed
    then show ?thesis unfolding part_all_def by (simp add: distinct_map)
  qed
  have "t \<notin> set (footprint (x + 64) []) \<and> t + 8 \<notin> set (footprint (x + 64) []) \<and> t \<noteq> 0 \<and> t + 8 \<noteq> 0 \<and> (\<forall>s\<in>set (part_all start len sz). t \<noteq> s + 8)"
    if t: "t \<in> set (part_all start len sz)" for t
  proof (intro conjI ballI)
    obtain k where k: "unat t = unat start + k * sz" "k * sz + sz \<le> len" using el [OF t] by blast
    have b: "16 \<le> sz" "unat start + len < 2 ^ 64" "0 < unat start" "unat start + len \<le> lo \<or> hi \<le> unat start"
      using a by (auto simp: part_area_def unat_gt_0)
    have t8: "unat (t + 8) = unat t + 8" using k b by (subst unat_plus_64) simp_all
    show "t \<notin> set (footprint (x + 64) [])" using f [of t] k b by linarith
    show "t + 8 \<notin> set (footprint (x + 64) [])" using f [of "t + 8"] k b t8 by linarith
    have "unat t \<noteq> 0" "unat (t + 8) \<noteq> 0" using k b t8 by linarith+
    then show "t \<noteq> 0" "t + 8 \<noteq> 0" by (metis unsigned_0)+
    fix s assume "s \<in> set (part_all start len sz)"
    then obtain j where j: "unat s = unat start + j * sz" "j * sz + sz \<le> len" using el by blast
    have s8: "unat (s + 8) = unat s + 8" using j b by (subst unat_plus_64) simp_all
    have "k * sz \<le> j * sz \<or> j * sz + sz \<le> k * sz" using mult_le_mono1 [of k j sz] mult_le_mono1 [of "Suc j" k sz] by (cases "k \<le> j") auto
    then have "unat t \<noteq> unat (s + 8)" using k j b s8 by linarith
    then show "t \<noteq> s + 8" by blast
  qed
  then show "nodes_ok (set (footprint (x + 64) [])) (set (part_all start len sz))" by (simp add: nodes_ok_def)
qed

lemma nodes_footprint:
  assumes "nodes_ok (set (footprint c [])) pool" and "distinct (footprint c [])" and "0 \<notin> set (footprint c [])"
  shows "set xs \<subseteq> pool \<Longrightarrow> distinct xs \<Longrightarrow> distinct (footprint c xs) \<and> 0 \<notin> set (footprint c xs)"
proof (induction xs)
  case Nil
  then show ?case using assms(2,3) by simp
next
  case (Cons x xs)
  then have f: "chain_fresh c xs x" by (intro nodes_ok_fresh [OF assms(1)]) auto
  then show ?case using Cons footprint_insert [of c "[]" x xs] unfolding chain_fresh_def by (auto simp: footprint_def)
qed

lemma part_created:
  fixes name :: uint32
  assumes a: "part_area lo hi start (unat len) (unat sz)" and x: "lo \<le> unat x" "unat x + 88 \<le> hi" "hi < 2 ^ 64"
  defines "p \<equiv> \<lparr>part_name = name, p_start = start, p_len = unat len, p_size = unat sz, p_free = part_all start (unat len) (unat sz), p_used = {}\<rparr>"
  shows "part_rep x (Partition_Initialize start len sz attrs (c\<lparr>Memory := x + 64\<rparr>)) p" and "part_wf lo hi p"
proof -
  note N = part_all_nodes [OF a x]
  have k: "unat (ucast (len div sz) :: uint64) = unat len div unat sz" by (simp add: unat_ucast_up unat_div_distrib)
  have e: "array_nodes start (ucast sz) (unat len div unat sz) = part_all start (unat len) (unat sz)"
    by (rule nth_equalityI) (simp_all add: array_nodes_nth part_all_def of_nat_unat)
  have f: "distinct (footprint (x + 64) (part_all start (unat len) (unat sz))) \<and> 0 \<notin> set (footprint (x + 64) (part_all start (unat len) (unat sz)))"
    by (rule nodes_footprint [OF N(1,3,4)]) (simp_all add: N(2))
  have "chain_rep (Chain_Initialize (x + 64) start (ucast (len div sz)) (ucast sz) (buffers c)) (x + 64) (part_all start (unat len) (unat sz))"
    using Chain_Initialize_rep [of "x + 64" start "ucast sz" "ucast (len div sz)" "buffers c"] f unfolding k e by blast
  then show "part_rep x (Partition_Initialize start len sz attrs (c\<lparr>Memory := x + 64\<rparr>)) p"
    by (simp add: part_rep_def Partition_Initialize_def p_def of_nat_unat)
  show "part_wf lo hi p" using a by (simp add: part_wf_def p_def)
qed

lemma part_get:
  assumes r: "part_rep x c p" and w: "part_wf lo hi p" and x: "lo \<le> unat x" "unat x + 88 \<le> hi" "hi < 2 ^ 64"
  shows "p_free p = [] \<Longrightarrow> Partition_Allocate_buffer c = (0, c)"
    and "p_free p = b # bs \<Longrightarrow> b \<noteq> 0 \<and> (\<exists>c'. Partition_Allocate_buffer c = (b, c')
      \<and> part_rep x (c'\<lparr>number_of_used_blocks := number_of_used_blocks c' + 1\<rparr>) (p\<lparr>p_free := bs, p_used := insert b (p_used p)\<rparr>)
      \<and> part_wf lo hi (p\<lparr>p_free := bs, p_used := insert b (p_used p)\<rparr>))"
proof -
  have ch: "chain_rep (buffers c) (Memory c) (p_free p)" using r by (simp add: part_rep_def)
  note G = Chain_Get_rep [OF ch] and N = part_all_nodes [of lo hi "p_start p" "p_len p" "p_size p" x]
  show "Partition_Allocate_buffer c = (0, c)" if "p_free p = []" using G that by (simp add: Partition_Allocate_buffer_def NULL_def)
  show "b \<noteq> 0 \<and> (\<exists>c'. Partition_Allocate_buffer c = (b, c')
      \<and> part_rep x (c'\<lparr>number_of_used_blocks := number_of_used_blocks c' + 1\<rparr>) (p\<lparr>p_free := bs, p_used := insert b (p_used p)\<rparr>)
      \<and> part_wf lo hi (p\<lparr>p_free := bs, p_used := insert b (p_used p)\<rparr>))" if f: "p_free p = b # bs"
  proof -
    have b: "b \<in> set (part_all (p_start p) (p_len p) (p_size p))" "b \<notin> p_used p" "finite (p_used p)"
      using w f unfolding part_wf_def by (auto intro: finite_subset [OF _ finite_set])
    have d: "b \<notin> set bs" using ch f by (auto simp: chain_rep_def footprint_def)
    have nz: "b \<noteq> 0" using N(1) w x b(1) by (auto simp: part_wf_def nodes_ok_def)
    obtain m where m: "Chain_Get_unprotected (Memory c) (buffers c) = (b, m)" "chain_rep m (Memory c) bs"
      using G f by (cases "Chain_Get_unprotected (Memory c) (buffers c)") simp
    have "part_rep x (c\<lparr>buffers := m, number_of_used_blocks := number_of_used_blocks c + 1\<rparr>) (p\<lparr>p_free := bs, p_used := insert b (p_used p)\<rparr>)"
      using r m(2) b(2,3) by (simp add: part_rep_def)
    moreover have "part_wf lo hi (p\<lparr>p_free := bs, p_used := insert b (p_used p)\<rparr>)" using w f d by (auto simp: part_wf_def)
    ultimately show ?thesis using nz m(1) by (auto simp: Partition_Allocate_buffer_def)
  qed
qed

lemma part_valid:
  assumes r: "part_rep x c p" and w: "part_wf lo hi p"
  shows "Partition_Is_buffer_valid b c \<longleftrightarrow> unat (p_start p) \<le> unat b \<and> unat b \<le> unat (p_start p) + p_len p \<and> (unat b - unat (p_start p)) mod p_size p = 0"
proof -
  have a: "16 \<le> p_size p" "p_size p < 2 ^ 32" "p_len p < 2 ^ 32" "unat (p_start p) + p_len p < 2 ^ 64" using w by (simp_all add: part_wf_def part_area_def)
  have l: "unat (of_nat (p_len p) :: uint64) = p_len p" using a by (intro unat_of_nat_64) simp
  have e: "unat (p_start p + of_nat (p_len p)) = unat (p_start p) + p_len p" using a l by (subst unat_plus_64) simp_all
  have s: "unat (of_nat (p_size p) :: uint32) = p_size p" using a by (intro unat_of_nat_32) simp
  have in_range: "Addresses_Is_in_range b (p_start p) (p_start p + of_nat (p_len p)) \<longleftrightarrow> unat (p_start p) \<le> unat b \<and> unat b \<le> unat (p_start p) + p_len p"
    unfolding Addresses_Is_in_range_def word_le_nat_alt e ..
  have bd: "Addresses_Subtract b (p_start p) mod of_nat (p_size p) = 0 \<longleftrightarrow> (unat b - unat (p_start p)) mod p_size p = 0"
    if i: "unat (p_start p) \<le> unat b" "unat b \<le> unat (p_start p) + p_len p"
  proof -
    have "unat (b - p_start p) = unat b - unat (p_start p)" using i(1) by (intro unat_minus_no_wrap) (simp add: word_le_nat_alt)
    then have "unat (Addresses_Subtract b (p_start p)) = unat b - unat (p_start p)"
      using i a by (simp add: Addresses_Subtract_def unsigned_ucast_eq take_bit_nat_eq_self)
    then show ?thesis unfolding word_unat_eq_iff unat_mod s by simp
  qed
  have f: "starting_address c = p_start p" "part_length c = of_nat (p_len p)" "buffer_size c = of_nat (p_size p)" using r by (simp_all add: part_rep_def)
  show ?thesis
    unfolding Partition_Is_buffer_valid_def Partition_Is_buffer_on_boundary_def Addresses_Add_offset_def Let_def f in_range
    by (rule iffI; elim conjE; intro conjI; (assumption | rule bd [THEN iffD1] bd [THEN iffD2]; assumption))
qed

lemma part_used:
  assumes w: "part_wf lo hi p" and b: "b \<in> p_used p"
  shows "unat (p_start p) \<le> unat b" and "unat b + p_size p \<le> unat (p_start p) + p_len p" and "(unat b - unat (p_start p)) mod p_size p = 0"
    and "b \<in> set (part_all (p_start p) (p_len p) (p_size p))"
proof -
  show m: "b \<in> set (part_all (p_start p) (p_len p) (p_size p))" using w b by (auto simp: part_wf_def)
  have a: "part_area lo hi (p_start p) (p_len p) (p_size p)" using w by (simp add: part_wf_def)
  obtain k where k: "k < p_len p div p_size p" "b = p_start p + of_nat (k * p_size p)" using m by (auto simp: part_all_def)
  note u = part_all_unat [OF a k(1), folded k(2)]
  show "unat (p_start p) \<le> unat b" and "unat b + p_size p \<le> unat (p_start p) + p_len p" and "(unat b - unat (p_start p)) mod p_size p = 0"
    using u by simp_all
qed

lemma part_return:
  assumes r: "part_rep x c p" and w: "part_wf lo hi p" and x: "lo \<le> unat x" "unat x + 88 \<le> hi" "hi < 2 ^ 64" and b: "b \<in> p_used p"
  defines "c' \<equiv> Partition_Free_buffer c b" and "p' \<equiv> p\<lparr>p_free := p_free p @ [b], p_used := p_used p - {b}\<rparr>"
  shows "part_rep x (c'\<lparr>number_of_used_blocks := number_of_used_blocks c' - 1\<rparr>) p'" and "part_wf lo hi p'"
proof -
  have a: "part_area lo hi (p_start p) (p_len p) (p_size p)" using w by (simp add: part_wf_def)
  have u: "p_used p \<union> set (p_free p) = set (part_all (p_start p) (p_len p) (p_size p))" "p_used p \<inter> set (p_free p) = {}" using w by (simp_all add: part_wf_def)
  have fin: "finite (p_used p)" using u(1) by (metis List.finite_set finite_Un)
  have "chain_fresh (x + 64) (p_free p) b"
    using u b by (intro nodes_ok_fresh [OF part_all_nodes(1) [OF a x]]) auto
  then have "chain_rep (Chain_Append_unprotected (x + 64) b (buffers c)) (x + 64) (p_free p @ [b])"
    using r by (intro Chain_Append_rep) (simp_all add: part_rep_def)
  moreover have "of_nat (card (p_used p)) - 1 = (of_nat (card (p_used p - {b})) :: uint32)"
    using card_Suc_Diff1 [OF fin b] by (metis add_diff_cancel_left' of_nat_Suc)
  ultimately show "part_rep x (c'\<lparr>number_of_used_blocks := number_of_used_blocks c' - 1\<rparr>) p'"
    using r by (simp add: part_rep_def c'_def p'_def Partition_Free_buffer_def)
  show "part_wf lo hi p'" using w b by (auto simp: part_wf_def p'_def)
qed

lemma part_in_use:
  assumes r: "part_rep x c p" and w: "part_wf lo hi p"
  shows "number_of_used_blocks c = 0 \<longleftrightarrow> p_used p = {}"
proof -
  have a: "part_area lo hi (p_start p) (p_len p) (p_size p)" and u: "p_used p \<union> set (p_free p) = set (part_all (p_start p) (p_len p) (p_size p))"
    using w by (simp_all add: part_wf_def)
  have fin: "finite (p_used p)" using u by (metis List.finite_set finite_Un)
  have "card (p_used p) \<le> card (set (part_all (p_start p) (p_len p) (p_size p)))" using u by (intro card_mono) auto
  also have "\<dots> \<le> p_len p div p_size p" using card_length [of "part_all (p_start p) (p_len p) (p_size p)"] by (simp add: part_all_def)
  also have "\<dots> \<le> p_len p" by simp
  also have "\<dots> < 2 ^ 32" using a by (simp add: part_area_def)
  finally have c: "unat (of_nat (card (p_used p)) :: uint32) = card (p_used p)" by (rule unat_of_nat_32)
  have "number_of_used_blocks c = of_nat (card (p_used p))" using r by (simp only: part_rep_def)
  then show ?thesis by (simp only: word_unat_eq_iff c unsigned_0 card_0_eq [OF fin])
qed

text \<open>A word of a buffer in use is not a word of the chain.\<close>

lemma part_write:
  assumes r: "part_rep x c p" and w: "part_wf lo hi p" and x: "lo \<le> unat x" "unat x + 88 \<le> hi" "hi < 2 ^ 64"
    and b: "b \<in> p_used p" and a: "unat b \<le> unat a" "unat a + 8 \<le> unat b + p_size p"
  shows "part_rep x (c\<lparr>buffers := (buffers c)(a := v)\<rparr>) p"
proof -
  have ar: "part_area lo hi (p_start p) (p_len p) (p_size p)" and u: "p_used p \<union> set (p_free p) = set (part_all (p_start p) (p_len p) (p_size p))"
    "p_used p \<inter> set (p_free p) = {}" using w by (simp_all add: part_wf_def)
  note bu = part_used [OF w b]
  have A: "16 \<le> p_size p" "unat (p_start p) + p_len p < 2 ^ 64" "unat (p_start p) + p_len p \<le> lo \<or> hi \<le> unat (p_start p)"
    using ar by (simp_all add: part_area_def)
  have ctl: "unat (x + 64) = unat x + 64" "unat (x + 64 + 8) = unat x + 72" "unat (x + 64 + 16) = unat x + 80"
    using x by (simp_all add: unat_plus_64 add.assoc)
  have "a \<noteq> x + 64" "a \<noteq> x + 64 + 8" "a \<noteq> x + 64 + 16" using ctl x A bu(1,2) a by auto
  moreover have "a \<noteq> f \<and> a \<noteq> f + 8" if f: "f \<in> set (p_free p)" for f
  proof -
    obtain k where k: "k < p_len p div p_size p" "f = p_start p + of_nat (k * p_size p)" using f u by (auto simp: part_all_def)
    obtain j where j: "j < p_len p div p_size p" "b = p_start p + of_nat (j * p_size p)" using bu(4) by (auto simp: part_all_def)
    note uk = part_all_unat [OF ar k(1), folded k(2)] and uj = part_all_unat [OF ar j(1), folded j(2)]
    have "k \<noteq> j" using f b u(2) k(2) j(2) by blast
    then have "k * p_size p + p_size p \<le> j * p_size p \<or> j * p_size p + p_size p \<le> k * p_size p"
      using mult_le_mono1 [of "Suc k" j "p_size p"] mult_le_mono1 [of "Suc j" k "p_size p"] by (cases "k < j") auto
    moreover have "unat (f + 8) = unat f + 8" using uk A by (subst unat_plus_64) simp_all
    ultimately have "unat a \<noteq> unat f" "unat a \<noteq> unat (f + 8)" using uk uj a A by linarith+
    then show ?thesis by blast
  qed
  ultimately have "a \<notin> set (footprint (x + 64) (p_free p))" by (auto simp: footprint_def)
  then have "chain_rep ((buffers c)(a := v)) (x + 64) (p_free p) = chain_rep (buffers c) (x + 64) (p_free p)" by (intro chain_rep_cong) auto
  then show ?thesis using r by (simp add: part_rep_def)
qed

end
