(* ===== verification/Partitions_Refine.thy ===== *)
theory Partitions_Refine
  imports Partitions
begin

text \<open>
  Sequences of \<^verbatim>\<open>rtems_partition_*\<close> directives, with the application writing to its buffers, refine a map
  from identifiers to partitions, each with its free buffers and its buffers in use.
\<close>

section \<open>Sequences of directives\<close>

text \<open>\<open>Part_write i a v\<close> is the application writing the word \<open>v\<close> at the address \<open>a\<close> in a buffer of the partition.\<close>

datatype part_call =
    Part_create uint32 uintptr uint32 uint32 uint32 bool
  | Part_delete Objects_Id
  | Part_get Objects_Id bool
  | Part_return Objects_Id uintptr
  | Part_ident uint32 bool
  | Part_write Objects_Id uintptr uint64

datatype part_reply = Part_id rtems_status_code "Objects_Id option" | Part_buffer rtems_status_code "uintptr option" | Part_written

definition part_call :: "'w allocate_fun \<Rightarrow> (uintptr \<Rightarrow> 'w \<Rightarrow> 'w) \<Rightarrow> part_call \<Rightarrow> 'w part_manager \<Rightarrow> (part_reply \<times> 'w part_manager) result" where
  "part_call walloc wfree c st = (case c of
     Part_create name start len sz attrs p \<Rightarrow>
       bind_result (rtems_partition_create walloc wfree name start len sz attrs p st) (\<lambda>(sc, i, st). Some (Returns (Part_id sc i, st)))
   | Part_delete i \<Rightarrow> map_option (\<lambda>(sc, st). Returns (Part_id sc None, st)) (rtems_partition_delete wfree i st)
   | Part_get i p \<Rightarrow> let (sc, b, st) = rtems_partition_get_buffer i p st in Some (Returns (Part_buffer sc b, st))
   | Part_return i b \<Rightarrow> let (sc, st) = rtems_partition_return_buffer i b st in Some (Returns (Part_buffer sc None, st))
   | Part_ident name p \<Rightarrow> let (sc, i) = rtems_partition_ident name 0 p st in Some (Returns (Part_id sc i, st))
   | Part_write i a v \<Rightarrow>
       let x = Objects_Get i (Partition_Information st)
       in Some (Returns (Part_written,
            st\<lparr>partitions := (partitions st)(x := (partitions st x)\<lparr>buffers := (buffers (partitions st x))(a := v)\<rparr>)\<rparr>)))"

fun part_calls :: "'w allocate_fun \<Rightarrow> (uintptr \<Rightarrow> 'w \<Rightarrow> 'w) \<Rightarrow> part_call list \<Rightarrow> 'w part_manager \<Rightarrow> (part_reply list \<times> 'w part_manager) result" where
  "part_calls walloc wfree [] st = Some (Returns ([], st))"
| "part_calls walloc wfree (c # cs) st =
     bind_result (part_call walloc wfree c st) (\<lambda>(r, st).
       bind_result (part_calls walloc wfree cs st) (\<lambda>(rs, st). Some (Returns (r # rs, st))))"

section \<open>The specification\<close>

text \<open>
  A map from identifiers to partitions. A buffer is taken from the front of the free buffers and given
  back at their end.
\<close>

type_synonym part_map = "Objects_Id \<Rightarrow> part option"

fun part_spec :: "part_map \<Rightarrow> part_call \<Rightarrow> part_reply \<Rightarrow> part_map \<Rightarrow> bool" where
  "part_spec m (Part_create name start len sz attrs p) r m' =
     (if name = 0 then r = Part_id RTEMS_INVALID_NAME None \<and> m' = m
      else if start = 0 \<or> \<not> p then r = Part_id RTEMS_INVALID_ADDRESS None \<and> m' = m
      else if len = 0 \<or> sz = 0 \<or> len < sz \<or> \<not> Partition_Is_buffer_size_aligned sz then r = Part_id RTEMS_INVALID_SIZE None \<and> m' = m
      else if \<not> Addresses_Is_aligned start then r = Part_id RTEMS_INVALID_ADDRESS None \<and> m' = m
      else r = Part_id RTEMS_TOO_MANY None \<and> m' = m
        \<or> (\<exists>i. r = Part_id RTEMS_SUCCESSFUL (Some i) \<and> m i = None
             \<and> m' = m(i := Some \<lparr>part_name = name, p_start = start, p_len = unat len, p_size = unat sz,
                                  p_free = part_all start (unat len) (unat sz), p_used = {}\<rparr>)))"
| "part_spec m (Part_delete i) r m' =
     (case m i of None \<Rightarrow> r = Part_id RTEMS_INVALID_ID None \<and> m' = m
      | Some q \<Rightarrow> if p_used q = {} then r = Part_id RTEMS_SUCCESSFUL None \<and> m' = m(i := None)
                  else r = Part_id RTEMS_RESOURCE_IN_USE None \<and> m' = m)"
| "part_spec m (Part_get i p) r m' =
     (if \<not> p then r = Part_buffer RTEMS_INVALID_ADDRESS None \<and> m' = m
      else case m i of None \<Rightarrow> r = Part_buffer RTEMS_INVALID_ID None \<and> m' = m
        | Some q \<Rightarrow> (case p_free q of [] \<Rightarrow> r = Part_buffer RTEMS_UNSATISFIED None \<and> m' = m
            | b # bs \<Rightarrow> r = Part_buffer RTEMS_SUCCESSFUL (Some b) \<and> m' = m(i := Some (q\<lparr>p_free := bs, p_used := insert b (p_used q)\<rparr>))))"
| "part_spec m (Part_return i b) r m' =
     (case m i of None \<Rightarrow> r = Part_buffer RTEMS_INVALID_ID None \<and> m' = m
      | Some q \<Rightarrow> if b \<in> p_used q then r = Part_buffer RTEMS_SUCCESSFUL None \<and> m' = m(i := Some (q\<lparr>p_free := p_free q @ [b], p_used := p_used q - {b}\<rparr>))
                  else r = Part_buffer RTEMS_INVALID_ADDRESS None \<and> m' = m)"
| "part_spec m (Part_ident name p) r m' \<longleftrightarrow> m' = m \<and>
     (if \<not> p then r = Part_id RTEMS_INVALID_ADDRESS None
      else if name \<noteq> 0 \<and> (\<exists>i q. m i = Some q \<and> part_name q = name) then \<exists>i q. r = Part_id RTEMS_SUCCESSFUL (Some i) \<and> m i = Some q \<and> part_name q = name
      else r = Part_id RTEMS_INVALID_NAME None)"
| "part_spec m (Part_write i a v) r m' \<longleftrightarrow> r = Part_written \<and> m' = m"

text \<open>
  The obligations of the application: a partition lies outside of the workspace, from \<open>lo\<close> to \<open>hi\<close>, and has room for the
  links in its buffers; an address it returns is a buffer in use, or one the manager can tell from a
  buffer; it writes to buffers in use only.
\<close>

fun part_call_ok :: "nat \<Rightarrow> nat \<Rightarrow> part_map \<Rightarrow> part_call \<Rightarrow> bool" where
  "part_call_ok lo hi m (Part_create name start len sz attrs p) \<longleftrightarrow>
     start = 0 \<or> len = 0 \<or> sz = 0 \<or> len < sz \<or> part_area lo hi start (unat len) (unat sz)"
| "part_call_ok lo hi m (Part_return i b) \<longleftrightarrow>
     (case m i of None \<Rightarrow> True
      | Some q \<Rightarrow> b \<in> p_used q \<or> unat b < unat (p_start q) \<or> unat (p_start q) + p_len q < unat b \<or> (unat b - unat (p_start q)) mod p_size q \<noteq> 0)"
| "part_call_ok lo hi m (Part_write i a v) \<longleftrightarrow>
     (case m i of None \<Rightarrow> False | Some q \<Rightarrow> \<exists>b\<in>p_used q. unat b \<le> unat a \<and> unat a + 8 \<le> unat b + p_size q)"
| "part_call_ok lo hi m _ \<longleftrightarrow> True"

inductive part_specs :: "nat \<Rightarrow> nat \<Rightarrow> part_map \<Rightarrow> part_call list \<Rightarrow> part_reply list \<Rightarrow> part_map \<Rightarrow> bool" for lo hi where
  none: "part_specs lo hi m [] [] m"
| call: "part_call_ok lo hi m c \<Longrightarrow> part_spec m c r m' \<Longrightarrow> part_specs lo hi m' cs rs m'' \<Longrightarrow> part_specs lo hi m (c # cs) (r # rs) m''"

section \<open>The directives refine the specification\<close>

definition part_entry :: "nat \<Rightarrow> nat \<Rightarrow> 'w part_manager \<Rightarrow> uintptr \<Rightarrow> part \<Rightarrow> bool" where
  "part_entry lo hi st x q \<longleftrightarrow> object_name (Partition_Information st) x = part_name q \<and> part_rep x (partitions st x) q \<and> part_wf lo hi q"

definition part_sim :: "nat \<Rightarrow> nat \<Rightarrow> 'w part_manager \<Rightarrow> part_map \<Rightarrow> bool" where
  "part_sim lo hi st m \<longleftrightarrow> object_size (Partition_Information st) = 88
     \<and> (\<forall>i. rel_option (part_entry lo hi st) (live (Partition_Information st) i) (m i))"

lemma part_simD:
  assumes "part_sim lo hi st m"
  shows "object_size (Partition_Information st) = 88" and "live (Partition_Information st) i = None \<Longrightarrow> m i = None"
    and "live (Partition_Information st) i = Some x \<Longrightarrow> \<exists>q. m i = Some q \<and> part_entry lo hi st x q"
    and "m i = Some q \<Longrightarrow> \<exists>x. live (Partition_Information st) i = Some x \<and> part_entry lo hi st x q"
proof -
  have r: "rel_option (part_entry lo hi st) (live (Partition_Information st) i) (m i)" using assms by (simp add: part_sim_def)
  show "object_size (Partition_Information st) = 88" using assms by (simp add: part_sim_def)
  show "live (Partition_Information st) i = None \<Longrightarrow> m i = None" using r by (cases "m i") auto
  show "live (Partition_Information st) i = Some x \<Longrightarrow> \<exists>q. m i = Some q \<and> part_entry lo hi st x q" using r by (cases "m i") auto
  show "m i = Some q \<Longrightarrow> \<exists>x. live (Partition_Information st) i = Some x \<and> part_entry lo hi st x q"
    using r by (cases "live (Partition_Information st) i") auto
qed

text \<open>Changing one partition.\<close>

lemma part_sim_update:
  assumes s: "part_sim lo hi st m" and l: "live (Partition_Information st) i = Some x"
    and inj: "\<And>j. live (Partition_Information st) j = Some x \<Longrightarrow> j = i"
    and c: "part_rep x c q" "part_wf lo hi q" and n: "\<exists>q0. m i = Some q0 \<and> part_name q = part_name q0"
  shows "part_sim lo hi (st\<lparr>partitions := (partitions st)(x := c)\<rparr>) (m(i := Some q))"
proof -
  have "rel_option (part_entry lo hi (st\<lparr>partitions := (partitions st)(x := c)\<rparr>)) (live (Partition_Information st) j) ((m(i := Some q)) j)" for j
  proof (cases "j = i")
    case True
    obtain q0 where "m i = Some q0" "part_name q = part_name q0" "part_entry lo hi st x q0" using n part_simD(3) [OF s l] by auto
    then show ?thesis using True l c by (simp add: part_entry_def)
  next
    case False
    have r: "rel_option (part_entry lo hi st) (live (Partition_Information st) j) (m j)" using s by (simp add: part_sim_def)
    then show ?thesis
    proof (cases "live (Partition_Information st) j")
      case (Some y)
      then have "y \<noteq> x" using inj False by auto
      then show ?thesis using r Some False by (cases "m j") (auto simp: part_entry_def)
    qed (use r False in \<open>cases "m j"; simp\<close>)
  qed
  then show ?thesis using s by (simp add: part_sim_def)
qed

definition part_inv ::
    "('w \<Rightarrow> (uintptr \<Rightarrow> nat option) \<Rightarrow> bool) \<Rightarrow> nat \<Rightarrow> nat \<Rightarrow> (uintptr \<Rightarrow> nat option) \<Rightarrow> 'w part_manager \<Rightarrow> part_map \<Rightarrow> bool" where
  "part_inv winv lo hi R st m \<longleftrightarrow> class_inv winv lo hi R (Partition_Information st) \<and> part_sim lo hi st m"

lemma part_inv_live:
  assumes i: "part_inv winv lo hi R st m" and l: "live (Partition_Information st) j = Some x"
  obtains q where "m j = Some q" "part_rep x (partitions st x) q" "part_wf lo hi q" "lo \<le> unat x" "unat x + 88 \<le> hi" "hi < 2 ^ 64"
    "Objects_Get j (Partition_Information st) = x" "x \<noteq> 0" "\<And>k. live (Partition_Information st) k = Some x \<Longrightarrow> k = j"
proof -
  have c: "class_inv winv lo hi R (Partition_Information st)" and s: "part_sim lo hi st m" using i by (auto simp: part_inv_def)
  note r = class_inv_range [OF c l]
  obtain q where q: "m j = Some q" "part_entry lo hi st x q" using part_simD(3) [OF s l] by blast
  have e: "part_rep x (partitions st x) q" "part_wf lo hi q" using q(2) by (simp_all add: part_entry_def)
  have o: "osz (Partition_Information st) = 88" using part_simD(1) [OF s] by simp
  have k: "k = j" if "live (Partition_Information st) k = Some x" for k using class_inv_live(2) [OF c that l] .
  show thesis by (rule that [OF q(1) e r [unfolded o] Get_live(2) [OF l] _ k]) (use class_inv_live(1) [OF c l] in simp)
qed

lemma part_inv_update:
  assumes i: "part_inv winv lo hi R st m" and l: "live (Partition_Information st) j = Some x" and m: "m j = Some q0"
    and c: "part_rep x c q" "part_wf lo hi q" "part_name q = part_name q0"
  shows "part_inv winv lo hi R (st\<lparr>partitions := (partitions st)(x := c)\<rparr>) (m(j := Some q))"
proof -
  have "\<And>k. live (Partition_Information st) k = Some x \<Longrightarrow> k = j" using part_inv_live [OF i l] by metis
  then show ?thesis using i part_sim_update [OF _ l, of lo hi m c q] m c by (simp add: part_inv_def)
qed

lemma part_get_ok:
  assumes i: "part_inv winv lo hi R st m"
  shows "\<exists>sc b st' m'. rtems_partition_get_buffer j p st = (sc, b, st') \<and> part_inv winv lo hi R st' m' \<and> part_spec m (Part_get j p) (Part_buffer sc b) m'"
proof (cases "p \<and> live (Partition_Information st) j \<noteq> None")
  case False
  have s: "part_sim lo hi st m" using i by (simp add: part_inv_def)
  show ?thesis using False i part_simD(2) [OF s, of j] by (auto simp: rtems_partition_get_buffer_def Get_live(1))
next
  case True
  then obtain x where l: "live (Partition_Information st) j = Some x" and p: p by auto
  obtain q where q: "m j = Some q" "part_rep x (partitions st x) q" "part_wf lo hi q" "lo \<le> unat x" "unat x + 88 \<le> hi" "hi < 2 ^ 64"
    "Objects_Get j (Partition_Information st) = x" "x \<noteq> 0" using part_inv_live [OF i l] by metis
  note G = part_get [OF q(2-6)]
  show ?thesis
  proof (cases "p_free q")
    case Nil
    have "rtems_partition_get_buffer j p st = (RTEMS_UNSATISFIED, None, st\<lparr>partitions := (partitions st)(x := partitions st x)\<rparr>)"
      using p q(7,8) G(1) [OF Nil] by (simp add: rtems_partition_get_buffer_def)
    then show ?thesis using i p q(1) Nil by simp
  next
    case (Cons b bs)
    obtain c' where c: "b \<noteq> 0" "Partition_Allocate_buffer (partitions st x) = (b, c')"
      "part_rep x (c'\<lparr>number_of_used_blocks := number_of_used_blocks c' + 1\<rparr>) (q\<lparr>p_free := bs, p_used := insert b (p_used q)\<rparr>)"
      "part_wf lo hi (q\<lparr>p_free := bs, p_used := insert b (p_used q)\<rparr>)" using G(2) [OF Cons] by blast
    have "rtems_partition_get_buffer j p st = (RTEMS_SUCCESSFUL, Some b,
        st\<lparr>partitions := (partitions st)(x := c'\<lparr>number_of_used_blocks := number_of_used_blocks c' + 1\<rparr>)\<rparr>)"
      using p q(7,8) c(1,2) by (simp add: rtems_partition_get_buffer_def)
    moreover have "part_inv winv lo hi R (st\<lparr>partitions := (partitions st)(x := c'\<lparr>number_of_used_blocks := number_of_used_blocks c' + 1\<rparr>)\<rparr>)
       (m(j := Some (q\<lparr>p_free := bs, p_used := insert b (p_used q)\<rparr>)))"
      by (rule part_inv_update [OF i l q(1) c(3,4)]) simp
    moreover have "part_spec m (Part_get j p) (Part_buffer RTEMS_SUCCESSFUL (Some b)) (m(j := Some (q\<lparr>p_free := bs, p_used := insert b (p_used q)\<rparr>)))"
      using p q(1) Cons by simp
    ultimately show ?thesis by blast
  qed
qed

lemma part_return_ok:
  assumes i: "part_inv winv lo hi R st m" and ok: "part_call_ok lo hi m (Part_return j b)"
  shows "\<exists>sc st' m'. rtems_partition_return_buffer j b st = (sc, st') \<and> part_inv winv lo hi R st' m' \<and> part_spec m (Part_return j b) (Part_buffer sc None) m'"
proof (cases "live (Partition_Information st) j")
  case None
  have s: "part_sim lo hi st m" using i by (simp add: part_inv_def)
  show ?thesis using None i part_simD(2) [OF s None] by (auto simp: rtems_partition_return_buffer_def Get_live(1))
next
  case (Some x)
  obtain q where q: "m j = Some q" "part_rep x (partitions st x) q" "part_wf lo hi q" "lo \<le> unat x" "unat x + 88 \<le> hi" "hi < 2 ^ 64"
    "Objects_Get j (Partition_Information st) = x" "x \<noteq> 0" using part_inv_live [OF i Some] by metis
  note V = part_valid [OF q(2,3), of b]
  show ?thesis
  proof (cases "b \<in> p_used q")
    case True
    note R = part_return [OF q(2-6) True] and u = part_used [OF q(3) True]
    have "Partition_Is_buffer_valid b (partitions st x)" unfolding V using u by simp
    then have "rtems_partition_return_buffer j b st = (RTEMS_SUCCESSFUL,
        st\<lparr>partitions := (partitions st)(x := (Partition_Free_buffer (partitions st x) b)\<lparr>number_of_used_blocks :=
             number_of_used_blocks (Partition_Free_buffer (partitions st x) b) - 1\<rparr>)\<rparr>)"
      using q(7,8) by (simp add: rtems_partition_return_buffer_def Let_def)
    moreover have "part_inv winv lo hi R (st\<lparr>partitions := (partitions st)(x := (Partition_Free_buffer (partitions st x) b)\<lparr>number_of_used_blocks :=
             number_of_used_blocks (Partition_Free_buffer (partitions st x) b) - 1\<rparr>)\<rparr>)
       (m(j := Some (q\<lparr>p_free := p_free q @ [b], p_used := p_used q - {b}\<rparr>)))"
      by (rule part_inv_update [OF i Some q(1) R]) simp
    moreover have "part_spec m (Part_return j b) (Part_buffer RTEMS_SUCCESSFUL None) (m(j := Some (q\<lparr>p_free := p_free q @ [b], p_used := p_used q - {b}\<rparr>)))"
      using q(1) True by simp
    ultimately show ?thesis by blast
  next
    case False
    have "unat b < unat (p_start q) \<or> unat (p_start q) + p_len q < unat b \<or> (unat b - unat (p_start q)) mod p_size q \<noteq> 0"
      using ok q(1) False unfolding part_call_ok.simps by (simp only: option.case simp_thms)
    then have "\<not> Partition_Is_buffer_valid b (partitions st x)" unfolding V by linarith
    then have "rtems_partition_return_buffer j b st = (RTEMS_INVALID_ADDRESS, st)" using q(7,8) by (simp add: rtems_partition_return_buffer_def)
    moreover have "part_spec m (Part_return j b) (Part_buffer RTEMS_INVALID_ADDRESS None) m" using q(1) False by simp
    ultimately show ?thesis using i by blast
  qed
qed

lemma part_ident_ok:
  assumes i: "part_inv winv lo hi R st m"
  shows "part_spec m (Part_ident name p) (case rtems_partition_ident name 0 p st of (sc, r) \<Rightarrow> Part_id sc r) m"
proof -
  let ?s = "Partition_Information st"
  have c: "class_inv winv lo hi R ?s" and s: "part_sim lo hi st m" using i by (auto simp: part_inv_def)
  have ex: "(\<exists>q. m j = Some q \<and> part_name q = name) \<longleftrightarrow> (\<exists>x. live ?s j = Some x \<and> object_name ?s x = name)" for j
    using part_simD(3,4) [OF s, of j] by (metis option.inject part_entry_def)
  show ?thesis
  proof (cases "p \<and> name \<noteq> 0")
    case False
    then show ?thesis by (auto simp: rtems_partition_ident_def Objects_Name_to_id_u32_def)
  next
    case True
    obtain e r where er: "Objects_Name_to_id_u32 name 0 True ?s = (e, r)" by (cases "Objects_Name_to_id_u32 name 0 True ?s")
    note N = Name_to_id_live [OF c, of name, unfolded er prod.case]
    show ?thesis
    proof (cases r)
      case None
      then have "e = OBJECTS_INVALID_NAME" "\<forall>j x. live ?s j = Some x \<longrightarrow> object_name ?s x \<noteq> name" using N True by (auto split: Objects_Name_or_id_lookup_errors.splits)
      then have "\<not> (\<exists>j q. m j = Some q \<and> part_name q = name)" "e = OBJECTS_INVALID_NAME" using ex by blast+
      then show ?thesis using True er None by (simp add: rtems_partition_ident_def)
    next
      case (Some j)
      then obtain x where "e = OBJECTS_NAME_OR_ID_LOOKUP_SUCCESSFUL" "live ?s j = Some x" "object_name ?s x = name"
        using N True by (auto split: Objects_Name_or_id_lookup_errors.splits)
      then have "\<exists>q. m j = Some q \<and> part_name q = name" "e = OBJECTS_NAME_OR_ID_LOOKUP_SUCCESSFUL" using ex by blast+
      then show ?thesis using True er Some by (auto simp: rtems_partition_ident_def)
    qed
  qed
qed

lemma part_write_ok:
  assumes i: "part_inv winv lo hi R st m" and ok: "part_call_ok lo hi m (Part_write j a v)"
  defines "x \<equiv> Objects_Get j (Partition_Information st)"
  shows "part_inv winv lo hi R (st\<lparr>partitions := (partitions st)(x := (partitions st x)\<lparr>buffers := (buffers (partitions st x))(a := v)\<rparr>)\<rparr>) m"
proof -
  have s: "part_sim lo hi st m" using i by (simp add: part_inv_def)
  obtain q b where q: "m j = Some q" "b \<in> p_used q" "unat b \<le> unat a" "unat a + 8 \<le> unat b + p_size q" using ok by (auto split: option.splits)
  obtain y where l: "live (Partition_Information st) j = Some y" using part_simD(4) [OF s q(1)] by blast
  obtain q' where p: "m j = Some q'" "part_rep y (partitions st y) q'" "part_wf lo hi q'" "lo \<le> unat y" "unat y + 88 \<le> hi" "hi < 2 ^ 64"
    "x = y" using part_inv_live [OF i l] x_def by metis
  have e: "q' = q" using p(1) q(1) by simp
  have "m(j := Some q) = m" using q(1) by auto
  then show ?thesis
    using part_inv_update [OF i l q(1) part_write [OF p(2-6) [unfolded e] q(2-4), of v] p(3) [unfolded e] refl] p(7) by simp
qed

section \<open>Creating and deleting\<close>

lemma part_sim_info:
  assumes "part_sim lo hi st m" and "live info = live (Partition_Information st)" and "object_name info = object_name (Partition_Information st)"
    and "object_size info = object_size (Partition_Information st)"
  shows "part_sim lo hi (st\<lparr>Partition_Information := info\<rparr>) m"
proof -
  have "part_entry lo hi (st\<lparr>Partition_Information := info\<rparr>) = part_entry lo hi st" using assms(3) by (simp add: part_entry_def fun_eq_iff)
  then show ?thesis using assms by (simp add: part_sim_def)
qed

lemma part_sim_open:
  assumes s: "part_sim lo hi st m" and l: "live info = (live (Partition_Information st))(i := Some x)" and x: "x \<notin> ran (live (Partition_Information st))"
    and n: "object_name info = (object_name (Partition_Information st))(x := part_name q)" and z: "object_size info = object_size (Partition_Information st)"
    and c: "part_rep x c q" "part_wf lo hi q"
  shows "part_sim lo hi (st\<lparr>Partition_Information := info, partitions := (partitions st)(x := c)\<rparr>) (m(i := Some q))"
proof -
  let ?st = "st\<lparr>Partition_Information := info, partitions := (partitions st)(x := c)\<rparr>"
  have e: "part_entry lo hi ?st y = part_entry lo hi st y" if "y \<noteq> x" for y using that n by (simp add: part_entry_def fun_eq_iff)
  have "rel_option (part_entry lo hi ?st) (live info j) ((m(i := Some q)) j)" for j
  proof (cases "j = i")
    case True
    then show ?thesis using l c n by (simp add: part_entry_def)
  next
    case False
    have r: "rel_option (part_entry lo hi st) (live (Partition_Information st) j) (m j)" using s by (simp add: part_sim_def)
    have "y \<noteq> x" if "live (Partition_Information st) j = Some y" for y using x that by (auto simp: ran_def)
    then show ?thesis using r False l e by (cases "live (Partition_Information st) j"; cases "m j") simp_all
  qed
  then show ?thesis using s z by (simp add: part_sim_def)
qed

lemma part_sim_close:
  assumes s: "part_sim lo hi st m" and l: "live info = (live (Partition_Information st))(i := None)" and x: "live (Partition_Information st) i = Some x"
    and inj: "\<And>j. live (Partition_Information st) j = Some x \<Longrightarrow> j = i"
    and n: "object_name info = (object_name (Partition_Information st))(x := 0)" and z: "object_size info = object_size (Partition_Information st)"
  shows "part_sim lo hi (st\<lparr>Partition_Information := info\<rparr>) (m(i := None))"
proof -
  let ?st = "st\<lparr>Partition_Information := info\<rparr>"
  have e: "part_entry lo hi ?st y = part_entry lo hi st y" if "y \<noteq> x" for y using that n by (simp add: part_entry_def fun_eq_iff)
  have "rel_option (part_entry lo hi ?st) (live info j) ((m(i := None)) j)" for j
  proof (cases "j = i")
    case False
    have r: "rel_option (part_entry lo hi st) (live (Partition_Information st) j) (m j)" using s by (simp add: part_sim_def)
    have "y \<noteq> x" if "live (Partition_Information st) j = Some y" for y using inj that False by auto
    then show ?thesis using r False l e by (cases "live (Partition_Information st) j"; cases "m j") simp_all
  qed (simp add: l)
  then show ?thesis using s z by (simp add: part_sim_def)
qed

context workspace
begin

lemma part_create_ok:
  assumes i: "part_inv winv lo hi R st m" and ok: "part_call_ok lo hi m (Part_create name start len sz attrs p)"
  shows "\<exists>sc r st' m'. rtems_partition_create walloc wfree name start len sz attrs p st = Some (Returns (sc, r, st'))
    \<and> part_inv winv lo hi R st' m' \<and> part_spec m (Part_create name start len sz attrs p) (Part_id sc r) m'"
proof (cases "name = 0 \<or> start = 0 \<or> \<not> p \<or> len = 0 \<or> sz = 0 \<or> len < sz \<or> \<not> Partition_Is_buffer_size_aligned sz \<or> \<not> Addresses_Is_aligned start")
  case True
  then show ?thesis using i by (auto simp: rtems_partition_create_def rtems_is_name_valid_def)
next
  case v: False
  have a: "part_area lo hi start (unat len) (unat sz)" using ok v by auto
  have c: "class_inv winv lo hi R (Partition_Information st)" and s: "part_sim lo hi st m" using i by (auto simp: part_inv_def)
  have e: "rtems_partition_create walloc wfree name start len sz attrs p st =
      bind_result (Objects_Allocate_unprotected walloc wfree (Partition_Information st)) (\<lambda>(the_partition, info).
        if the_partition = 0 then Some (Returns (RTEMS_TOO_MANY, None, st\<lparr>Partition_Information := info\<rparr>))
        else let control = Partition_Initialize start len sz attrs ((partitions st the_partition)\<lparr>Memory := the_partition + 64\<rparr>);
                 info = Objects_Open_u32 the_partition name info
             in Some (Returns (RTEMS_SUCCESSFUL, Some (object_id info the_partition),
                  st\<lparr>Partition_Information := info, partitions := (partitions st)(the_partition := control)\<rparr>)))"
    using v by (simp add: rtems_partition_create_def rtems_is_name_valid_def)
  from c show ?thesis
  proof (cases rule: create_object)
    case (full s')
    have "part_inv winv lo hi R (st\<lparr>Partition_Information := s'\<rparr>) m"
      using full(2) part_sim_info [OF s full(3,4)] full(6) by (simp add: part_inv_def same_class_def)
    then show ?thesis using e full(1) v by auto
  next
    case (made x s')
    let ?o = "Objects_Open_u32 x name s'" and ?c = "Partition_Initialize start len sz attrs ((partitions st x)\<lparr>Memory := x + 64\<rparr>)"
      and ?q = "\<lparr>part_name = name, p_start = start, p_len = unat len, p_size = unat sz, p_free = part_all start (unat len) (unat sz), p_used = {}\<rparr>"
    have id: "object_id ?o x = object_id s' x" and zs: "object_size ?o = object_size (Partition_Information st)"
      using made(7) by (simp_all add: Objects_Open_u32_def Objects_Set_local_object_def same_class_def)
    have "live ?o (object_id s' x) = Some x" using made(9) by simp
    note r = class_inv_range [OF made(8) this]
    have o: "osz ?o = 88" using zs part_simD(1) [OF s] by simp
    note P = part_created [OF a r [unfolded o]]
    have "part_inv winv lo hi R (st\<lparr>Partition_Information := ?o, partitions := (partitions st)(x := ?c)\<rparr>) (m(object_id s' x := Some ?q))"
      unfolding part_inv_def using made(8) part_sim_open [OF s made(9) made(6) _ zs P(1) P(2)] made(10) by simp
    moreover have "m (object_id s' x) = None" using part_simD(2) [OF s made(5)] .
    moreover have "rtems_partition_create walloc wfree name start len sz attrs p st =
       Some (Returns (RTEMS_SUCCESSFUL, Some (object_id s' x), st\<lparr>Partition_Information := ?o, partitions := (partitions st)(x := ?c)\<rparr>))"
      unfolding e made(2) using made(1) id by (simp add: Let_def)
    ultimately show ?thesis using v by auto
  qed
qed

lemma part_delete_ok:
  assumes i: "part_inv winv lo hi R st m"
  shows "\<exists>sc st' m'. rtems_partition_delete wfree j st = Some (sc, st')
    \<and> part_inv winv lo hi R st' m' \<and> part_spec m (Part_delete j) (Part_id sc None) m'"
proof (cases "live (Partition_Information st) j")
  case None
  have s: "part_sim lo hi st m" using i by (simp add: part_inv_def)
  show ?thesis using None i part_simD(2) [OF s None] by (auto simp: rtems_partition_delete_def Get_live(1))
next
  case (Some x)
  have c: "class_inv winv lo hi R (Partition_Information st)" and s: "part_sim lo hi st m" using i by (auto simp: part_inv_def)
  obtain q where q: "m j = Some q" "part_rep x (partitions st x) q" "part_wf lo hi q" "Objects_Get j (Partition_Information st) = x" "x \<noteq> 0"
    "\<And>k. live (Partition_Information st) k = Some x \<Longrightarrow> k = j" using part_inv_live [OF i Some] by metis
  note u = part_in_use [OF q(2,3)]
  show ?thesis
  proof (cases "p_used q = {}")
    case False
    have "rtems_partition_delete wfree j st = Some (RTEMS_RESOURCE_IN_USE, st)"
      using u False q(4,5) by (simp add: rtems_partition_delete_def)
    then show ?thesis using i False q(1) by auto
  next
    case True
    obtain s' where d: "Objects_Free wfree x (Objects_Close x (Partition_Information st)) = Some s'" "class_inv winv lo hi R s'"
      "live s' = (live (Partition_Information st))(j := None)" "object_name s' = (object_name (Partition_Information st))(x := 0)"
      "same_class (Partition_Information st) s'" by (rule delete_object [OF c Some])
    have "part_inv winv lo hi R (st\<lparr>Partition_Information := s'\<rparr>) (m(j := None))"
      using d(2,5) part_sim_close [OF s d(3) Some q(6) d(4)] by (simp add: part_inv_def same_class_def)
    moreover have "rtems_partition_delete wfree j st = Some (RTEMS_SUCCESSFUL, st\<lparr>Partition_Information := s'\<rparr>)"
      using u True q(4,5) d(1) by (simp add: rtems_partition_delete_def)
    ultimately show ?thesis using True q(1) by auto
  qed
qed

lemma part_call_step:
  assumes i: "part_inv winv lo hi R st m" and ok: "part_call_ok lo hi m c"
  shows "\<exists>r st' m'. part_call walloc wfree c st = Some (Returns (r, st')) \<and> part_inv winv lo hi R st' m' \<and> part_spec m c r m'"
proof (cases c)
  case (Part_create name start len sz attrs p)
  then show ?thesis using part_create_ok [OF i ok [unfolded Part_create]] by (fastforce simp: part_call_def simp del: part_spec.simps)
next
  case (Part_delete j)
  then show ?thesis using part_delete_ok [OF i, of j] by (fastforce simp: part_call_def simp del: part_spec.simps)
next
  case (Part_get j p)
  then show ?thesis using part_get_ok [OF i, of j p] by (fastforce simp: part_call_def simp del: part_spec.simps)
next
  case (Part_return j b)
  then show ?thesis using part_return_ok [OF i ok [unfolded Part_return]] by (fastforce simp: part_call_def simp del: part_spec.simps)
next
  case (Part_ident name p)
  then show ?thesis using part_ident_ok [OF i, of name p] i by (fastforce simp: part_call_def split_beta simp del: part_spec.simps)
next
  case (Part_write j a v)
  then show ?thesis using part_write_ok [OF i ok [unfolded Part_write]] by (auto simp: part_call_def Let_def)
qed

text \<open>The directives conform to the specification up to the first call with which the application breaks its obligations.\<close>

theorem part_calls_ok:
  assumes "part_inv winv lo hi R st m"
  shows "\<exists>k rs st' m'. k \<le> length cs \<and> part_calls walloc wfree (take k cs) st = Some (Returns (rs, st')) \<and> part_specs lo hi m (take k cs) rs m'
    \<and> part_inv winv lo hi R st' m' \<and> (k < length cs \<longrightarrow> \<not> part_call_ok lo hi m' (cs ! k))"
  using assms
proof (induction cs arbitrary: st m)
  case Nil
  then show ?case by (auto intro: part_specs.none)
next
  case (Cons c cs)
  show ?case
  proof (cases "part_call_ok lo hi m c")
    case False
    then show ?thesis using Cons.prems by (intro exI [of _ 0]) (auto intro: part_specs.none)
  next
    case True
    obtain r st1 m1 where 1: "part_call walloc wfree c st = Some (Returns (r, st1))" "part_inv winv lo hi R st1 m1" "part_spec m c r m1"
      using part_call_step [OF Cons.prems True] by blast
    obtain k rs st2 m2 where 2: "k \<le> length cs" "part_calls walloc wfree (take k cs) st1 = Some (Returns (rs, st2))" "part_specs lo hi m1 (take k cs) rs m2"
      "part_inv winv lo hi R st2 m2" "k < length cs \<longrightarrow> \<not> part_call_ok lo hi m2 (cs ! k)" using Cons.IH [OF 1(2)] by blast
    have "part_calls walloc wfree (take (Suc k) (c # cs)) st = Some (Returns (r # rs, st2))" using 1(1) 2(2) by simp
    moreover have "part_specs lo hi m (take (Suc k) (c # cs)) (r # rs) m2" using part_specs.call [OF True 1(3) 2(3)] by simp
    ultimately show ?thesis using 2(1,4,5) by (intro exI [of _ "Suc k"]) auto
  qed
qed

end

end
