(* ===== verification/Objects_Props.thy ===== *)
theory Objects_Props
  imports Partitions_Refine
begin

text \<open>The properties of the Object Handler and of the Partition Manager, each with a concrete system it applies to.\<close>

section \<open>The Partition Manager\<close>












section \<open>The Object Handler\<close>

lemma request_auto: "Objects_request walloc n s = Some (Returns (p, s')) \<Longrightarrow> auto_extend s' = auto_extend s"
  by (auto simp: Objects_request_def bind_result_def split: option.splits outcome.splits prod.splits)

lemma new_tables_auto: "auto_extend (Objects_new_tables m bc ib ie nm addr s) = auto_extend s"
  by (simp add: Objects_new_tables_def Let_def split: prod.splits)

lemma append_loop_auto: "auto_extend (Objects_append_loop n x i s) = auto_extend s"
  by (induction n arbitrary: x i s) (simp_all add: Let_def)

lemma add_block_auto: "auto_extend (Objects_add_block b ib ie p s) = auto_extend s"
  by (simp add: Objects_add_block_def Let_def append_loop_auto)

lemma Extend_auto: "Objects_Extend_information walloc wfree s = Some (Returns s') \<Longrightarrow> auto_extend s' = auto_extend s"
  by (auto simp: Objects_Extend_information_def Let_def bind_result_def new_tables_auto add_block_auto
      split: option.splits outcome.splits prod.splits if_splits dest!: request_auto)

lemma Do_initialize_auto:
  assumes "Objects_Do_initialize_information walloc wfree api cls mo sz nl s = Some (Returns s')"
  shows "auto_extend s' = Objects_Is_unlimited mo"
  using assms unfolding Objects_Do_initialize_information_def Let_def by (auto split: if_splits dest!: Extend_auto)

lemma Allocate_fixed_full:
  assumes c: "class_inv winv lo hi R s" and a: "\<not> auto_extend s"
  shows "\<exists>x s'. Objects_Allocate_unprotected walloc wfree s = Some (Returns (x, s')) \<and> (x = 0 \<longleftrightarrow> card (dom (live s)) = unat (maximum s))"
proof -
  obtain L xs where r: "class_base lo hi L s xs" and o: "objs s \<subseteq> set xs \<union> ran (live s)" using c by (rule class_invE)
  note D = class_baseD [OF r] and f = fixed_capacity(2) [OF c a]
  have nz: "object_size s \<noteq> 0" using sizes_okD(2) [OF D(2)] by auto
  from D(5) show ?thesis
  proof (cases rule: Get_inactive_cases)
    case none
    then show ?thesis using nz a o f by (simp add: Objects_Allocate_unprotected_def)
  next
    case (some x ys m)
    have x: "x \<in> objs s" "x \<in> set xs" using some(1) D(6) by auto
    then have "\<not> objs s \<subseteq> ran (live s)" using live_objs [OF r] by blast
    moreover have "x \<noteq> 0" using x(1) obj_unat(6) [OF D(1,3)] by (auto simp: objs_def) (metis less_irrefl unsigned_0)
    ultimately show ?thesis using nz a some(2) f by (simp add: Objects_Allocate_unprotected_def)
  qed
qed

text \<open>A class of one object of 100 bytes over the example heap.\<close>

lemma ex_second: "\<exists>p w. Heap_Allocate (fst (snd ex_used)) 32 (snd (snd ex_used)) = Some (p, w) \<and> p \<noteq> 0"
proof -
  obtain fs where r: "heap_rep (fst (snd ex_used)) (snd (snd ex_used)) 1000 [(120, True), (864, False)] fs" using ex_used_rep(1) by blast
  obtain p w where "Heap_Allocate_aligned_with_boundary (fst (snd ex_used)) 32 0 0 (snd (snd ex_used)) = Some (p, w)"
    "p = 0 \<longrightarrow> (\<forall>b\<in>set [(120, True), (864, False)]. snd b \<or> fst b < unat (32 :: uintptr) + 8)"
    using Heap_Allocate_result [OF r, of 32 0 0] by metis
  then show ?thesis by (auto simp: Heap_Allocate_def)
qed

lemma ex_first: "Heap_Allocate (fst (snd ex_init)) 100 (snd (snd ex_init)) = Some ex_used"
proof -
  obtain r where "Heap_Allocate (fst (snd ex_init)) 100 (snd (snd ex_init)) = Some r"
    using Heap_Allocate_result [OF ex_init_rep, of 100 0 0] unfolding Heap_Allocate_def by blast
  then show ?thesis by (simp add: ex_used_def)
qed

lemma ex_single:
  "\<exists>s. Objects_Do_initialize_information Workspace_Allocate Workspace_Free 2 7 1 100 4 ex_class = Some (Returns s)"
proof -
  obtain p w where p: "Heap_Allocate (fst (snd ex_used)) 32 (snd (snd ex_used)) = Some (p, w)" "p \<noteq> 0" using ex_second by blast
  have m: "Objects_Maximum_per_allocation 1 = 1" "\<not> Objects_Is_unlimited 1" by (simp_all add: Objects_Maximum_per_allocation_def Objects_Is_unlimited_def)
  have al: "Addresses_Align_up 8 8 = 8" "Addresses_Align_up 4 8 = 8" by (simp_all add: Addresses_Align_up_def Let_def)
  have u: "fst ex_used \<noteq> 0" using ex_used_rep(2) by simp
  obtain x w1 where w1: "ex_used = (x, w1)" by (cases ex_used)
  show ?thesis
    using p u ex_first
    by (simp add: Objects_Do_initialize_information_def Let_def m Objects_Extend_information_def ex_class_def Objects_request_def
        Workspace_Allocate_or_fatal_error_def Workspace_Allocate_def bind_result_def al w1)
qed

lemma ex_single_class:
  obtains a S s where "Objects_Do_initialize_information Workspace_Allocate Workspace_Free 2 7 1 100 4 ex_class = Some (Returns s)"
    "class_inv (ws_inv a S) a (a + S + 8) (\<lambda>_. None) s" "live s = (\<lambda>_. None)" "\<not> auto_extend s"
proof -
  have b: "boot_ok ex_control 1000 1000 8 (Inactive ex_class) 1 100"
    by (simp add: boot_ok_def ex_control_def ex_class_def Objects_Maximum_per_allocation_def Objects_Is_unlimited_def)
  obtain a S s where s: "Objects_Do_initialize_information Workspace_Allocate Workspace_Free 2 7 1 100 4 ex_class = Some (Returns s)"
    "class_inv (ws_inv a S) a (a + S + 8) (\<lambda>_. None) s" "live s = (\<lambda>_. None)"
    using class_boot [OF b ex_heap, of 2 7 4] ex_single by auto
  have "\<not> Objects_Is_unlimited 1" by (simp add: Objects_Is_unlimited_def)
  then have "\<not> auto_extend s" using s(1) Do_initialize_auto by metis
  then show thesis using that s by blast
qed

lemma live_fields:
  assumes c: "class_inv winv lo hi R s" and t: "the_api s < 8" "the_class s < 32" and l: "live s i = Some x"
  shows "Objects_Get_API i = the_api s \<and> Objects_Get_class i = ucast (the_class s) \<and> Objects_Get_node i = 1
    \<and> 0 < Objects_Get_index i \<and> Objects_Get_index i \<le> maximum s"
proof -
  obtain L xs where r: "class_base lo hi L s xs" using c by (rule class_invE)
  obtain n where n: "n < unat (maximum s)" "i = id_of s (Suc n)" "unat (Objects_Get_index i) = Suc n" using live_at_index [OF r l] by metis
  have "0 < unat (Objects_Get_index i)" "unat (Objects_Get_index i) \<le> unat (maximum s)" using n by simp_all
  then show ?thesis using t unfolding n(2)
    by (simp add: id_of_def Get_API_Build_id Get_class_Build_id Get_node_Build_id Objects_Local_node_def word_less_nat_alt word_le_nat_alt)
qed

text \<open>C16: After any sequence of directives the identifier of every port is well typed: its API is the Classic API, its class that of ports, its
  node the local one, and its index lies between one and the maximum of the class. A value with
  other fields is the identifier of no port.\<close>
theorem port_ids_typed:
  assumes "boot_ok h b n pg (Inactive (Dual_ported_memory_Information st)) maximum_ports 56"
    and "Heap_Initialize h b n pg m = (r, ws (Dual_ported_memory_Information st))" "r \<noteq> 0"
    and "Dual_ported_memory_Manager_initialization Workspace_Allocate Workspace_Free maximum_ports st = Some (Returns st0)"
    and "port_calls Workspace_Allocate Workspace_Free cs st0 = Some (Returns (rs, st'))"
  shows "port_abs st' i = None \<or> Objects_Get_API i = 2 \<and> Objects_Get_class i = 7 \<and> Objects_Get_node i = 1
    \<and> 0 < Objects_Get_index i \<and> Objects_Get_index i \<le> maximum (Dual_ported_memory_Information st')"
  using assms(1-3)
proof (cases rule: ports_boot)
  case fatal
  then show ?thesis using assms(4) by simp
next
  case (up a S st1)
  have e: "st1 = st0" using up(1) assms(4) by simp
  obtain rs' st2 where r: "port_calls Workspace_Allocate Workspace_Free cs st1 = Some (Returns (rs', st2))"
    "class_inv (ws_inv a S) a (a + S + 8) (\<lambda>_. None) (Dual_ported_memory_Information st2)"
    "same_class (Dual_ported_memory_Information st1) (Dual_ported_memory_Information st2)" using ports_run [OF up(2)] by blast
  have st: "st2 = st'" using r(1) assms(5) e by simp
  have f: "the_api (Dual_ported_memory_Information st') = 2" "the_class (Dual_ported_memory_Information st') = 7"
    using r(3) up(4,5) by (simp_all add: same_class_def st)
  show ?thesis using live_fields [OF r(2), of i] f unfolding st by (cases "live (Dual_ported_memory_Information st') i") (simp_all add: port_abs_def)
qed

theorem port_ids_typed_witness:
  "\<exists>st0 rs st'. Dual_ported_memory_Manager_initialization Workspace_Allocate Workspace_Free 0x80000002 ex_ports = Some (Returns st0)
     \<and> port_calls Workspace_Allocate Workspace_Free [Port_create 1 4096 8192 16 True] st0 = Some (Returns (rs, st')) \<and> port_abs st' 5 = None"
proof -
  have i: "Dual_ported_memory_Information ex_ports = ex_class" by (simp add: ex_ports_def)
  have u: "Objects_Is_unlimited 0x80000002" "24 \<le> (56 :: uint16)" by (simp_all add: Objects_Is_unlimited_def)
  have b: "boot_ok ex_control 1000 1000 8 (Inactive (Dual_ported_memory_Information ex_ports)) 0x80000002 56" unfolding i ex_boot by (rule u(2))
  have h: "Heap_Initialize ex_control 1000 1000 8 ex_memory = (fst ex_init, ws (Dual_ported_memory_Information ex_ports))" "fst ex_init \<noteq> 0"
    unfolding i by (rule ex_heap)+
  obtain a S st0 where s: "Dual_ported_memory_Manager_initialization Workspace_Allocate Workspace_Free 0x80000002 ex_ports = Some (Returns st0)"
    "class_inv (ws_inv a S) a (a + S + 8) (\<lambda>_. None) (Dual_ported_memory_Information st0)" using b h u(1) by (cases rule: ports_boot) auto
  obtain rs st' where r: "port_calls Workspace_Allocate Workspace_Free [Port_create 1 4096 8192 16 True] st0 = Some (Returns (rs, st'))"
    using ports_run [OF s(2)] by blast
  have "Objects_Get_class 5 = 0" by (simp add: Objects_Get_class_def)
  then have "port_abs st' 5 = None" using port_ids_typed [OF b h s(1) r, of 5] by simp
  then show ?thesis using s(1) r by blast
qed

text \<open>C15: A class of fixed size never has more open objects than its maximum, and an allocation fails exactly when it has so many.\<close>
theorem Objects_fixed_capacity:
  assumes "class_inv (ws_inv a S) lo hi R s" and "\<not> auto_extend s"
  shows "card (dom (live s)) \<le> unat (maximum s)
    \<and> (\<exists>x s'. Objects_Allocate_unprotected Workspace_Allocate Workspace_Free s = Some (Returns (x, s')) \<and> (x = 0 \<longleftrightarrow> card (dom (live s)) = unat (maximum s)))"
  using fixed_capacity(1) [OF assms] Allocate_fixed_full [OF assms] by blast

theorem Objects_fixed_capacity_witness:
  "\<exists>s x s'. Objects_Do_initialize_information Workspace_Allocate Workspace_Free 2 7 1 100 4 ex_class = Some (Returns s)
     \<and> Objects_Allocate_unprotected Workspace_Allocate Workspace_Free s = Some (Returns (x, s')) \<and> (x = 0 \<longleftrightarrow> 0 = unat (maximum s))"
proof -
  obtain a S s where s: "Objects_Do_initialize_information Workspace_Allocate Workspace_Free 2 7 1 100 4 ex_class = Some (Returns s)"
    "class_inv (ws_inv a S) a (a + S + 8) (\<lambda>_. None) s" "live s = (\<lambda>_. None)" "\<not> auto_extend s" by (rule ex_single_class)
  have "dom (live s) = {}" unfolding s(3) by simp
  then show ?thesis using Objects_fixed_capacity [OF s(2,4)] s(1) by auto
qed

text \<open>C20: \<^verbatim>\<open>_Objects_Active_count\<close> is the number of open objects and, for every block that was given back to the workspace, the number of
  objects of a block: after a class has shrunk it counts objects that do not exist.\<close>
theorem Objects_Active_count_exact:
  assumes "class_inv (ws_inv a S) lo hi R s"
  shows "Objects_Active_count s = Some (of_nat (card (dom (live s)) + unat (allocation_size s) * length (filter (\<lambda>b. b = 0) (object_blocks s))))"
  by (rule Active_count_live [OF assms])

theorem Objects_Active_count_exact_witness:
  "\<exists>s. Objects_Do_initialize_information Workspace_Allocate Workspace_Free 2 7 1 100 4 ex_class = Some (Returns s) \<and> Objects_Active_count s = Some 0"
proof -
  obtain a S s where s: "Objects_Do_initialize_information Workspace_Allocate Workspace_Free 2 7 1 100 4 ex_class = Some (Returns s)"
    "class_inv (ws_inv a S) a (a + S + 8) (\<lambda>_. None) s" "live s = (\<lambda>_. None)" "\<not> auto_extend s" by (rule ex_single_class)
  have d: "dom (live s) = {}" unfolding s(3) by simp
  have "0 \<notin> set (object_blocks s)" using s(2,4) by (auto simp: class_inv_def)
  then have "filter (\<lambda>b. b = 0) (object_blocks s) = []" by (metis (full_types) filter_False)
  then show ?thesis using Objects_Active_count_exact [OF s(2)] s(1) d by auto
qed

text \<open>A class with one object per block that is extended for the second time.\<close>

definition ex_lost :: "unit Objects_Information" where
  "ex_lost = \<lparr>the_api = 2, the_class = 7, minimum_id = Objects_Build_id 2 7 1 1, maximum_id = Objects_Build_id 2 7 1 1, maximum = 1, auto_extend = True,
     allocation_size = 1, object_size = 56, local_table = [0, 1016], Inactive = 200, inactive = 0, inactive_per_block = [0], tables = 1100,
     object_blocks = [1016], name_length = 4, nodes = \<lambda>_. 0, object_id = \<lambda>_. Objects_Build_id 2 7 1 1, object_name = \<lambda>_. 0, ws = (), uninit = \<lambda>_. 7\<rparr>"

lemma upt_small: "[0..<2] = [0, Suc 0]" "[0..<3] = [0, Suc 0, 2]"
  by (simp_all add: numeral_eq_Suc)

lemma single_tables:
  assumes "maximum s = 1"
  shows "local_table (Objects_new_tables 1 1 2 3 2 addr s) ! 1 = uninit s (addr + 32)" and "object_blocks (Objects_new_tables 1 1 2 3 2 addr s) ! 0 = uninit s addr"
proof -
  have al: "Addresses_Align_up 16 8 = 16" "Addresses_Align_up 8 8 = 8" by (simp_all add: Addresses_Align_up_def Let_def)
  show "local_table (Objects_new_tables 1 1 2 3 2 addr s) ! 1 = uninit s (addr + 32)" and "object_blocks (Objects_new_tables 1 1 2 3 2 addr s) ! 0 = uninit s addr"
    using assms by (simp_all add: Objects_new_tables_def Let_def write_table_def al upt_small add.assoc)
qed

text \<open>C17: When a class with one object per block is extended for the second time, the maximum is 1, the tables must grow, and the old tables
  are not copied: what the identifier of the first object leads to, and what is taken for its block, is the content of fresh memory.\<close>
theorem Objects_single_tables_lost:
  assumes "auto_extend s" "allocation_size s = 1" "Objects_Get_index (minimum_id s) = 1" "tables s \<noteq> 0"
    and "maximum s = 1" "object_blocks s = [b]" "b \<noteq> 0"
    and "walloc (object_size s) (ws s) = Some (p, w)" "p \<noteq> 0" "walloc 48 w = Some (addr, w')" "addr \<noteq> 0"
  shows "\<exists>s'. Objects_Extend_information walloc wfree s = Some (Returns s') \<and> maximum s' = 2
    \<and> local_table s' ! 1 = uninit s (addr + 32) \<and> object_blocks s' ! 0 = uninit s addr"
proof -
  have al: "Addresses_Align_up 16 8 = 16" "Addresses_Align_up 8 8 = 8" by (simp_all add: Addresses_Align_up_def Let_def)
  let ?t = "Objects_new_tables 1 1 2 3 2 addr (s\<lparr>ws := w'\<rparr>)"
  have e: "Objects_Extend_information walloc wfree s = Some (Returns (Objects_add_block 1 2 3 p (?t\<lparr>ws := wfree (tables s) (ws ?t)\<rparr>)))"
    using assms by (simp add: Objects_Extend_information_def Objects_request_def bind_result_def Let_def al)
  have "maximum ?t = 2" by (simp add: Objects_new_tables_def Let_def split: prod.splits)
  then show ?thesis unfolding e using single_tables [of "s\<lparr>ws := w'\<rparr>" addr] assms(5)
    by (simp add: Objects_add_block_def Let_def numeral_eq_Suc)
qed

theorem Objects_single_tables_lost_witness:
  "\<exists>s'. Objects_Extend_information (\<lambda>n w. Some (if n = 48 then 1200 else 1300, w)) (\<lambda>_ w. w) ex_lost = Some (Returns s') \<and> local_table s' ! 1 = 7"
proof -
  have i: "Objects_Get_index (minimum_id ex_lost) = 1" by (simp add: ex_lost_def)
  show ?thesis using Objects_single_tables_lost [of ex_lost 1016 "\<lambda>n w. Some (if n = 48 then 1200 else 1300, w)" 1300 "()" 1200 "()" "\<lambda>_ w. w"] i
    by (auto simp: ex_lost_def)
qed

end
