(* ===== verification/JFFS2_Rtime.thy ===== *)
theory JFFS2_Rtime
  imports RTEMS_Prelude
begin

text \<open>
  The rtime compressor of the JFFS2 file system, \<^verbatim>\<open>libfs/src/jffs2/src/compr_rtime.c\<close>: every byte is followed by the number of
  bytes after it that repeat what came after the last occurrence of the same byte. Buffers are lists of bytes; a read or
  a write outside a buffer is the value None. The positions in the input and the output are never negative; the table of the last
  occurrences holds 16-bit signed integers, as in the code.
\<close>

section \<open>Definitions\<close>

definition JFFS2_COMPR_NONE :: uint16 where "JFFS2_COMPR_NONE = 0"
definition JFFS2_COMPR_RTIME :: uint16 where "JFFS2_COMPR_RTIME = 2"

definition byte_at :: "uint8 list \<Rightarrow> int \<Rightarrow> uint8 option" where
  "byte_at buf i = (if 0 \<le> i \<and> i < int (length buf) then Some (buf ! nat i) else None)"

text \<open>The run of bytes at \<open>pos\<close> that agree with those at \<open>backpos\<close>: the position behind it and its length.\<close>

function rtime_run :: "uint8 list \<Rightarrow> uint32 \<Rightarrow> int \<Rightarrow> nat \<Rightarrow> nat \<Rightarrow> (nat \<times> nat) option" where
  "rtime_run data_in sourcelen backpos pos runlen =
     (if backpos < int pos \<and> pos < unat sourcelen
      then case (byte_at data_in (int pos), byte_at data_in backpos) of
             (Some a, Some b) \<Rightarrow>
               if a = b \<and> runlen < 255 then rtime_run data_in sourcelen (backpos + 1) (pos + 1) (runlen + 1) else Some (pos, runlen)
           | _ \<Rightarrow> None
      else Some (pos, runlen))"
  by pat_completeness auto
termination
  by (relation "measure (\<lambda>(d, n, b, p, r). unat n - p)") auto

declare rtime_run.simps [simp del]

lemma rtime_run_mono: "rtime_run d n b p r = Some (p', r') \<Longrightarrow> p \<le> p'"
  by (induction d n b p r rule: rtime_run.induct) (subst (asm) (2) rtime_run.simps, auto split: if_splits option.splits, meson Suc_leD)

function rtime_compress_loop ::
    "uint8 list \<Rightarrow> uint32 \<Rightarrow> uint32 \<Rightarrow> (uint8 \<Rightarrow> 16 word) \<Rightarrow> nat \<Rightarrow> uint8 list \<Rightarrow> (nat \<times> uint8 list) option" where
  "rtime_compress_loop data_in sourcelen dstlen positions pos cpage_out =
     (if pos < unat sourcelen \<and> of_nat (length cpage_out) \<le> dstlen - 2
      then case byte_at data_in (int pos) of None \<Rightarrow> None
           | Some val \<Rightarrow>
               (case rtime_run data_in sourcelen (sint (positions val)) (pos + 1) 0 of None \<Rightarrow> None
                | Some (pos', runlen) \<Rightarrow>
                    rtime_compress_loop data_in sourcelen dstlen (positions(val := of_nat (pos + 1))) pos'
                      (cpage_out @ [val, of_nat runlen]))
      else Some (pos, cpage_out))"
  by pat_completeness auto
termination
  by (relation "measure (\<lambda>(d, n, k, t, p, out). unat n - p)") (auto dest!: rtime_run_mono)

declare rtime_compress_loop.simps [simp del]

text \<open>The result has the type of the compression, the bytes of the input taken, the length of the output, and the output.\<close>

definition rtems_jffs2_compressor_rtime_compress ::
    "uint8 list \<Rightarrow> uint32 \<Rightarrow> uint32 \<Rightarrow> (uint16 \<times> uint32 \<times> uint32 \<times> uint8 list) option" where
  "rtems_jffs2_compressor_rtime_compress data_in sourcelen dstlen =
     map_option (\<lambda>(pos, cpage_out).
         if length cpage_out \<ge> pos then (JFFS2_COMPR_NONE, sourcelen, dstlen, cpage_out)
         else (JFFS2_COMPR_RTIME, of_nat pos, of_nat (length cpage_out), cpage_out))
       (rtime_compress_loop data_in sourcelen dstlen (\<lambda>_. 0) 0 [])"

text \<open>The output buffer of the decompressor has \<open>destlen\<close> bytes: no byte is put behind them.\<close>

definition put_byte :: "uint32 \<Rightarrow> uint8 \<Rightarrow> uint8 list \<Rightarrow> uint8 list option" where
  "put_byte destlen b cpage_out = (if length cpage_out < unat destlen then Some (cpage_out @ [b]) else None)"

fun rtime_copy :: "uint32 \<Rightarrow> nat \<Rightarrow> int \<Rightarrow> uint8 list \<Rightarrow> uint8 list option" where
  "rtime_copy destlen 0 backoffs cpage_out = Some cpage_out"
| "rtime_copy destlen (Suc repeat) backoffs cpage_out =
     Option.bind (byte_at cpage_out backoffs) (\<lambda>b. Option.bind (put_byte destlen b cpage_out) (rtime_copy destlen repeat (backoffs + 1)))"

definition rtime_memcpy :: "uint32 \<Rightarrow> int \<Rightarrow> nat \<Rightarrow> uint8 list \<Rightarrow> uint8 list option" where
  "rtime_memcpy destlen backoffs repeat cpage_out =
     (if 0 \<le> backoffs \<and> length cpage_out + repeat \<le> unat destlen
      then Some (cpage_out @ take repeat (drop (nat backoffs) cpage_out)) else None)"

lemma rtime_copy_mono: "rtime_copy n k b out = Some out' \<Longrightarrow> length out \<le> length out'"
  by (induction k arbitrary: b out) (fastforce simp: put_byte_def split: bind_splits if_splits)+

lemma rtime_memcpy_mono: "rtime_memcpy n b k out = Some out' \<Longrightarrow> length out \<le> length out'"
  by (auto simp: rtime_memcpy_def split: if_splits)

function rtime_decompress_loop ::
    "uint8 list \<Rightarrow> uint32 \<Rightarrow> (uint8 \<Rightarrow> 16 word) \<Rightarrow> nat \<Rightarrow> uint8 list \<Rightarrow> uint8 list option" where
  "rtime_decompress_loop data_in destlen positions pos cpage_out =
     (if length cpage_out < unat destlen
      then case (byte_at data_in (int pos), byte_at data_in (int pos + 1)) of
             (Some val, Some n) \<Rightarrow>
               (let cpage_out = cpage_out @ [val]; repeat = unat n; backoffs = sint (positions val)
                in case (if repeat = 0 then Some cpage_out
                         else if backoffs + int repeat \<ge> int (length cpage_out) then rtime_copy destlen repeat backoffs cpage_out
                         else rtime_memcpy destlen backoffs repeat cpage_out) of
                     None \<Rightarrow> None
                   | Some cpage_out' \<Rightarrow> rtime_decompress_loop data_in destlen (positions(val := of_nat (length cpage_out))) (pos + 2) cpage_out')
           | _ \<Rightarrow> None
      else Some cpage_out)"
  by pat_completeness auto
termination
  by (relation "measure (\<lambda>(d, n, t, p, out). unat n - length out)")
    (auto split: if_splits dest!: rtime_copy_mono rtime_memcpy_mono)

declare rtime_decompress_loop.simps [simp del]

definition EIO :: int where "EIO = 5"

definition rtems_jffs2_compressor_rtime_decompress :: "uint16 \<Rightarrow> uint8 list \<Rightarrow> uint32 \<Rightarrow> (int \<times> uint8 list) option" where
  "rtems_jffs2_compressor_rtime_decompress comprtype data_in destlen =
     (if comprtype \<noteq> JFFS2_COMPR_RTIME then Some (- EIO, [])
      else map_option (\<lambda>cpage_out. (0, cpage_out)) (rtime_decompress_loop data_in destlen (\<lambda>_. 0) 0 []))"

section \<open>The round trip\<close>

text \<open>Copying \<open>k\<close> bytes that repeat what comes after \<open>b\<close>.\<close>

lemma byte_at_take: "i < n \<Longrightarrow> n \<le> length d \<Longrightarrow> byte_at (take n d) (int i) = Some (d ! i)"
  by (simp add: byte_at_def)

lemma rtime_copy_repeat:
  assumes "\<forall>j < k. d ! (p + j) = d ! (b + j)" and "b < p" and "p + k \<le> length d" and "p + k \<le> unat n"
  shows "rtime_copy n k (int b) (take p d) = Some (take (p + k) d)"
  using assms
proof (induction k arbitrary: b p)
  case (Suc k)
  have "d ! p = d ! b" using Suc.prems(1) by (metis Nat.add_0_right zero_less_Suc)
  moreover have "take p d @ [d ! p] = take (Suc p) d" using Suc.prems(3) by (simp add: take_Suc_conv_app_nth)
  ultimately have w: "put_byte n (d ! b) (take p d) = Some (take (Suc p) d)" using Suc.prems(3,4) by (simp add: put_byte_def)
  have "\<forall>j < k. d ! (Suc p + j) = d ! (Suc b + j)" using Suc.prems(1) by (metis Suc_less_eq add_Suc_shift)
  then have "rtime_copy n k (int (Suc b)) (take (Suc p) d) = Some (take (Suc p + k) d)" using Suc.IH [of "Suc p" "Suc b"] Suc.prems by simp
  then show ?case using byte_at_take [of b p d] Suc.prems(2,3) w by (simp add: add.commute)
qed simp

lemma rtime_memcpy_repeat:
  assumes "\<forall>j < k. d ! (p + j) = d ! (b + j)" and "b + k < p" and "p + k \<le> length d" and "p + k \<le> unat n"
  shows "rtime_memcpy n (int b) k (take p d) = Some (take (p + k) d)"
proof -
  have "take k (drop b (take p d)) = take k (drop p d)"
    by (rule nth_equalityI) (use assms in \<open>auto simp: add.commute\<close>)
  then show ?thesis using assms by (simp add: rtime_memcpy_def take_add)
qed

lemma rtime_run_repeat:
  assumes "rtime_run d n (int b) p r = Some (p', r')" and "b < p" and "unat n \<le> length d" and "p \<le> unat n" and "r \<le> 255"
  shows "p' \<le> unat n \<and> r' \<le> 255 \<and> p' + r = p + r' \<and> r \<le> r' \<and> (\<forall>j < r' - r. d ! (p + j) = d ! (b + j))"
  using assms
proof (induction "unat n - p" arbitrary: b p r)
  case 0
  then show ?case by (subst (asm) rtime_run.simps) auto
next
  case (Suc k)
  show ?case
  proof (cases "p < unat n \<and> d ! p = d ! b \<and> r < 255")
    case True
    then have "rtime_run d n (int (Suc b)) (Suc p) (Suc r) = Some (p', r')"
      using Suc.prems by (subst (asm) rtime_run.simps) (auto simp: byte_at_def add.commute)
    then have i: "p' \<le> unat n \<and> r' \<le> 255 \<and> p' + Suc r = Suc p + r' \<and> Suc r \<le> r' \<and> (\<forall>j < r' - Suc r. d ! (Suc p + j) = d ! (Suc b + j))"
      using Suc.hyps(1) [of "Suc p" "Suc b" "Suc r"] Suc.hyps(2) Suc.prems True by auto
    have "d ! (p + j) = d ! (b + j)" if "j < r' - r" for j using i that True by (cases j) auto
    then show ?thesis using i by auto
  next
    case False
    then show ?thesis using Suc.prems by (subst (asm) rtime_run.simps) (auto simp: byte_at_def split: if_splits)
  qed
qed

lemma rtime_run_returns:
  assumes "0 \<le> b" and "unat n \<le> length d"
  shows "\<exists>p' r'. rtime_run d n b p r = Some (p', r')"
  using assms
proof (induction d n b p r rule: rtime_run.induct)
  case (1 d n b p r)
  show ?case
  proof (cases "b < int p \<and> p < unat n")
    case True
    then have "byte_at d (int p) = Some (d ! p)" "byte_at d b = Some (d ! nat b)" using 1(2,3) by (auto simp: byte_at_def)
    then show ?thesis using 1 True by (subst rtime_run.simps) simp
  next
    case False
    then have "rtime_run d n b p r = Some (p, r)" by (subst rtime_run.simps) auto
    then show ?thesis by blast
  qed
qed

text \<open>Every entry of the table is a position of the input that was passed.\<close>

definition table_ok :: "(uint8 \<Rightarrow> 16 word) \<Rightarrow> nat \<Rightarrow> bool" where
  "table_ok t p \<longleftrightarrow> (\<forall>v. \<exists>b \<le> p. sint (t v) = int b)"

lemma sint_of_nat_16: "p < 2 ^ 15 \<Longrightarrow> sint (of_nat p :: 16 word) = int p"
  by (simp add: signed_of_nat signed_take_bit_int_eq_self)

lemma table_ok_0: "table_ok (\<lambda>_. 0) 0"
  by (simp add: table_ok_def)

lemma table_ok_step:
  assumes "table_ok t p" and "p < q" and "q \<le> p'" and "q < 2 ^ 15"
  shows "table_ok (t(v := of_nat q)) p'"
  unfolding table_ok_def
proof
  fix w
  show "\<exists>b \<le> p'. sint ((t(v := of_nat q)) w) = int b"
  proof (cases "w = v")
    case True
    then show ?thesis using assms(3) sint_of_nat_16 [OF assms(4)] by auto
  next
    case False
    obtain b where "b \<le> p" "sint (t w) = int b" using assms(1) unfolding table_ok_def by blast
    then show ?thesis using False assms(2,3) by (intro exI [of _ b]) simp
  qed
qed

lemma decompress_step:
  assumes "byte_at c (int i) = Some (d ! p)" and "byte_at c (int i + 1) = Some (of_nat r)" and "r \<le> 255"
    and "sint (t (d ! p)) = int b" and "b \<le> p" and "\<forall>j < r. d ! (Suc p + j) = d ! (b + j)" and "Suc p + r \<le> unat m" and "Suc p + r \<le> length d"
  shows "rtime_decompress_loop c m t i (take p d) = rtime_decompress_loop c m (t(d ! p := of_nat (Suc p))) (i + 2) (take (Suc p + r) d)"
proof -
  have r: "unat (of_nat r :: uint8) = r" using assms(3) by (simp add: unsigned_of_nat take_bit_nat_eq_self)
  have s: "take p d @ [d ! p] = take (Suc p) d" using assms(8) by (simp add: take_Suc_conv_app_nth)
  have l: "length (take p d) < unat m" "length (take (Suc p) d) = Suc p" using assms(7,8) by simp_all
  have "(if r = 0 then Some (take (Suc p) d)
         else if int b + int r \<ge> int (Suc p) then rtime_copy m r (int b) (take (Suc p) d) else rtime_memcpy m (int b) r (take (Suc p) d))
      = Some (take (Suc p + r) d)"
    using rtime_copy_repeat [OF assms(6) _ assms(8,7)] rtime_memcpy_repeat [OF assms(6) _ assms(8,7)] assms(5) by simp
  then show ?thesis using l by (subst rtime_decompress_loop.simps) (simp only: assms(1,2,4) s r l Let_def if_True option.case prod.case)
qed

lemma compress_step:
  assumes "pos < unat n" and "of_nat (length out) \<le> k - 2" and "unat n \<le> length d" and "table_ok t pos"
  obtains b r where "sint (t (d ! pos)) = int b" "b \<le> pos" "r \<le> 255" "Suc pos + r \<le> unat n" "\<forall>j < r. d ! (Suc pos + j) = d ! (b + j)"
    "rtime_compress_loop d n k t pos out = rtime_compress_loop d n k (t(d ! pos := of_nat (Suc pos))) (Suc pos + r) (out @ [d ! pos, of_nat r])"
proof -
  obtain b where b: "b \<le> pos" "sint (t (d ! pos)) = int b" using assms(4) unfolding table_ok_def by blast
  obtain q r where run: "rtime_run d n (int b) (Suc pos) 0 = Some (q, r)" using rtime_run_returns [of "int b" n d "Suc pos" 0] assms(3) by auto
  have e: "q \<le> unat n" "r \<le> 255" "q = Suc pos + r" "\<forall>j < r. d ! (Suc pos + j) = d ! (b + j)"
    using rtime_run_repeat [OF run] b(1) assms(1,3) by auto
  have "byte_at d (int pos) = Some (d ! pos)" using assms(1,3) by (simp add: byte_at_def)
  then have "rtime_compress_loop d n k t pos out = rtime_compress_loop d n k (t(d ! pos := of_nat (Suc pos))) (Suc pos + r) (out @ [d ! pos, of_nat r])"
    using assms(1,2) b(2) run e(3) by (subst rtime_compress_loop.simps) simp
  then show thesis using that [OF b(2,1) e(2) _ e(4)] e(1,3) by blast
qed

lemma compress_decompress:
  assumes "unat n \<le> length d" and "unat n < 2 ^ 15" and "2 \<le> k" and "p \<le> unat n" and "table_ok t p" and "length out \<le> unat k"
  shows "\<exists>p' s. rtime_compress_loop d n k t p out = Some (p', out @ s) \<and> length (out @ s) \<le> unat k \<and> p \<le> p' \<and> p' \<le> unat n
    \<and> (\<forall>m. unat m = p' \<longrightarrow> rtime_decompress_loop (out @ s) m t (length out) (take p d) = Some (take p' d))"
  using assms(4-6)
proof (induction "unat n - p" arbitrary: p t out rule: less_induct)
  case less
  show ?case
  proof (cases "p < unat n \<and> of_nat (length out) \<le> k - 2")
    case False
    then have "rtime_compress_loop d n k t p out = Some (p, out @ [])" by (subst rtime_compress_loop.simps) auto
    moreover have "rtime_decompress_loop out m t (length out) (take p d) = Some (take p d)" if "unat m = p" for m
      using that assms(1) less.prems(1) by (subst rtime_decompress_loop.simps) simp
    ultimately show ?thesis using less.prems by (intro exI [of _ p] exI [of _ "[]"]) simp
  next
    case True
    then obtain b r where st: "sint (t (d ! p)) = int b" "b \<le> p" "r \<le> 255" "Suc p + r \<le> unat n" "\<forall>j < r. d ! (Suc p + j) = d ! (b + j)"
      "rtime_compress_loop d n k t p out = rtime_compress_loop d n k (t(d ! p := of_nat (Suc p))) (Suc p + r) (out @ [d ! p, of_nat r])"
      using compress_step assms(1) less.prems(2) by metis
    let ?out = "out @ [d ! p, of_nat r]" and ?t = "t(d ! p := of_nat (Suc p))"
    have "unat (of_nat (length out) :: uint32) = length out"
      using less.prems(3) unat_lt2p [of k] by (intro unat_of_nat_small) simp
    then have l: "length ?out \<le> unat k" using True assms(3) by (simp add: word_le_nat_alt unat_sub, linarith)
    have tb: "table_ok ?t (Suc p + r)" using st(4) assms(2) by (intro table_ok_step [OF less.prems(2)]) auto
    have dec: "unat n - (Suc p + r) < unat n - p" using True by linarith
    obtain p' s where ih: "rtime_compress_loop d n k ?t (Suc p + r) ?out = Some (p', ?out @ s)" "length (?out @ s) \<le> unat k" "Suc p + r \<le> p'" "p' \<le> unat n"
      "\<And>m. unat m = p' \<Longrightarrow> rtime_decompress_loop (?out @ s) m ?t (length ?out) (take (Suc p + r) d) = Some (take p' d)"
      using less.hyps [OF dec st(4) tb l] by blast
    have "rtime_decompress_loop (?out @ s) m t (length out) (take p d) = Some (take p' d)" if m: "unat m = p'" for m
    proof -
      have c: "byte_at (?out @ s) (int (length out)) = Some (d ! p)" "byte_at (?out @ s) (int (length out) + 1) = Some (of_nat r)"
        by (simp_all add: byte_at_def nth_append nat_add_distrib)
      have b: "Suc p + r \<le> unat m" "Suc p + r \<le> length d" using ih(3) m st(4) assms(1) by linarith+
      show ?thesis unfolding decompress_step [where d = d and p = p and t = t, OF c st(3,1,2,5) b] using ih(5) [OF m] by simp
    qed
    then show ?thesis using st(6) ih by (intro exI [of _ p'] exI [of _ "[d ! p, of_nat r] @ s"]) auto
  qed
qed

section \<open>Properties\<close>

lemma rtime_correct:
  assumes "unat sourcelen \<le> length data_in" and "unat sourcelen < 2 ^ 15" and "2 \<le> dstlen"
  shows "\<exists>ty n k out. rtems_jffs2_compressor_rtime_compress data_in sourcelen dstlen = Some (ty, n, k, out) \<and> length out \<le> unat dstlen
    \<and> (if ty = JFFS2_COMPR_RTIME
       then n \<le> sourcelen \<and> unat k = length out \<and> k < n \<and> rtems_jffs2_compressor_rtime_decompress ty out n = Some (0, take (unat n) data_in)
       else ty = JFFS2_COMPR_NONE \<and> n = sourcelen \<and> k = dstlen)"
proof -
  obtain p s where c: "rtime_compress_loop data_in sourcelen dstlen (\<lambda>_. 0) 0 [] = Some (p, s)" "length s \<le> unat dstlen" "p \<le> unat sourcelen"
    "\<And>m. unat m = p \<Longrightarrow> rtime_decompress_loop s m (\<lambda>_. 0) 0 [] = Some (take p data_in)"
    using compress_decompress [OF assms _ table_ok_0, of "[]"] by auto
  have w: "unat (of_nat p :: uint32) = p" "unat (of_nat (length s) :: uint32) = length s"
    using c(2,3) unat_lt2p [of sourcelen] unat_lt2p [of dstlen] by (auto intro!: unat_of_nat_small)
  show ?thesis using c w
    by (simp add: rtems_jffs2_compressor_rtime_compress_def rtems_jffs2_compressor_rtime_decompress_def
        JFFS2_COMPR_NONE_def JFFS2_COMPR_RTIME_def word_le_nat_alt word_less_nat_alt)
qed

text \<open>C25: For inputs shorter than 32 KiB and an output buffer of at least two bytes the compressor stays inside its buffers, and when it
  reports success its output is shorter than the input it took and decompresses to exactly that input.\<close>
theorem rtime_roundtrip:
  assumes "unat sourcelen \<le> length data_in" and "unat sourcelen < 2 ^ 15" and "2 \<le> dstlen"
  shows "\<exists>ty n k out. rtems_jffs2_compressor_rtime_compress data_in sourcelen dstlen = Some (ty, n, k, out) \<and> length out \<le> unat dstlen
    \<and> (if ty = JFFS2_COMPR_RTIME
       then n \<le> sourcelen \<and> unat k = length out \<and> k < n \<and> rtems_jffs2_compressor_rtime_decompress ty out n = Some (0, take (unat n) data_in)
       else ty = JFFS2_COMPR_NONE \<and> n = sourcelen \<and> k = dstlen)"
  using assms by (rule rtime_correct)

theorem rtime_roundtrip_witness:
  "rtems_jffs2_compressor_rtime_compress [1, 2, 1, 2, 1, 2, 1, 2] 8 8 = Some (2, 8, 4, [1, 0, 2, 6])
    \<and> rtems_jffs2_compressor_rtime_decompress 2 [1, 0, 2, 6] 8 = Some (0, [1, 2, 1, 2, 1, 2, 1, 2])"
proof -
  have "rtems_jffs2_compressor_rtime_compress [1, 2, 1, 2, 1, 2, 1, 2] 8 8 = Some (2, 8, 4, [1, 0, 2, 6])" by code_simp
  then show ?thesis using rtime_roundtrip [of 8 "[1, 2, 1, 2, 1, 2, 1, 2]" 8] by (simp add: JFFS2_COMPR_RTIME_def)
qed


end
