(* ===== verification/UUID.thy ===== *)
theory UUID
  imports RTEMS_Prelude
begin

text \<open>
  Universally unique identifiers, \<^verbatim>\<open>libmisc/uuid\<close>: the packed form of 16 bytes and the structure with its fields, the text form, the
  order, and generation from the time or from random bytes. A C string is the list of its characters before the terminating zero.
  The readings of \<^verbatim>\<open>gettimeofday\<close> and the random bytes are arguments, and there is no file for the state of the clock.
\<close>

section \<open>Packing\<close>

type_synonym uuid_t = "uint8 list"

record uuid =
  time_low :: uint32
  time_mid :: uint16
  time_hi_and_version :: uint16
  clock_seq :: uint16
  node :: "uint8 list"

definition uuid_pack :: "uuid \<Rightarrow> uuid_t" where
  "uuid_pack uu =
     (let tmp = time_low uu;
          b3 = ucast tmp; tmp = drop_bit 8 tmp; b2 = ucast tmp; tmp = drop_bit 8 tmp; b1 = ucast tmp; tmp = drop_bit 8 tmp; b0 = ucast tmp;
          tmp = (ucast (time_mid uu) :: uint32); b5 = ucast tmp; tmp = drop_bit 8 tmp; b4 = ucast tmp;
          tmp = (ucast (time_hi_and_version uu) :: uint32); b7 = ucast tmp; tmp = drop_bit 8 tmp; b6 = ucast tmp;
          tmp = (ucast (clock_seq uu) :: uint32); b9 = ucast tmp; tmp = drop_bit 8 tmp; b8 = ucast tmp
      in [b0, b1, b2, b3, b4, b5, b6, b7, b8, b9] @ take 6 (node uu))"

definition shift_in :: "uint32 \<Rightarrow> uint8 \<Rightarrow> uint32" where
  "shift_in tmp b = push_bit 8 tmp OR ucast b"

definition uuid_unpack :: "uuid_t \<Rightarrow> uuid" where
  "uuid_unpack p =
     \<lparr>time_low = shift_in (shift_in (shift_in (ucast (p ! 0)) (p ! 1)) (p ! 2)) (p ! 3),
      time_mid = ucast (shift_in (ucast (p ! 4)) (p ! 5)),
      time_hi_and_version = ucast (shift_in (ucast (p ! 6)) (p ! 7)),
      clock_seq = ucast (shift_in (ucast (p ! 8)) (p ! 9)),
      node = take 6 (drop 10 p)\<rparr>"

section \<open>Text\<close>

definition isxdigit :: "char \<Rightarrow> bool" where
  "isxdigit c \<longleftrightarrow> c \<in> set ''0123456789abcdefABCDEF''"

text \<open>\<^verbatim>\<open>strtoul\<close> in base 16 on text that starts with a hexadecimal digit and has no x behind it.\<close>

definition hex_value :: "char \<Rightarrow> nat" where
  "hex_value c = (let n = of_char c in if n < 58 then n - 48 else if n < 71 then n - 55 else n - 87)"

definition strtoul_hex :: "string \<Rightarrow> nat" where
  "strtoul_hex s = foldl (\<lambda>n c. 16 * n + hex_value c) 0 (takeWhile isxdigit s)"

definition uuid_char_ok :: "string \<Rightarrow> nat \<Rightarrow> bool" where
  "uuid_char_ok s i \<longleftrightarrow>
     (if i = 8 \<or> i = 13 \<or> i = 18 \<or> i = 23 then s ! i = CHR ''-'' else if i = 36 then True else isxdigit (s ! i))"

definition uuid_parse :: "string \<Rightarrow> uuid_t option" where
  "uuid_parse s =
     (if length s \<noteq> 36 then None
      else if \<not> list_all (uuid_char_ok s) [0..<37] then None
      else Some (uuid_pack
        \<lparr>time_low = of_nat (strtoul_hex s), time_mid = of_nat (strtoul_hex (drop 9 s)),
         time_hi_and_version = of_nat (strtoul_hex (drop 14 s)), clock_seq = of_nat (strtoul_hex (drop 19 s)),
         node = map (\<lambda>i. of_nat (strtoul_hex [s ! (24 + 2 * i), s ! (25 + 2 * i)])) [0..<6]\<rparr>))"

text \<open>The conversions \<^verbatim>\<open>%0\<close>\<open>w\<close>\<^verbatim>\<open>x\<close> and \<^verbatim>\<open>%0\<close>\<open>w\<close>\<^verbatim>\<open>X\<close> for a value that has at most \<open>w\<close> digits.\<close>

definition hex_digit :: "bool \<Rightarrow> nat \<Rightarrow> char" where
  "hex_digit upper d = char_of (if d < 10 then 48 + d else if upper then 55 + d else 87 + d)"

primrec hex_text :: "bool \<Rightarrow> nat \<Rightarrow> nat \<Rightarrow> string" where
  "hex_text upper 0 n = []"
| "hex_text upper (Suc w) n = hex_text upper w (n div 16) @ [hex_digit upper (n mod 16)]"

definition uuid_unparse_x :: "bool \<Rightarrow> uuid_t \<Rightarrow> string" where
  "uuid_unparse_x upper uu =
     (let u = uuid_unpack uu
      in hex_text upper 8 (unat (time_low u)) @ ''-'' @ hex_text upper 4 (unat (time_mid u)) @ ''-''
         @ hex_text upper 4 (unat (time_hi_and_version u)) @ ''-''
         @ hex_text upper 2 (unat (drop_bit 8 (clock_seq u))) @ hex_text upper 2 (unat (clock_seq u AND 0xFF)) @ ''-''
         @ concat (map (\<lambda>i. hex_text upper 2 (unat (node u ! i))) [0..<6]))"

definition uuid_unparse_lower :: "uuid_t \<Rightarrow> string" where "uuid_unparse_lower uu = uuid_unparse_x False uu"
definition uuid_unparse_upper :: "uuid_t \<Rightarrow> string" where "uuid_unparse_upper uu = uuid_unparse_x True uu"
definition uuid_unparse :: "uuid_t \<Rightarrow> string" where "uuid_unparse uu = uuid_unparse_x False uu"

section \<open>Comparing, clearing, copying\<close>

text \<open>The C library specifies the sign of the result of \<^verbatim>\<open>memcmp\<close> only.\<close>

fun memcmp :: "uint8 list \<Rightarrow> uint8 list \<Rightarrow> int" where
  "memcmp (a # as) (b # bs) = (if a = b then memcmp as bs else if a < b then - 1 else 1)"
| "memcmp _ _ = 0"

definition uuid_compare :: "uuid_t \<Rightarrow> uuid_t \<Rightarrow> int" where
  "uuid_compare uu1 uu2 =
     (let u1 = uuid_unpack uu1; u2 = uuid_unpack uu2
      in if time_low u1 \<noteq> time_low u2 then (if time_low u1 < time_low u2 then - 1 else 1)
         else if time_mid u1 \<noteq> time_mid u2 then (if time_mid u1 < time_mid u2 then - 1 else 1)
         else if time_hi_and_version u1 \<noteq> time_hi_and_version u2 then (if time_hi_and_version u1 < time_hi_and_version u2 then - 1 else 1)
         else if clock_seq u1 \<noteq> clock_seq u2 then (if clock_seq u1 < clock_seq u2 then - 1 else 1)
         else memcmp (node u1) (node u2))"

definition uuid_is_null :: "uuid_t \<Rightarrow> int" where
  "uuid_is_null uu = (if list_all (\<lambda>b. b = 0) (take 16 uu) then 1 else 0)"

definition uuid_clear :: uuid_t where "uuid_clear = replicate 16 0"

definition uuid_copy :: "uuid_t \<Rightarrow> uuid_t" where "uuid_copy src = take 16 src"

section \<open>Time and kind\<close>

definition uuid_epoch :: uint64 where "uuid_epoch = push_bit 32 0x01B21DD2 + 0x13814000"

text \<open>The seconds and microseconds.\<close>

definition uuid_time :: "uuid_t \<Rightarrow> uint64 \<times> uint64" where
  "uuid_time uu =
     (let u = uuid_unpack uu;
          high = ucast (time_mid u) OR push_bit 16 (ucast (time_hi_and_version u AND 0xFFF)) :: uint32;
          clock_reg = (ucast (time_low u) OR push_bit 32 (ucast high)) - uuid_epoch
      in (clock_reg div 10000000, (clock_reg mod 10000000) div 10))"

definition uuid_type :: "uuid_t \<Rightarrow> uint16" where
  "uuid_type uu = drop_bit 12 (time_hi_and_version (uuid_unpack uu)) AND 0xF"

datatype uuid_variants = UUID_VARIANT_NCS | UUID_VARIANT_DCE | UUID_VARIANT_MICROSOFT | UUID_VARIANT_OTHER

definition uuid_variant :: "uuid_t \<Rightarrow> uuid_variants" where
  "uuid_variant uu =
     (let var = clock_seq (uuid_unpack uu)
      in if var AND 0x8000 = 0 then UUID_VARIANT_NCS else if var AND 0x4000 = 0 then UUID_VARIANT_DCE
         else if var AND 0x2000 = 0 then UUID_VARIANT_MICROSOFT else UUID_VARIANT_OTHER)"

section \<open>Generation\<close>

text \<open>The static variables of \<^verbatim>\<open>get_clock\<close>; a time is a pair of seconds and microseconds.\<close>

record clock =
  adjustment :: int
  last_tv :: "int \<times> int"
  seq :: uint16

definition MAX_ADJUSTMENT :: int where "MAX_ADJUSTMENT = 10"

text \<open>One passage from \<^verbatim>\<open>try_again\<close> on for the time \<open>tv\<close>; None is the jump back.\<close>

definition clock_try :: "int \<times> int \<Rightarrow> clock \<Rightarrow> clock option" where
  "clock_try tv c =
     (if fst tv < fst (last_tv c) \<or> fst tv = fst (last_tv c) \<and> snd tv < snd (last_tv c)
      then Some (c\<lparr>seq := (seq c + 1) AND 0x3FFF, adjustment := 0, last_tv := tv\<rparr>)
      else if fst tv = fst (last_tv c) \<and> snd tv = snd (last_tv c)
      then if adjustment c \<ge> MAX_ADJUSTMENT then None else Some (c\<lparr>adjustment := adjustment c + 1\<rparr>)
      else Some (c\<lparr>adjustment := 0, last_tv := tv\<rparr>))"

text \<open>The readings of the time are used one by one; None: there are not enough.\<close>

fun clock_loop :: "(int \<times> int) list \<Rightarrow> clock \<Rightarrow> (uint64 \<times> clock) option" where
  "clock_loop [] c = None"
| "clock_loop (tv # tvs) c =
     (case clock_try tv c of
        None \<Rightarrow> clock_loop tvs c
      | Some c \<Rightarrow> Some (word_of_int (snd tv) * 10 + word_of_int (adjustment c) + word_of_int (fst tv) * 10000000 + uuid_epoch, c))"

text \<open>The first reading is used only when the clock has not started; \<open>random\<close> are the random bytes for the sequence number.\<close>

definition get_clock :: "uint16 \<Rightarrow> int \<times> int \<Rightarrow> (int \<times> int) list \<Rightarrow> clock \<Rightarrow> (uint32 \<times> uint32 \<times> uint16 \<times> clock) option" where
  "get_clock random start tvs c =
     (let c = (if fst (last_tv c) = 0 \<and> snd (last_tv c) = 0 then c\<lparr>seq := random AND 0x3FFF, last_tv := (fst start - 1, snd start)\<rparr> else c)
      in map_option (\<lambda>(clock_reg, c). (ucast (drop_bit 32 clock_reg), ucast clock_reg, seq c, c)) (clock_loop tvs c))"

definition uuid__generate_time ::
    "uint8 list \<Rightarrow> uint16 \<Rightarrow> int \<times> int \<Rightarrow> (int \<times> int) list \<Rightarrow> clock \<Rightarrow> (uuid_t \<times> clock) option" where
  "uuid__generate_time node_id random start tvs c =
     map_option (\<lambda>(clock_mid, low, s, c).
         (uuid_pack \<lparr>time_low = low, time_mid = ucast clock_mid, time_hi_and_version = ucast ((drop_bit 16 clock_mid AND 0x0FFF) OR 0x1000),
            clock_seq = s OR 0x8000, node = take 6 node_id\<rparr>, c))
       (get_clock random start tvs c)"

definition uuid_random :: "uuid_t \<Rightarrow> uuid_t" where
  "uuid_random buf =
     (let uu = uuid_unpack buf
      in uuid_pack (uu\<lparr>clock_seq := (clock_seq uu AND 0x3FFF) OR 0x8000, time_hi_and_version := (time_hi_and_version uu AND 0x0FFF) OR 0x4000\<rparr>))"

text \<open>\<open>num\<close> is the number of identifiers, \<open>bufs\<close> the random bytes.\<close>

definition uuid__generate_random :: "int option \<Rightarrow> uuid_t list \<Rightarrow> uuid_t list" where
  "uuid__generate_random num bufs = map uuid_random (take (nat (case num of None \<Rightarrow> 1 | Some n \<Rightarrow> if n = 0 then 1 else n)) bufs)"

section \<open>The packed form\<close>

text \<open>Bytes shifted into a word and taken out again.\<close>

lemma unat_byte: "unat (ucast w :: uint8) = unat w mod 256" and unat_word: "unat (ucast (b :: uint8) :: uint32) = unat b"
  and unat_half: "unat (ucast w :: uint16) = unat w mod 65536" and unat_up: "unat (ucast (v :: uint16) :: uint32) = unat v"
  for w :: uint32
  by (simp_all add: unsigned_ucast_eq unsigned_take_bit_eq take_bit_eq_mod) (use unat_lt2p [of b] unat_lt2p [of v] in simp_all)

lemma unat_shift: "unat (drop_bit 8 (w :: uint32)) = unat w div 256"
  using unat_lt2p [of w] by (subst unsigned_drop_bit_eq) (simp add: drop_bit_eq_div take_bit_nat_eq_self)

lemma shift_in_plus: "shift_in t b = t * 256 + ucast b"
proof -
  have "push_bit 8 t OR ucast b = push_bit 8 t + ucast b"
    by (rule disjunctive_add [symmetric]) (auto simp: bit_simps dest: bit_imp_le_length)
  then show ?thesis by (simp add: shift_in_def push_bit_eq_mult)
qed

lemma unat_shift_in: "unat t < 2 ^ 24 \<Longrightarrow> unat (shift_in t b) = unat t * 256 + unat b"
  using unat_lt2p [of b] unfolding shift_in_plus
  by (simp add: unat_word_ariths unat_word)

lemma unat_word32: "unat (shift_in (shift_in (shift_in (ucast (a :: uint8)) b) c) d) = ((unat a * 256 + unat b) * 256 + unat c) * 256 + unat d"
proof -
  note B = unat_lt2p [of a] unat_lt2p [of b] unat_lt2p [of c]
  have 1: "unat (shift_in (ucast a) b) = unat a * 256 + unat b" using B by (subst unat_shift_in) (simp_all add: unat_word)
  have 2: "unat (shift_in (shift_in (ucast a) b) c) = (unat a * 256 + unat b) * 256 + unat c" using B by (subst unat_shift_in) (simp_all add: 1)
  show ?thesis using B by (subst unat_shift_in) (simp_all add: 2)
qed

lemma unat_word16: "unat (ucast (shift_in (ucast (a :: uint8)) b) :: uint16) = unat a * 256 + unat b"
  using unat_lt2p [of a] unat_lt2p [of b] by (subst unat_half, subst unat_shift_in) (simp_all add: unat_word)

lemma list16:
  assumes "length p = 16"
  obtains a b c d e f g h i j k l m n q r where "p = [a, b, c, d, e, f, g, h, i, j, k, l, m, n, q, r]"
  using assms by (auto simp: length_Suc_conv numeral_eq_Suc)

lemma list6:
  assumes "length p = 6"
  obtains a b c d e f where "p = [a, b, c, d, e, f]"
  using assms by (auto simp: length_Suc_conv numeral_eq_Suc)

lemma unat_pack:
  "map unat (uuid_pack u) = [unat (time_low u) div 256 div 256 div 256 mod 256, unat (time_low u) div 256 div 256 mod 256, unat (time_low u) div 256 mod 256,
     unat (time_low u) mod 256, unat (time_mid u) div 256 mod 256, unat (time_mid u) mod 256, unat (time_hi_and_version u) div 256 mod 256,
     unat (time_hi_and_version u) mod 256, unat (clock_seq u) div 256 mod 256, unat (clock_seq u) mod 256] @ map unat (take 6 (node u))"
  by (simp add: uuid_pack_def Let_def unat_byte unat_shift unat_up del: drop_bit_drop_bit)

lemma byte_step: "(d :: nat) < 256 \<Longrightarrow> (x * 256 + d) div 256 = x" "(d :: nat) < 256 \<Longrightarrow> (x * 256 + d) mod 256 = d"
  by simp_all

lemma uuid_pack_unpack:
  assumes "length p = 16"
  shows "uuid_pack (uuid_unpack p) = p"
proof -
  have u: "unat x < 256" for x :: uint8 using unat_lt2p [of x] by simp
  have m: "unat x mod 256 = unat x" for x :: uint8 using u by (rule mod_less)
  have "map unat (uuid_pack (uuid_unpack p)) = map unat p" using assms
  proof (rule list16)
    fix a b c d e f g h i j k l m' n q r
    assume p: "p = [a, b, c, d, e, f, g, h, i, j, k, l, m', n, q, r]"
    have s: "take 6 (drop 10 p) = [k, l, m', n, q, r]" "take 6 [k, l, m', n, q, r] = [k, l, m', n, q, r]" by (simp_all add: p)
    show ?thesis unfolding unat_pack uuid_unpack_def uuid.simps s unfolding p
      by (simp only: nth_Cons_0 nth_Cons_numeral One_nat_def nth_Cons_Suc unat_word32 unat_word16 byte_step [OF u] m list.map append.simps) simp
  qed
  moreover have "inj (unat :: uint8 \<Rightarrow> nat)" by (simp add: inj_on_def word_unat_eq_iff)
  ultimately show ?thesis by (metis inj_map_eq_map)
qed

lemma word_of_bytes:
  fixes n :: nat
  shows "n < 2 ^ 32 \<Longrightarrow> ((n div 256 div 256 div 256 mod 256 * 256 + n div 256 div 256 mod 256) * 256 + n div 256 mod 256) * 256 + n mod 256 = n"
    and "n < 2 ^ 16 \<Longrightarrow> n div 256 mod 256 * 256 + n mod 256 = n"
proof -
  have step: "x div 256 * 256 + x mod 256 = x" for x :: nat by simp
  have "n div 256 div 256 div 256 < 256" if "n < 2 ^ 32" using that by (simp add: div_mult2_eq [symmetric] less_mult_imp_div_less)
  then show "((n div 256 div 256 div 256 mod 256 * 256 + n div 256 div 256 mod 256) * 256 + n div 256 mod 256) * 256 + n mod 256 = n" if "n < 2 ^ 32"
    using that by (simp only: mod_less step)
  have "n div 256 < 256" if "n < 2 ^ 16" using that by (simp add: less_mult_imp_div_less)
  then show "n div 256 mod 256 * 256 + n mod 256 = n" if "n < 2 ^ 16" using that by (simp only: mod_less step)
qed

lemma length_uuid_pack: "length (node u) = 6 \<Longrightarrow> length (uuid_pack u) = 16"
  by (simp add: uuid_pack_def Let_def)

lemma uuid_unpack_pack:
  assumes "length (node u) = 6"
  shows "uuid_unpack (uuid_pack u) = u"
proof -
  have n: "unat (uuid_pack u ! i) = map unat (uuid_pack u) ! i" if "i < 10" for i using that length_uuid_pack [OF assms] by simp
  have l: "unat w < 2 ^ 32" "unat v < 2 ^ 16" for w :: uint32 and v :: uint16 using unat_lt2p [of w] unat_lt2p [of v] by simp_all
  note b32 = word_of_bytes(1) [OF l(1)] and b16 = word_of_bytes(2) [OF l(2)]
  have "drop 10 (uuid_pack u) = take 6 (node u)" by (simp add: uuid_pack_def Let_def)
  then show ?thesis using assms b32 [of "time_low u"] b16 [of "time_mid u"] b16 [of "time_hi_and_version u"] b16 [of "clock_seq u"]
    by (simp add: uuid_unpack_def word_unat_eq_iff unat_word32 unat_word16 n unat_pack)
qed

end
