(* ===== verification/UUID_Text.thy ===== *)
theory UUID_Text
  imports UUID
begin

text \<open>The text form of an identifier: parsing and printing are inverse.\<close>

section \<open>The text form\<close>

definition hex_number :: "string \<Rightarrow> nat" where
  "hex_number s = foldl (\<lambda>n c. 16 * n + hex_value c) 0 s"

definition lower :: "char \<Rightarrow> char" where
  "lower c = (if 65 \<le> (of_char c :: nat) \<and> (of_char c :: nat) \<le> 90 then char_of (of_char c + 32 :: nat) else c)"

lemma hex_digit_all: "list_all (\<lambda>d. isxdigit (hex_digit up d) \<and> hex_value (hex_digit up d) = d) [0..<16]"
  by (cases up) (simp only:, code_simp)+

lemma hex_digit: "d < 16 \<Longrightarrow> isxdigit (hex_digit up d)" "d < 16 \<Longrightarrow> hex_value (hex_digit up d) = d"
  using hex_digit_all [of up] by (auto simp: list_all_iff)

lemma hex_value_all: "list_all (\<lambda>c. hex_value c < 16 \<and> hex_digit False (hex_value c) = lower c) ''0123456789abcdefABCDEF''"
  by code_simp

lemma hex_value: "isxdigit c \<Longrightarrow> hex_value c < 16" "isxdigit c \<Longrightarrow> hex_digit False (hex_value c) = lower c"
  using hex_value_all unfolding isxdigit_def list_all_iff by blast+

lemma hex_number_snoc: "hex_number (s @ [c]) = 16 * hex_number s + hex_value c"
  by (simp add: hex_number_def)

lemma hex_number_bound: "\<forall>c \<in> set s. isxdigit c \<Longrightarrow> hex_number s < 16 ^ length s"
proof (induction s rule: rev_induct)
  case (snoc c s)
  have "hex_number s < 16 ^ length s" "hex_value c < 16" using snoc hex_value(1) [of c] by simp_all
  then have "16 * hex_number s + hex_value c < 16 * 16 ^ length s" by linarith
  then show ?case by (simp add: hex_number_snoc)
qed (simp add: hex_number_def)

lemma length_hex_text [simp]: "length (hex_text up w n) = w"
  by (induction w arbitrary: n) simp_all

lemma hex_text_digits: "\<forall>c \<in> set (hex_text up w n). isxdigit c"
  by (induction w arbitrary: n) (auto simp: hex_digit)

lemma hex_number_text: "hex_number (hex_text up w n) = n mod 16 ^ w"
proof (induction w arbitrary: n)
  case (Suc w)
  have "n mod 16 ^ Suc w = 16 * (n div 16 mod 16 ^ w) + n mod 16" by (simp add: mod_mult2_eq)
  then show ?case using Suc [of "n div 16"] by (simp add: hex_number_snoc hex_digit)
qed (simp add: hex_number_def)

lemma hex_text_number: "\<forall>c \<in> set s. isxdigit c \<Longrightarrow> hex_text False (length s) (hex_number s) = map lower s"
proof (induction s rule: rev_induct)
  case (snoc c s)
  have "hex_text False (length s) (hex_number s) = map lower s" "hex_value c < 16" "hex_digit False (hex_value c) = lower c"
    using snoc hex_value [of c] by simp_all
  then show ?case by (simp add: hex_number_snoc)
qed simp

lemma hex_text_add: "hex_text up (v + w) n = hex_text up v (n div 16 ^ w) @ hex_text up w n"
  by (induction w arbitrary: n) (simp_all add: div_mult2_eq mult.commute)

lemma hex_text_mod: "hex_text up w (n mod 16 ^ w) = hex_text up w n"
proof (induction w arbitrary: n)
  case (Suc w)
  have "n mod 16 ^ Suc w div 16 = n div 16 mod 16 ^ w" "n mod 16 ^ Suc w mod 16 = n mod 16"
    by (simp_all add: mod_mult2_eq)
  then show ?case using Suc [of "n div 16"] by simp
qed simp

text \<open>The five groups of digits.\<close>

definition uuid_text :: "string \<Rightarrow> string \<Rightarrow> string \<Rightarrow> string \<Rightarrow> string \<Rightarrow> string" where
  "uuid_text a b c d e = a @ CHR ''-'' # b @ CHR ''-'' # c @ CHR ''-'' # d @ CHR ''-'' # e"

definition groups_ok :: "string \<Rightarrow> string \<Rightarrow> string \<Rightarrow> string \<Rightarrow> string \<Rightarrow> bool" where
  "groups_ok a b c d e \<longleftrightarrow> length a = 8 \<and> length b = 4 \<and> length c = 4 \<and> length d = 4 \<and> length e = 12
     \<and> (\<forall>x \<in> set (a @ b @ c @ d @ e). isxdigit x)"

lemma strtoul_group: "\<forall>x \<in> set a. isxdigit x \<Longrightarrow> strtoul_hex (a @ CHR ''-'' # r) = hex_number a"
proof -
  assume a: "\<forall>x \<in> set a. isxdigit x"
  have "\<not> isxdigit CHR ''-''" by (simp add: isxdigit_def)
  then have "takeWhile isxdigit (a @ CHR ''-'' # r) = a" using a by (subst takeWhile_append2) auto
  then show ?thesis by (simp add: strtoul_hex_def hex_number_def)
qed

lemma strtoul_all: "\<forall>x \<in> set a. isxdigit x \<Longrightarrow> strtoul_hex a = hex_number a"
  by (simp add: strtoul_hex_def hex_number_def takeWhile_eq_all_conv [THEN iffD2])

lemma groups_valid:
  assumes "groups_ok a b c d e"
  shows "length (uuid_text a b c d e) = 36" and "list_all (uuid_char_ok (uuid_text a b c d e)) [0..<37]"
proof -
  show "length (uuid_text a b c d e) = 36" using assms by (simp add: groups_ok_def uuid_text_def)
  have "uuid_char_ok (uuid_text a b c d e) i" if "i < 37" for i
    using assms that by (auto simp: groups_ok_def uuid_char_ok_def uuid_text_def nth_append nth_Cons')
  then show "list_all (uuid_char_ok (uuid_text a b c d e)) [0..<37]" by (auto simp: list_all_iff)
qed

lemma valid_groups:
  assumes "length s = 36" and "list_all (uuid_char_ok s) [0..<37]"
  obtains a b c d e where "s = uuid_text a b c d e" "groups_ok a b c d e"
proof -
  have ok: "uuid_char_ok s i" if "i < 36" for i using assms(2) that by (auto simp: list_all_iff)
  let ?g = "\<lambda>k n. take n (drop k s)"
  have dash: "s ! 8 = CHR ''-''" "s ! 13 = CHR ''-''" "s ! 18 = CHR ''-''" "s ! 23 = CHR ''-''"
    using ok [of 8] ok [of 13] ok [of 18] ok [of 23] by (simp_all add: uuid_char_ok_def)
  have cut: "drop k s = ?g k n @ s ! (k + n) # drop (Suc (k + n)) s" if "k + n < 36" for k n
    using that assms(1) id_take_nth_drop [of n "drop k s"] by (simp add: add.commute)
  have "s = uuid_text (?g 0 8) (?g 9 4) (?g 14 4) (?g 19 4) (drop 24 s)"
    using cut [of 0 8] cut [of 9 4] cut [of 14 4] cut [of 19 4] dash by (simp add: uuid_text_def)
  moreover have x: "\<forall>x \<in> set (?g k n). isxdigit x" if "k + n \<le> 36" "\<forall>i < n. k + i \<noteq> 8 \<and> k + i \<noteq> 13 \<and> k + i \<noteq> 18 \<and> k + i \<noteq> 23" for k n
  proof
    fix x assume "x \<in> set (?g k n)"
    then obtain i where i: "i < n" "x = s ! (k + i)" using that(1) assms(1) by (auto simp: in_set_conv_nth)
    then show "isxdigit x" using ok [of "k + i"] that by (auto simp: uuid_char_ok_def)
  qed
  have "groups_ok (?g 0 8) (?g 9 4) (?g 14 4) (?g 19 4) (?g 24 12)"
    using x [of 0 8] x [of 9 4] x [of 14 4] x [of 19 4] x [of 24 12] assms(1) by (auto simp: groups_ok_def)
  moreover have "?g 24 12 = drop 24 s" using assms(1) by simp
  ultimately show thesis using that by metis
qed

definition fields :: "string \<Rightarrow> string \<Rightarrow> string \<Rightarrow> string \<Rightarrow> string \<Rightarrow> uuid" where
  "fields a b c d e = \<lparr>time_low = of_nat (hex_number a), time_mid = of_nat (hex_number b), time_hi_and_version = of_nat (hex_number c),
     clock_seq = of_nat (hex_number d), node = map (\<lambda>i. of_nat (hex_number [e ! (2 * i), e ! (2 * i + 1)])) [0..<6]\<rparr>"

lemma uuid_parse_text:
  assumes g: "groups_ok a b c d e"
  shows "uuid_parse (uuid_text a b c d e) = Some (uuid_pack (fields a b c d e))"
proof -
  let ?s = "uuid_text a b c d e"
  have x: "\<forall>x \<in> set a. isxdigit x" "\<forall>x \<in> set b. isxdigit x" "\<forall>x \<in> set c. isxdigit x" "\<forall>x \<in> set d. isxdigit x" "\<forall>x \<in> set e. isxdigit x"
    and l: "length a = 8" "length b = 4" "length c = 4" "length d = 4" "length e = 12" using g by (auto simp: groups_ok_def)
  have dr: "drop 9 ?s = b @ CHR ''-'' # c @ CHR ''-'' # d @ CHR ''-'' # e" "drop 14 ?s = c @ CHR ''-'' # d @ CHR ''-'' # e"
    "drop 19 ?s = d @ CHR ''-'' # e" using l by (simp_all add: uuid_text_def)
  have n: "?s ! (24 + i) = e ! i" for i using l by (simp add: uuid_text_def nth_append nth_Cons')
  have "strtoul_hex [?s ! (24 + 2 * i), ?s ! (25 + 2 * i)] = hex_number [e ! (2 * i), e ! (2 * i + 1)]" if "i < 6" for i
  proof -
    have "isxdigit (e ! (2 * i))" "isxdigit (e ! (2 * i + 1))" using x(5) l(5) that by simp_all
    then show ?thesis using n [of "2 * i"] n [of "2 * i + 1"] strtoul_all by simp
  qed
  then have nd: "map (\<lambda>i. of_nat (strtoul_hex [?s ! (24 + 2 * i), ?s ! (25 + 2 * i)])) [0..<6] = node (fields a b c d e)" by (simp add: fields_def)
  have "strtoul_hex ?s = hex_number a" using strtoul_group [OF x(1)] by (simp add: uuid_text_def)
  then show ?thesis unfolding uuid_parse_def nd using groups_valid [OF g] by (simp add: dr strtoul_group x fields_def)
qed

lemma uuid_unparse_text:
  fixes p :: uuid_t
  defines "u \<equiv> uuid_unpack p" and "n \<equiv> \<lambda>i. unat (node (uuid_unpack p) ! i)"
  shows "uuid_unparse_x up p = uuid_text (hex_text up 8 (unat (time_low u))) (hex_text up 4 (unat (time_mid u)))
     (hex_text up 4 (unat (time_hi_and_version u))) (hex_text up 4 (unat (clock_seq u)))
     (hex_text up 2 (n 0) @ hex_text up 2 (n 1) @ hex_text up 2 (n 2) @ hex_text up 2 (n 3) @ hex_text up 2 (n 4) @ hex_text up 2 (n 5))"
proof -
  have d: "unat (drop_bit 8 c) = unat c div 256" for c :: uint16
    using unat_lt2p [of c] by (subst unsigned_drop_bit_eq) (simp add: drop_bit_eq_div take_bit_nat_eq_self)
  have m: "unat (c AND 0xFF) = unat c mod 256" for c :: uint16
  proof -
    have "(0xFF :: uint16) = mask 8" by (simp add: mask_eq_exp_minus_1)
    then have "unat (c AND 0xFF) = take_bit 8 (unat c)" by (simp only: take_bit_eq_mask [symmetric] unsigned_take_bit_eq)
    then show ?thesis by (simp add: take_bit_eq_mod)
  qed
  have h: "hex_text up 2 (unat (drop_bit 8 c)) @ hex_text up 2 (unat (c AND 0xFF)) = hex_text up 4 (unat c)" for c :: uint16
  proof -
    have "hex_text up (2 + 2) (unat c) = hex_text up 2 (unat c div 256) @ hex_text up 2 (unat c mod 256)"
      unfolding hex_text_add using hex_text_mod [of up 2 "unat c"] by simp
    then show ?thesis unfolding d m by simp
  qed
  have "[0..<6] = [0, 1, 2, 3, 4, 5]" by (simp add: upt_rec)
  then show ?thesis unfolding u_def n_def uuid_unparse_x_def Let_def using h [of "clock_seq (uuid_unpack p)"]
    by (simp add: uuid_text_def)
qed

lemma hex_groups:
  fixes u :: uuid
  shows "groups_ok (hex_text up 8 (unat (time_low u))) (hex_text up 4 (unat (time_mid u))) (hex_text up 4 (unat (time_hi_and_version u)))
     (hex_text up 4 (unat (clock_seq u)))
     (hex_text up 2 n0 @ hex_text up 2 n1 @ hex_text up 2 n2 @ hex_text up 2 n3 @ hex_text up 2 n4 @ hex_text up 2 n5)"
  using hex_text_digits by (auto simp: groups_ok_def)

lemma hex_pair: "hex_text up 2 n = [hex_text up 2 n ! 0, hex_text up 2 n ! 1]"
  by (simp add: numeral_2_eq_2)

lemma of_nat_hex_text:
  "of_nat (hex_number (hex_text up 8 (unat w))) = (w :: uint32)" "of_nat (hex_number (hex_text up 4 (unat v))) = (v :: uint16)"
  "of_nat (hex_number (hex_text up 2 (unat b))) = (b :: uint8)"
proof -
  have "unat w mod 16 ^ 8 = unat w" "unat v mod 16 ^ 4 = unat v" "unat b mod 16 ^ 2 = unat b"
    using unat_lt2p [of w] unat_lt2p [of v] unat_lt2p [of b] by simp_all
  then show "of_nat (hex_number (hex_text up 8 (unat w))) = w" "of_nat (hex_number (hex_text up 4 (unat v))) = v"
    "of_nat (hex_number (hex_text up 2 (unat b))) = b" unfolding hex_number_text by simp_all
qed

lemma parse_unparse:
  assumes "length p = 16"
  shows "uuid_parse (uuid_unparse_x up p) = Some p"
proof -
  let ?u = "uuid_unpack p"
  have l: "length (node ?u) = 6" using assms by (simp add: uuid_unpack_def)
  have six: "[0..<6] = [0, 1, 2, 3, 4, 5]" by (simp add: upt_rec)
  have nd: "map (\<lambda>i. of_nat (hex_number [e ! (2 * i), e ! (2 * i + 1)])) [0..<6] = node ?u"
    if e: "e = hex_text up 2 (unat (node ?u ! 0)) @ hex_text up 2 (unat (node ?u ! 1)) @ hex_text up 2 (unat (node ?u ! 2)) @ hex_text up 2 (unat (node ?u ! 3))
      @ hex_text up 2 (unat (node ?u ! 4)) @ hex_text up 2 (unat (node ?u ! 5))" for e
  proof -
    have "[e ! (2 * i), e ! (2 * i + 1)] = hex_text up 2 (unat (node ?u ! i))" if "i \<in> {0, 1, 2, 3, 4, 5}" for i
      using that hex_pair [of up "unat (node ?u ! i)"] unfolding e by (auto simp: nth_append)
    then have "map (\<lambda>i. of_nat (hex_number [e ! (2 * i), e ! (2 * i + 1)])) [0..<6] = map (\<lambda>i. node ?u ! i) [0..<6]"
      unfolding six by (simp only: list.map of_nat_hex_text insert_iff simp_thms)
    also have "\<dots> = node ?u" using map_nth [of "node ?u"] unfolding l .
    finally show ?thesis .
  qed
  have "uuid_parse (uuid_unparse_x up p) = Some (uuid_pack ?u)"
    unfolding uuid_unparse_text uuid_parse_text [OF hex_groups] fields_def nd [OF refl] of_nat_hex_text
    by (intro arg_cong [where f = "\<lambda>u. Some (uuid_pack u)"] uuid.equality) simp_all
  then show ?thesis by (simp add: uuid_pack_unpack [OF assms])
qed

lemma unparse_parse:
  assumes "uuid_parse s = Some p"
  shows "uuid_unparse_x False p = map lower s" and "length p = 16"
proof -
  have "length s = 36" "list_all (uuid_char_ok s) [0..<37]" using assms by (auto simp: uuid_parse_def split: if_splits)
  then obtain a b c d e where s: "s = uuid_text a b c d e" and g: "groups_ok a b c d e" by (rule valid_groups)
  have p: "p = uuid_pack (fields a b c d e)" using assms uuid_parse_text [OF g] s by simp
  have l: "length (node (fields a b c d e)) = 6" by (simp add: fields_def)
  then show "length p = 16" unfolding p by (rule length_uuid_pack)
  have u: "uuid_unpack p = fields a b c d e" unfolding p by (rule uuid_unpack_pack [OF l])
  have x: "\<forall>x \<in> set a. isxdigit x" "\<forall>x \<in> set b. isxdigit x" "\<forall>x \<in> set c. isxdigit x" "\<forall>x \<in> set d. isxdigit x" "\<forall>x \<in> set e. isxdigit x"
    and n: "length a = 8" "length b = 4" "length c = 4" "length d = 4" "length e = 12" using g by (auto simp: groups_ok_def)
  have t: "hex_text False (length y) (hex_number y mod 16 ^ length y) = map lower y" if "\<forall>x \<in> set y. isxdigit x" for y
    unfolding hex_text_mod using that by (rule hex_text_number)
  have tw: "hex_text False 8 (unat (of_nat (hex_number a) :: uint32)) = map lower a" "hex_text False 4 (unat (of_nat (hex_number b) :: uint16)) = map lower b"
    "hex_text False 4 (unat (of_nat (hex_number c) :: uint16)) = map lower c" "hex_text False 4 (unat (of_nat (hex_number d) :: uint16)) = map lower d"
    using t [OF x(1)] t [OF x(2)] t [OF x(3)] t [OF x(4)] n by (simp_all add: unsigned_of_nat take_bit_eq_mod)
  have te: "hex_text False 2 (unat (node (fields a b c d e) ! i)) = [lower (e ! (2 * i)), lower (e ! (2 * i + 1))]" if "i < 6" for i
  proof -
    have t2: "hex_text False 2 (hex_number [v, w] mod 256) = [lower v, lower w]" if "isxdigit v" "isxdigit w" for v w
      using t [of "[v, w]"] that by (simp add: numeral_2_eq_2)
    show ?thesis using t2 [of "e ! (2 * i)" "e ! (2 * i + 1)"] x(5) n(5) that by (simp add: fields_def unsigned_of_nat take_bit_eq_mod)
  qed
  have "e = [e ! 0, e ! 1, e ! 2, e ! 3, e ! 4, e ! 5, e ! 6, e ! 7, e ! 8, e ! 9, e ! 10, e ! 11]"
    by (rule nth_equalityI) (use n(5) in \<open>auto simp: nth_Cons' numeral_eq_Suc less_Suc_eq\<close>)
  then have "map lower e = map lower [e ! 0, e ! 1, e ! 2, e ! 3, e ! 4, e ! 5, e ! 6, e ! 7, e ! 8, e ! 9, e ! 10, e ! 11]" by (rule arg_cong)
  then have "map lower e = [lower (e ! 0), lower (e ! 1)] @ [lower (e ! 2), lower (e ! 3)] @ [lower (e ! 4), lower (e ! 5)] @ [lower (e ! 6), lower (e ! 7)]
      @ [lower (e ! 8), lower (e ! 9)] @ [lower (e ! 10), lower (e ! 11)]" by (simp only: append.simps list.map)
  moreover have "lower CHR ''-'' = CHR ''-''" by (simp add: lower_def)
  moreover note te [of 0] te [of 1] te [of 2] te [of 3] te [of 4] te [of 5]
  ultimately show "uuid_unparse_x False p = map lower s" using tw
    unfolding uuid_unparse_text u s by (simp add: uuid_text_def fields_def)
qed

section \<open>Properties\<close>

text \<open>C26: Printing an identifier in either case and parsing the text gives the identifier; parsing a text and printing the identifier gives the
  text with its letters in lower case.\<close>
theorem uuid_text_roundtrip:
  "(length p = 16 \<longrightarrow> uuid_parse (uuid_unparse_lower p) = Some p \<and> uuid_parse (uuid_unparse_upper p) = Some p)
   \<and> (uuid_parse s = Some q \<longrightarrow> uuid_unparse_lower q = map lower s \<and> length q = 16)"
  using parse_unparse [of p] unparse_parse [of s q] by (auto simp: uuid_unparse_lower_def uuid_unparse_upper_def)

theorem uuid_text_roundtrip_witness:
  "uuid_parse (uuid_unparse_upper (replicate 16 171)) = Some (replicate 16 171)"
  using uuid_text_roundtrip [of "replicate 16 171"] by simp

end
