(* ===== verification/UUID_Time.thy ===== *)
theory UUID_Time
  imports UUID
begin

text \<open>The order of identifiers, and the identifiers generated from the time.\<close>

section \<open>The order\<close>

definition cmp :: "nat \<Rightarrow> nat \<Rightarrow> int \<Rightarrow> int" where
  "cmp x y k = (if x \<noteq> y then (if x < y then - 1 else 1) else k)"

lemma cmp_bytes:
  assumes "d < 256" and "d' < 256"
  shows "cmp (x * 256 + d) (y * 256 + d') k = cmp x y (cmp d d' k)"
proof -
  have "x * 256 + d < y * 256 + d' \<longleftrightarrow> x < y \<or> x = y \<and> d < d'" using assms by linarith
  moreover have "x * 256 + d = y * 256 + d' \<longleftrightarrow> x = y \<and> d = d'" using byte_step [OF assms(1), of x] byte_step [OF assms(2), of y] by metis
  ultimately show ?thesis by (auto simp: cmp_def)
qed

lemma memcmp_Cons: "memcmp (a # as) (b # bs) = cmp (unat a) (unat b) (memcmp as bs)"
  by (simp add: cmp_def word_unat_eq_iff word_less_nat_alt)

lemma cmp_word: "(if a \<noteq> b then (if a < b then - 1 else 1) else k) = cmp (unat a) (unat b) k"
  by (simp add: cmp_def word_unat_eq_iff word_less_nat_alt)

lemma uuid_compare_cmp:
  "uuid_compare p q = cmp (unat (time_low (uuid_unpack p))) (unat (time_low (uuid_unpack q)))
     (cmp (unat (time_mid (uuid_unpack p))) (unat (time_mid (uuid_unpack q)))
       (cmp (unat (time_hi_and_version (uuid_unpack p))) (unat (time_hi_and_version (uuid_unpack q)))
         (cmp (unat (clock_seq (uuid_unpack p))) (unat (clock_seq (uuid_unpack q))) (memcmp (node (uuid_unpack p)) (node (uuid_unpack q))))))"
  by (simp only: uuid_compare_def Let_def cmp_word)

lemma uuid_compare_memcmp:
  assumes "length p = 16" and "length q = 16"
  shows "uuid_compare p q = memcmp p q"
  using assms(1)
proof (rule list16)
  fix a b c d e f g h i j k l m n r s
  assume p: "p = [a, b, c, d, e, f, g, h, i, j, k, l, m, n, r, s]"
  have u: "unat x < 256" for x :: uint8 using unat_lt2p [of x] by simp
  show ?thesis using assms(2)
  proof (rule list16)
    fix a' b' c' d' e' f' g' h' i' j' k' l' m' n' r' s'
    assume q: "q = [a', b', c', d', e', f', g', h', i', j', k', l', m', n', r', s']"
    have n: "take 6 (drop 10 p) = [k, l, m, n, r, s]" "take 6 (drop 10 q) = [k', l', m', n', r', s']" by (simp_all add: p q)
    have x: "p ! 0 = a" "p ! 1 = b" "p ! 2 = c" "p ! 3 = d" "p ! 4 = e" "p ! 5 = f" "p ! 6 = g" "p ! 7 = h" "p ! 8 = i" "p ! 9 = j" by (simp_all add: p)
    have y: "q ! 0 = a'" "q ! 1 = b'" "q ! 2 = c'" "q ! 3 = d'" "q ! 4 = e'" "q ! 5 = f'" "q ! 6 = g'" "q ! 7 = h'" "q ! 8 = i'" "q ! 9 = j'" by (simp_all add: q)
    show ?thesis unfolding uuid_compare_cmp uuid_unpack_def uuid.simps n x y unat_word32 unat_word16 cmp_bytes [OF u u] unfolding p q memcmp_Cons by (rule refl)
  qed
qed

lemma memcmp_zero: "length p = length q \<Longrightarrow> memcmp p q = 0 \<longleftrightarrow> p = q"
  by (induction p q rule: list_induct2) auto

lemma memcmp_swap: "memcmp q p = - memcmp p q"
  by (induction p q rule: memcmp.induct) auto

text \<open>C30: The order of \<^verbatim>\<open>uuid_compare\<close> on the fields is the order of the 16 bytes; it is antisymmetric, and only equal identifiers compare as equal.\<close>
theorem uuid_compare_bytes:
  assumes "length p = 16" and "length q = 16"
  shows "uuid_compare p q = memcmp p q \<and> uuid_compare q p = - uuid_compare p q \<and> (uuid_compare p q = 0 \<longleftrightarrow> p = q)"
  using uuid_compare_memcmp [OF assms] uuid_compare_memcmp [OF assms(2,1)] memcmp_swap [of q p] memcmp_zero [of p q] assms by simp

theorem uuid_compare_bytes_witness:
  "uuid_compare (replicate 16 1) (replicate 15 1 @ [2]) = - 1"
proof -
  have "memcmp (replicate 16 1) (replicate 15 1 @ [2]) = - 1" by code_simp
  then show ?thesis using uuid_compare_bytes [of "replicate 16 1" "replicate 15 1 @ [2]"] by simp
qed

section \<open>Generation\<close>

text \<open>Between two calls the sequence number has 14 bits.\<close>

definition clock_ok :: "clock \<Rightarrow> bool" where
  "clock_ok c \<longleftrightarrow> unat (seq c) < 2 ^ 14 \<and> 0 \<le> adjustment c"

lemma seq_bits: "unat (w AND 0x3FFF :: uint16) < 2 ^ 14"
proof -
  have "(0x3FFF :: uint16) = mask 14" by (simp add: mask_eq_exp_minus_1)
  then have "w AND 0x3FFF = take_bit 14 w" by (simp only: take_bit_eq_mask)
  then show ?thesis by (simp only: unsigned_take_bit_eq) (simp add: take_bit_eq_mod)
qed

lemma clock_try_ok: "clock_ok c \<Longrightarrow> clock_try tv c = Some c' \<Longrightarrow> clock_ok c' \<and> last_tv c' = tv"
  using seq_bits [of "seq c + 1"] by (auto simp: clock_try_def clock_ok_def prod_eq_iff split: if_splits)

lemma clock_loop_ok:
  assumes "clock_ok c" and "clock_loop tvs c = Some (r, c')"
  shows "clock_ok c' \<and> r = word_of_int (snd (last_tv c')) * 10 + word_of_int (adjustment c') + word_of_int (fst (last_tv c')) * 10000000 + uuid_epoch"
  using assms
proof (induction tvs arbitrary: c)
  case (Cons tv tvs)
  then show ?case using clock_try_ok [of c tv] by (auto split: option.splits)
qed simp

lemma get_clock_ok:
  assumes "clock_ok c" and "get_clock rnd start tvs c = Some (hi, low, s, c')"
  obtains r where "clock_ok c'" "s = seq c'" "hi = ucast (drop_bit 32 r)" "low = ucast r"
    "r = word_of_int (snd (last_tv c')) * 10 + word_of_int (adjustment c') + word_of_int (fst (last_tv c')) * 10000000 + uuid_epoch"
proof -
  have "clock_ok (c\<lparr>seq := rnd AND 0x3FFF, last_tv := (fst start - 1, snd start)\<rparr>)" using assms(1) seq_bits [of rnd] by (simp add: clock_ok_def)
  then show thesis using that assms clock_loop_ok by (auto simp: get_clock_def Let_def split: if_splits) 
qed

text \<open>The fields of a generated identifier, put together again.\<close>

lemma bit_bound:
  assumes "unat (w :: 'a::len word) < 2 ^ k" and "bit w n"
  shows "n < k"
proof -
  have "take_bit k w = w" using assms(1) by (intro word_unat_eq_iff [THEN iffD2]) (simp add: unsigned_take_bit_eq take_bit_nat_eq_self)
  then have "bit (take_bit k w) n" using assms(2) by simp
  then show ?thesis by (simp add: bit_take_bit_iff)
qed

lemma single_bits: "bit (0x1000 :: uint32) n \<longleftrightarrow> n = 12" "bit (0x8000 :: uint16) n \<longleftrightarrow> n = 15" "bit (0x4000 :: uint16) n \<longleftrightarrow> n = 14"
proof -
  have "(0x1000 :: uint32) = 2 ^ 12" "(0x8000 :: uint16) = 2 ^ 15" "(0x4000 :: uint16) = 2 ^ 14" by simp_all
  then show "bit (0x1000 :: uint32) n \<longleftrightarrow> n = 12" "bit (0x8000 :: uint16) n \<longleftrightarrow> n = 15" "bit (0x4000 :: uint16) n \<longleftrightarrow> n = 14"
    by (auto simp only: bit_exp_iff) simp_all
qed

lemma version_field:
  fixes x :: uint32
  defines "v \<equiv> ucast ((x AND 0x0FFF) OR 0x1000) :: uint16"
  shows "v AND 0xFFF = ucast x AND 0xFFF" and "drop_bit 12 v AND 0xF = 1"
proof -
  have m: "(0xFFF :: uint32) = mask 12" "(0xFFF :: uint16) = mask 12" "(0xF :: uint16) = mask 4" by (simp_all add: mask_eq_exp_minus_1)
  show "v AND 0xFFF = ucast x AND 0xFFF" unfolding v_def m by (rule bit_word_eqI) (simp only: bit_and_iff bit_or_iff bit_unsigned_iff bit_mask_iff bit_drop_bit_eq bit_1_iff single_bits o_apply, auto)
  show "drop_bit 12 v AND 0xF = 1" unfolding v_def m by (rule bit_word_eqI) (simp only: bit_and_iff bit_or_iff bit_unsigned_iff bit_mask_iff bit_drop_bit_eq bit_1_iff single_bits o_apply, auto)
qed

lemma variant_field:
  assumes "unat (s :: uint16) < 2 ^ 14"
  shows "(s OR 0x8000) AND 0x8000 \<noteq> 0" and "(s OR 0x8000) AND 0x4000 = 0"
proof -
  have "bit ((s OR 0x8000) AND 0x8000) 15" by (simp only: bit_and_iff bit_or_iff single_bits simp_thms)
  then show "(s OR 0x8000) AND 0x8000 \<noteq> 0" by (metis bit_0_eq bot_apply bot_bool_def)
  have "\<not> bit s 14" using bit_bound [OF assms, of 14] by auto
  then show "(s OR 0x8000) AND 0x4000 = 0" by (intro bit_word_eqI) (simp only: bit_and_iff bit_or_iff bit_unsigned_iff bit_mask_iff bit_drop_bit_eq bit_1_iff single_bits o_apply, auto)
qed

lemma register_fields:
  fixes r :: uint64
  assumes "unat r < 2 ^ 60"
  shows "ucast (ucast r :: uint32) OR push_bit 32 (ucast ((ucast (ucast (ucast (drop_bit 32 r) :: uint32) :: uint16) :: uint32)
    OR push_bit 16 (ucast (ucast (drop_bit 16 (ucast (drop_bit 32 r) :: uint32)) AND 0xFFF :: uint16)))) = r"
proof -
  have m: "(0xFFF :: uint16) = mask 12" by (simp add: mask_eq_exp_minus_1)
  show ?thesis unfolding m by (rule bit_word_eqI) (auto simp: bit_simps dest: bit_bound [OF assms])
qed

text \<open>The register for \<open>a\<close> seconds, \<open>b\<close> microseconds and the adjustment \<open>k\<close>.\<close>

lemma register_value:
  fixes a b k :: nat
  defines "r \<equiv> of_nat b * 10 + of_nat k + of_nat a * 10000000 + uuid_epoch"
  assumes "a < 2 ^ 36" and "b < 1000000" and "k < 10"
  shows "unat r < 2 ^ 60" and "(r - uuid_epoch) div 10000000 = of_nat a" and "((r - uuid_epoch) mod 10000000) div 10 = of_nat b"
proof -
  define v where "v = b * 10 + k + a * 10000000"
  have w: "r - uuid_epoch = of_nat v" by (simp add: r_def v_def)
  have vb: "v < 700000000000000000" using assms(2-4) unfolding v_def by simp
  have u: "unat (of_nat v :: uint64) = v" using vb by (intro unat_of_nat_small) simp
  have e: "unat uuid_epoch = 122192928000000000" by (simp add: uuid_epoch_def push_bit_eq_mult)
  have "r = of_nat v + uuid_epoch" using w by (simp add: diff_eq_eq)
  then have "unat r = v + 122192928000000000" using vb u e by (simp add: unat_plus_no_wrap)
  then show "unat r < 2 ^ 60" using vb by simp
  have d: "v div 10000000 = a" "v mod 10000000 div 10 = b" using assms(2-4) by (simp_all add: v_def)
  have "unat (of_nat a :: uint64) = a" "unat (of_nat b :: uint64) = b" using assms(2,3) by (auto intro!: unat_of_nat_small)
  then show "(r - uuid_epoch) div 10000000 = of_nat a" "((r - uuid_epoch) mod 10000000) div 10 = of_nat b"
    unfolding w using u d by (simp_all add: word_unat_eq_iff unat_div unat_mod)
qed

lemma generated:
  assumes c: "clock_ok c" and g: "uuid__generate_time node_id rnd start tvs c = Some (u, c')" and n: "length node_id = 6"
  obtains r s where "clock_ok c'" "unat s < 2 ^ 14"
    "r = word_of_int (snd (last_tv c')) * 10 + word_of_int (adjustment c') + word_of_int (fst (last_tv c')) * 10000000 + uuid_epoch"
    "uuid_unpack u = \<lparr>time_low = ucast r, time_mid = ucast (ucast (drop_bit 32 r) :: uint32),
       time_hi_and_version = ucast ((drop_bit 16 (ucast (drop_bit 32 r) :: uint32) AND 0x0FFF) OR 0x1000), clock_seq = s OR 0x8000, node = node_id\<rparr>" "length u = 16"
proof -
  obtain hi low s where k: "get_clock rnd start tvs c = Some (hi, low, s, c')"
    and u: "u = uuid_pack \<lparr>time_low = low, time_mid = ucast hi, time_hi_and_version = ucast ((drop_bit 16 hi AND 0x0FFF) OR 0x1000),
      clock_seq = s OR 0x8000, node = take 6 node_id\<rparr>" using g by (auto simp: uuid__generate_time_def)
  obtain r where r: "clock_ok c'" "s = seq c'" "hi = ucast (drop_bit 32 r)" "low = ucast r"
    "r = word_of_int (snd (last_tv c')) * 10 + word_of_int (adjustment c') + word_of_int (fst (last_tv c')) * 10000000 + uuid_epoch"
    using c k by (rule get_clock_ok)
  have "unat s < 2 ^ 14" using r(1,2) by (simp add: clock_ok_def)
  then show thesis using that [OF r(1) _ r(5)] n r(3,4) unfolding u by (simp add: uuid_unpack_pack length_uuid_pack)
qed

lemma generated_time:
  assumes g: "clock_ok c" "uuid__generate_time node_id rnd start tvs c = Some (u, c')" "length node_id = 6"
    and t: "0 \<le> fst (last_tv c')" "fst (last_tv c') < 2 ^ 36" "0 \<le> snd (last_tv c')" "snd (last_tv c') < 1000000" "adjustment c' < 10"
  shows "clock_ok c' \<and> length u = 16 \<and> uuid_type u = 1 \<and> uuid_variant u = UUID_VARIANT_DCE
    \<and> uuid_time u = (word_of_int (fst (last_tv c')), word_of_int (snd (last_tv c')))"
  using g
proof (rule generated)
  fix r s
  assume c: "clock_ok c'" and s: "unat (s :: uint16) < 2 ^ 14"
    and r: "r = word_of_int (snd (last_tv c')) * 10 + word_of_int (adjustment c') + word_of_int (fst (last_tv c')) * 10000000 + uuid_epoch"
    and u: "uuid_unpack u = \<lparr>time_low = ucast r, time_mid = ucast (ucast (drop_bit 32 r) :: uint32),
       time_hi_and_version = ucast ((drop_bit 16 (ucast (drop_bit 32 r) :: uint32) AND 0x0FFF) OR 0x1000), clock_seq = s OR 0x8000, node = node_id\<rparr>"
    and l: "length u = 16"
  obtain a b k where n: "fst (last_tv c') = int a" "snd (last_tv c') = int b" "adjustment c' = int k"
    using t(1,3) c unfolding clock_ok_def by (metis nonneg_int_cases)
  have q: "r = of_nat b * 10 + of_nat k + of_nat a * 10000000 + uuid_epoch" unfolding r n by simp
  have ab: "a < 2 ^ 36" "b < 1000000" "k < 10" using t n by simp_all
  note V = register_value [OF ab, folded q]
  have "uuid_time u = ((r - uuid_epoch) div 10000000, ((r - uuid_epoch) mod 10000000) div 10)"
    unfolding uuid_time_def u Let_def uuid.simps version_field(1) register_fields [OF V(1)] by simp
  moreover have "uuid_type u = 1" unfolding uuid_type_def u uuid.simps by (rule version_field(2))
  moreover have "uuid_variant u = UUID_VARIANT_DCE" unfolding uuid_variant_def u uuid.simps Let_def using variant_field [OF s] by simp
  ultimately show ?thesis using V c l n by simp
qed

section \<open>Properties\<close>

text \<open>C27: An identifier generated from the time is of the time type and of the DCE variant, and \<^verbatim>\<open>uuid_time\<close> gives back the time of the clock it was
  generated from, to the microsecond, up to the year 4147, unless the adjustment has reached ten.\<close>
theorem uuid_generated_time:
  assumes "clock_ok c" and "uuid__generate_time node_id rnd start tvs c = Some (u, c')" and "length node_id = 6"
    and "0 \<le> fst (last_tv c')" "fst (last_tv c') < 2 ^ 36" "0 \<le> snd (last_tv c')" "snd (last_tv c') < 1000000" "adjustment c' < 10"
  shows "clock_ok c' \<and> length u = 16 \<and> uuid_type u = 1 \<and> uuid_variant u = UUID_VARIANT_DCE
    \<and> uuid_time u = (word_of_int (fst (last_tv c')), word_of_int (snd (last_tv c')))"
  using assms by (rule generated_time)

definition ex_clock :: clock where "ex_clock = \<lparr>adjustment = 0, last_tv = (0, 0), seq = 0\<rparr>"

theorem uuid_generated_time_witness:
  "\<exists>u c'. uuid__generate_time (replicate 6 1) 77 (1000, 0) [(1000, 7)] ex_clock = Some (u, c') \<and> uuid_time u = (1000, 7) \<and> uuid_type u = 1"
proof -
  obtain u c' where u: "uuid__generate_time (replicate 6 1) 77 (1000, 0) [(1000, 7)] ex_clock = Some (u, c')" and c: "last_tv c' = (1000, 7)" "adjustment c' = 0"
    by (simp add: uuid__generate_time_def get_clock_def clock_try_def ex_clock_def)
  have "clock_ok ex_clock" by (simp add: clock_ok_def ex_clock_def)
  then show ?thesis using uuid_generated_time [OF _ u] u c by simp
qed

text \<open>C28: The adjustment goes up to ten, ten adjustments make a microsecond, and so the last identifier of a microsecond is the first identifier of the
  next one: the same identifier is generated twice.\<close>
theorem uuid_time_duplicate:
  assumes "last_tv c = (a, b)" and "(a, b) \<noteq> (0, 0)" and "adjustment c = 9"
  shows "\<exists>u c1 c2. uuid__generate_time node_id rnd start [(a, b)] c = Some (u, c1) \<and> uuid__generate_time node_id rnd start [(a, b + 1)] c1 = Some (u, c2)"
proof -
  have t: "clock_try (a, b) c = Some (c\<lparr>adjustment := 10\<rparr>)" "clock_try (a, b + 1) (c\<lparr>adjustment := 10\<rparr>) = Some (c\<lparr>adjustment := 0, last_tv := (a, b + 1)\<rparr>)"
    using assms by (simp_all add: clock_try_def MAX_ADJUSTMENT_def)
  let ?r = "word_of_int b * 10 + 10 + word_of_int a * 10000000 + uuid_epoch :: uint64"
  have n: "\<not> (fst (last_tv c) = 0 \<and> snd (last_tv c) = 0)" "\<not> (fst (last_tv (c\<lparr>adjustment := 10\<rparr>)) = 0 \<and> snd (last_tv (c\<lparr>adjustment := 10\<rparr>)) = 0)"
    using assms(1,2) by auto
  have "clock_loop [(a, b)] c = Some (?r, c\<lparr>adjustment := 10\<rparr>)" using t(1) by simp
  moreover have "clock_loop [(a, b + 1)] (c\<lparr>adjustment := 10\<rparr>) = Some (?r, c\<lparr>adjustment := 0, last_tv := (a, b + 1)\<rparr>)"
    using t(2) by (simp add: distrib_right)
  ultimately show ?thesis unfolding uuid__generate_time_def get_clock_def Let_def using n by fastforce
qed

theorem uuid_time_duplicate_witness:
  "\<exists>u c1 c2. uuid__generate_time (replicate 6 1) 77 (5, 0) [(5, 0)] \<lparr>adjustment = 9, last_tv = (5, 0), seq = 77\<rparr> = Some (u, c1)
    \<and> uuid__generate_time (replicate 6 1) 77 (5, 0) [(5, 1)] c1 = Some (u, c2)"
  using uuid_time_duplicate [of "\<lparr>adjustment = 9, last_tv = (5, 0), seq = 77\<rparr>" 5 0 "replicate 6 1" 77 "(5, 0)"] by simp

end
