(* ===== verification/Spec2Isabelle.thy ===== *)
theory Spec2Isabelle
  imports TimeOfDay Chain Heap_Props Scheduler_Props Objects_Props JFFS2_Rtime UUID_Text UUID_Time
begin

text \<open>
  A verification library for the SuperCore and the Classic API of RTEMS, a real-time operating system in C. All paths are
  below \<^verbatim>\<open>src/cpukit\<close>.

  \<^bold>\<open>The program\<close>. The SuperCore (\<^verbatim>\<open>score\<close>) is a set of handlers: chains, the heap, the workspace on top of a heap, objects with
  identifiers on top of the workspace, threads and schedulers on top of chains. The managers of the Classic API (\<^verbatim>\<open>rtems\<close>)
  are clients of the handlers: a directive validates its arguments, allocates or looks up an object of the class of the manager,
  changes it, and returns a status code. The configuration is a uniprocessor target with 64-bit pointers
  (\<^verbatim>\<open>CPU_ALIGNMENT\<close> 8), without \<^verbatim>\<open>RTEMS_DEBUG\<close>, \<^verbatim>\<open>RTEMS_SMP\<close>, \<^verbatim>\<open>RTEMS_MULTIPROCESSING\<close> and \<^verbatim>\<open>HEAP_PROTECTION\<close>.

  \<^bold>\<open>Conventions\<close>. A definition has the name of the C function without the leading underscore. Unsigned integers and pointers are
  words of the width C gives them and wrap; signed integers whose overflow is undefined are \<open>int\<close> and the lemmas keep them in
  range. The null pointer is 0. A structure in memory is a record in a map from addresses, or, where the code threads lists through
  objects, the links are cells of a word-addressed memory, so that aliasing of nodes shows. A pointer argument for a result is a
  boolean (whether it is not null) and an optional result. A routine that can end in a fatal error returns an \<open>outcome\<close>. Locks and the
  disabling of interrupts are left out: an operation is one step, as the locks make it.

  \<^bold>\<open>Theories\<close>.
  \<^item> \<^verbatim>\<open>RTEMS_Prelude\<close>: names of the C integer types, shared facts on words.
  \<^item> \<^verbatim>\<open>Timespec\<close> (\<^verbatim>\<open>score/src/timespec*.c\<close>), \<^verbatim>\<open>Status\<close> (\<^verbatim>\<open>rtems/src/status*.c\<close>, \<^verbatim>\<open>score/status.h\<close>), \<^verbatim>\<open>TimeOfDay\<close>
    (\<^verbatim>\<open>rtems/src/clock*.c\<close>): the arithmetic helpers compute what their names say on normalised times, with the exact bounds where the
    32-bit and 64-bit intermediates wrap; the calendar conversions agree with the Gregorian calendar from 1988 on, except for the hour
    in 2100 where they do not.
  \<^item> \<^verbatim>\<open>Chain\<close> (\<^verbatim>\<open>score/chainimpl.h\<close>, \<^verbatim>\<open>score/src/chain*.c\<close>): the invariant \<open>chain_rep m c xs\<close> says that the control at \<open>c\<close> holds the nodes
    \<open>xs\<close> in memory \<open>m\<close>; each operation is shown to do on the memory what the list operation does on \<open>xs\<close>, and to leave
    every other chain alone. Iterators survive the extraction of nodes. The locale \<open>fifo_queue\<close> is interpreted by chains.
  \<^item> \<^verbatim>\<open>Heap\<close> holds the operations of \<^verbatim>\<open>score/src/heap*.c\<close>; \<^verbatim>\<open>Heap_Layout\<close> the invariant \<open>heap_rep\<close>, a sequence of blocks without gaps
    that the headers and the free list agree with, and statistics that count it; \<^verbatim>\<open>Heap_Ops\<close>, \<^verbatim>\<open>Heap_Alloc\<close>, \<^verbatim>\<open>Heap_Search\<close>,
    \<^verbatim>\<open>Heap_Resize\<close> that deallocation, splitting, the search with alignment and boundary, and resizing keep it; \<^verbatim>\<open>Heap_Correct\<close> what clients
    are promised; \<^verbatim>\<open>Heap_Info\<close> that the information services count exactly and \<^verbatim>\<open>_Heap_Walk\<close> accepts; \<^verbatim>\<open>Heap_Client\<close> the
    locale \<open>allocator\<close> and its interpretation by the heap; \<^verbatim>\<open>Heap_Props\<close> the properties.
  \<^item> \<^verbatim>\<open>Workspace\<close> (\<^verbatim>\<open>score/src/wkspace.c\<close>): the locale \<open>workspace\<close>, the contract clients in the kernel rely on, interpreted by the heap.
  \<^item> \<^verbatim>\<open>Objects\<close> holds the operations of \<^verbatim>\<open>score/src/object*.c\<close> for a class of objects, with the workspace as an argument.
    \<^verbatim>\<open>Objects_Inv\<close> is the invariant of a class (\<open>class_base\<close>), \<^verbatim>\<open>Objects_Extend\<close> the growth of a class, \<^verbatim>\<open>Objects_Ops\<close> and \<^verbatim>\<open>Objects_Alloc\<close>
    the operations over any workspace, \<^verbatim>\<open>Objects_Client\<close> the view of a manager: a class is a finite map \<open>live\<close> from identifiers to
    objects, and \<open>class_boot\<close> starts it on a heap accepted by \<^verbatim>\<open>_Heap_Initialize\<close>.
  \<^item> \<^verbatim>\<open>Ports\<close> (\<^verbatim>\<open>rtems/src/dpmem*.c\<close>) and \<^verbatim>\<open>Partitions\<close>, \<^verbatim>\<open>Partitions_Refine\<close> (\<^verbatim>\<open>rtems/src/part*.c\<close>): the managers of dual-ported memory and of
    partitions, on top of all of the above. From system start every sequence of directives returns, and its replies are those of
    a map from identifiers to ports, or to partitions with a queue of free buffers and a set of buffers in use, in which the application
    may write. \<^verbatim>\<open>Objects_Props\<close> has the properties of partitions and of the Object Handler.
  \<^item> \<^verbatim>\<open>Priority_Bitmap\<close> (\<^verbatim>\<open>score/prioritybitmapimpl.h\<close>): the two-level bit map is a set of priorities with its minimum.
  \<^item> \<^verbatim>\<open>Scheduler\<close>: thread states, the heir and the locale \<open>priority_scheduler\<close>, the contract of a scheduler: the ready threads are a list
    ordered by priority, first in first out within a priority. \<^verbatim>\<open>Scheduler_Priority\<close> and \<^verbatim>\<open>Scheduler_Simple\<close> interpret it with the
    operations of \<^verbatim>\<open>score/src/schedulerpriority*.c\<close> and \<^verbatim>\<open>schedulersimple*.c\<close>; \<^verbatim>\<open>Scheduler_Props\<close> has the properties, among them that both
    schedulers choose the same heirs.

  \<^bold>\<open>Loops\<close>. A loop over a linked list or a search in the heap is a \<^verbatim>\<open>partial_function (option)\<close>, whose value is None if it does not
  end; that it ends on every state that satisfies the invariant is part of the theorems (\<open>\<exists>s'. f s = Some s'\<close>). Loops bounded by a
  counter are recursive in the counter. No bound on the number of blocks, objects, nodes or directives is assumed beyond what
  the address space gives; the hypothesis \<open>boot_ok\<close> states that the configured sizes fit into their words and that a class that
  extends itself has more than one object per block. A class with one object per block loses its tables, which is proved as a fault.

  \<^bold>\<open>Not modelled\<close>. Threads are modelled as far as the schedulers use them: context switches are in assembly. Thread queues, watchdogs and
  the EDF scheduler keep red-black trees with macros of \<^verbatim>\<open>sys/tree.h\<close>, which is not in the repository; with them go the objects
  that block and the managers on top of them. Names that are strings, multiprocessing and SMP are outside the configuration. Drivers, board
  support, file systems, networking and the imported libraries are not about the SuperCore.
\<close>

end
